(* ===== verification/Prelude.thy ===== *)
theory Prelude
  imports Main "HOL-Library.Word" "HOL-Library.Multiset"
begin

text \<open>
  What every component of the library shares: the machine types, the exceptions the code
  throws, the arithmetic of power-of-two masks (\<open>buffer_[i & mask_]\<close>), the contents of a
  circular buffer as a list (\<open>window\<close>), and reachability of a step relation with the
  induction principle that every concurrent component uses.

  The code is compiled for x86-64: \<open>size_t\<close> and \<open>uint64_t\<close> are 64-bit words, \<open>uint32_t\<close>
  is a 32-bit word, and \<open>static_cast<intptr_t>(x)\<close> is \<open>sint x\<close>.
\<close>

unbundle bit_operations_syntax

type_synonym size_t = "64 word"
type_synonym u64 = "64 word"
type_synonym u32 = "32 word"

text \<open>The exceptions the modelled code can raise, by their C++ class.\<close>

datatype exn =
    Invalid_argument string
  | Runtime_error string
  | Bad_optional_access
  | Length_error

named_theorems cap_simps \<open>facts about power-of-two capacities and masked indices\<close>
named_theorems window_simps \<open>facts about the contents of a circular buffer\<close>

section \<open>Power-of-two capacities and masked indices\<close>

text \<open>A capacity as the constructors produce it: a power of two that fits in \<open>size_t\<close>.\<close>

definition is_cap :: "size_t \<Rightarrow> bool" where
  "is_cap c \<longleftrightarrow> (\<exists>k<64. c = 2 ^ k)"

text \<open>The physical slot \<open>i & mask_\<close> of a logical index.\<close>

definition slot :: "size_t \<Rightarrow> size_t \<Rightarrow> nat" where
  "slot m i = unat (i AND m)"

lemma unat_2_power: "k < 64 \<Longrightarrow> unat ((2 :: size_t) ^ k) = 2 ^ k"
proof -
  assume k: "k < 64"
  have "unat ((2 :: size_t) ^ k) = unat (of_nat (2 ^ k) :: size_t)" by simp
  also have "\<dots> = 2 ^ k mod 2 ^ 64" by (simp only: unat_of_nat) simp
  also have "\<dots> = 2 ^ k"
    using power_strict_increasing [of k 64 "2::nat"] k by (simp only: mod_less)
  finally show ?thesis .
qed

lemma is_cap_pow: "k < 64 \<Longrightarrow> is_cap (2 ^ k)"
  by (auto simp: is_cap_def)

lemma is_capE:
  assumes "is_cap c"
  obtains k where "k < 64" "c = 2 ^ k" "unat c = 2 ^ k"
  using assms by (auto simp: is_cap_def unat_2_power)

lemma is_cap_nonzero: "is_cap c \<Longrightarrow> 0 < unat c"
  by (auto elim: is_capE)

lemma is_cap_dvd: "is_cap c \<Longrightarrow> unat c dvd 2 ^ 64"
  by (elim is_capE) (simp only: le_imp_power_dvd)

lemma is_cap_lt: "is_cap c \<Longrightarrow> unat c < 2 ^ 64"
  using unsigned_less [of c] by simp

lemma is_cap_le: "is_cap c \<Longrightarrow> unat c \<le> 2 ^ 63"
proof (elim is_capE)
  fix k assume "k < 64" and "unat c = 2 ^ k"
  then show ?thesis using power_increasing [of k 63 "2::nat"] by simp
qed

lemma slot_mod:
  assumes "is_cap c"
  shows "slot (c - 1) i = unat i mod unat c"
proof -
  obtain k where k: "k < 64" "c = 2 ^ k" "unat c = 2 ^ k"
    using assms by (rule is_capE)
  have "slot (c - 1) i = unat (take_bit k i)"
    by (simp add: slot_def k(2) take_bit_eq_mask mask_eq_exp_minus_1)
  also have "\<dots> = take_bit k (unat i)"
    by (rule unsigned_take_bit_eq)
  also have "\<dots> = unat i mod 2 ^ k"
    by (rule take_bit_eq_mod)
  finally show ?thesis by (simp add: k(3))
qed

lemma slot_lt [cap_simps]: "is_cap c \<Longrightarrow> slot (c - 1) i < unat c"
  by (simp add: slot_mod is_cap_nonzero)

lemma slot_add:
  assumes "is_cap c"
  shows "slot (c - 1) (h + of_nat i) = (unat h + i) mod unat c"
proof -
  have "unat (h + of_nat i) = (unat h + i) mod 2 ^ 64"
    by (simp add: unat_word_ariths unat_of_nat mod_add_right_eq)
  then show ?thesis
    using is_cap_dvd [OF assms] by (simp add: slot_mod [OF assms] mod_mod_cancel)
qed

lemma mod_window_inj_le:
  fixes i j c h :: nat
  assumes "i \<le> j" "j < c" "(h + i) mod c = (h + j) mod c"
  shows "i = j"
proof -
  have "c dvd (h + j) - (h + i)"
    using assms by (metis add_le_cancel_left mod_eq_dvd_iff_nat)
  then have "c dvd j - i" by simp
  then show ?thesis using assms(1,2) by (auto dest: dvd_imp_le)
qed

lemma mod_window_inj:
  fixes i j c h :: nat
  assumes "i < c" "j < c" "(h + i) mod c = (h + j) mod c"
  shows "i = j"
  using mod_window_inj_le [of i j c h] mod_window_inj_le [of j i c h] assms by linarith

lemma next_round:
  fixes p c n :: nat
  assumes "0 < c"
  shows "\<exists>q. n \<le> q \<and> q < n + c \<and> q mod c = p mod c"
proof -
  let ?q = "n + (p + c * n - n) mod c"
  have "n \<le> p + c * n" using assms by (cases c) auto
  then have "?q mod c = p mod c" by (simp add: mod_add_right_eq)
  then show ?thesis using assms by (intro exI [of _ ?q]) simp
qed

lemma slot_inj [cap_simps]:
  assumes "is_cap c" "i < unat c" "j < unat c"
  shows "slot (c - 1) (h + of_nat i) = slot (c - 1) (h + of_nat j) \<longleftrightarrow> i = j"
  using mod_window_inj [OF assms(2,3)] by (auto simp: slot_add [OF assms(1)])

text \<open>Counters that stay below \<open>2 ^ 63\<close> behave as natural numbers, signed and unsigned.\<close>

lemma unat_plus_1: "unat (w :: size_t) < 2 ^ 63 \<Longrightarrow> unat (w + 1) = unat w + 1"
  by (simp add: unat_word_ariths)

lemma unat_minus_1: "0 < unat (w :: size_t) \<Longrightarrow> unat (w - 1) = unat w - 1"
  by (simp add: unat_sub word_le_nat_alt)

lemma sint_eq_unat: "unat (w :: size_t) < 2 ^ 63 \<Longrightarrow> sint w = int (unat w)"
proof -
  assume "unat w < 2 ^ 63"
  then have u: "uint w < 2 ^ 63" "0 \<le> uint w"
    by (metis of_nat_less_iff of_nat_numeral of_nat_power uint_nat, simp)
  have "sint w = signed_take_bit 63 (uint w)" by (simp add: sint_uint)
  also have "\<dots> = uint w" by (rule signed_take_bit_int_eq_self) (use u in linarith)+
  finally show ?thesis by simp
qed

lemma sint_less_nat:
  fixes a b :: size_t
  shows "unat a < 2 ^ 63 \<Longrightarrow> unat b < 2 ^ 63 \<Longrightarrow> sint a < sint b \<longleftrightarrow> unat a < unat b"
  using sint_eq_unat [of a] sint_eq_unat [of b] by presburger

lemma sint_le_nat:
  fixes a b :: size_t
  shows "unat a < 2 ^ 63 \<Longrightarrow> unat b < 2 ^ 63 \<Longrightarrow> sint a \<le> sint b \<longleftrightarrow> unat a \<le> unat b"
  using sint_eq_unat [of a] sint_eq_unat [of b] by presburger

lemma sint_diff_nat:
  fixes a b c :: size_t
  shows "unat a < 2 ^ 63 \<Longrightarrow> unat b < 2 ^ 63 \<Longrightarrow> unat c < 2 ^ 63 \<Longrightarrow> 0 < unat c \<Longrightarrow>
    sint c \<le> sint b - sint a \<longleftrightarrow> unat c \<le> unat b - unat a"
  using sint_eq_unat [of a] sint_eq_unat [of b] sint_eq_unat [of c] by presburger

section \<open>The contents of a circular buffer\<close>

text \<open>
  The \<open>n\<close> slots from logical index \<open>h\<close> on, in order. Every ring of the code keeps its live
  elements in such a window.
\<close>

definition window :: "'b list \<Rightarrow> size_t \<Rightarrow> size_t \<Rightarrow> nat \<Rightarrow> 'b list" where
  "window b m h n = map (\<lambda>i. b ! slot m (h + of_nat i)) [0..<n]"

lemma window_0 [simp]: "window b m h 0 = []"
  by (simp add: window_def)

lemma length_window [simp]: "length (window b m h n) = n"
  by (simp add: window_def)

lemma window_Suc: "window b m h (Suc n) = window b m h n @ [b ! slot m (h + of_nat n)]"
  by (simp add: window_def)

lemma window_Cons: "window b m h (Suc n) = b ! slot m h # window b m (h + 1) n"
  by (simp add: window_def upt_rec [of 0 "Suc n"] map_Suc_upt [symmetric] add.assoc del: upt_Suc)

lemma window_nth: "i < n \<Longrightarrow> window b m h n ! i = b ! slot m (h + of_nat i)"
  by (simp add: window_def)

lemma window_update_other:
  "(\<And>i. i < n \<Longrightarrow> slot m (h + of_nat i) \<noteq> j) \<Longrightarrow> window (b[j := x]) m h n = window b m h n"
  unfolding window_def by (rule map_cong) (simp, metis atLeastLessThan_iff nth_list_update_neq set_upt)

lemma window_push [window_simps]:
  assumes "is_cap c" "length b = unat c" "n < unat c"
  shows "window (b[slot (c - 1) (h + of_nat n) := x]) (c - 1) h (Suc n) = window b (c - 1) h n @ [x]"
proof -
  have "slot (c - 1) (h + of_nat i) \<noteq> slot (c - 1) (h + of_nat n)" if "i < n" for i
    using slot_inj [OF assms(1), of i n h] that assms(3) by simp
  then show ?thesis
    by (simp add: window_Suc window_update_other assms(2) slot_lt [OF assms(1)])
qed

lemma window_pop [window_simps]:
  assumes "is_cap c" "Suc n \<le> unat c"
  shows "window (b[slot (c - 1) h := x]) (c - 1) (h + 1) n = tl (window b (c - 1) h (Suc n))"
proof -
  have "slot (c - 1) (h + 1 + of_nat i) \<noteq> slot (c - 1) h" if "i < n" for i
    using slot_inj [OF assms(1), of "Suc i" 0 h] that assms(2) by (simp add: add.assoc)
  then show ?thesis
    by (simp add: window_Cons window_update_other)
qed

text \<open>All slots of a ring, from logical index \<open>h\<close> around: a write at offset \<open>n\<close> updates
  position \<open>n\<close>, moving \<open>h\<close> on by one rotates.\<close>

definition ring_view :: "'b list \<Rightarrow> size_t \<Rightarrow> size_t \<Rightarrow> 'b list" where
  "ring_view b m h = window b m h (length b)"

lemma length_ring_view [simp]: "length (ring_view b m h) = length b"
  by (simp add: ring_view_def)

lemma slot_masked: "is_cap c \<Longrightarrow> slot (c - 1) ((x AND (c - 1)) + y) = slot (c - 1) (x + y)"
proof -
  assume c: "is_cap c"
  have "unat (x AND (c - 1)) = unat x mod unat c"
    using slot_mod [OF c, of x] by (simp add: slot_def)
  then show ?thesis
    using slot_add [OF c, of "x AND (c - 1)" "unat y"] slot_add [OF c, of x "unat y"]
    by (simp add: mod_add_left_eq)
qed

lemma and_masked: "is_cap c \<Longrightarrow> ((x AND (c - 1)) + y) AND (c - 1) = (x + y) AND (c - 1)"
  using slot_masked [of c x y] by (simp add: slot_def word_unat_eq_iff)

lemma ring_view_nth: "i < length b \<Longrightarrow> ring_view b m h ! i = b ! slot m (h + of_nat i)"
  by (simp add: ring_view_def window_nth)

lemma ring_view_masked [window_simps]:
  "is_cap c \<Longrightarrow> ring_view b (c - 1) (h AND (c - 1)) = ring_view b (c - 1) h"
  by (simp add: ring_view_def window_def slot_masked)

lemma ring_view_update [window_simps]:
  assumes "is_cap c" "length b = unat c" "n < unat c"
  shows "ring_view (b[slot (c - 1) (h + of_nat n) := x]) (c - 1) h = (ring_view b (c - 1) h)[n := x]"
proof (rule nth_equalityI)
  fix i assume "i < length (ring_view (b[slot (c - 1) (h + of_nat n) := x]) (c - 1) h)"
  then show "ring_view (b[slot (c - 1) (h + of_nat n) := x]) (c - 1) h ! i =
      (ring_view b (c - 1) h)[n := x] ! i"
    using slot_inj [OF assms(1), of i n h] assms slot_lt [OF assms(1)]
    by (auto simp: ring_view_def window_nth nth_list_update)
qed simp

lemma ring_view_rotate [window_simps]:
  assumes "is_cap c" "length b = unat c"
  shows "ring_view b (c - 1) (h + 1) = rotate1 (ring_view b (c - 1) h)"
proof (rule nth_equalityI)
  fix i assume "i < length (ring_view b (c - 1) (h + 1))"
  then have i: "i < unat c" using assms(2) by simp
  have "slot (c - 1) (h + 1 + of_nat i) = (unat h + Suc i) mod unat c"
    using slot_add [OF assms(1), of h "Suc i"] by (simp add: ac_simps)
  moreover have "slot (c - 1) (h + of_nat (Suc i mod unat c)) = (unat h + Suc i) mod unat c"
    by (simp add: slot_add [OF assms(1)] mod_add_right_eq)
  ultimately show "ring_view b (c - 1) (h + 1) ! i = rotate1 (ring_view b (c - 1) h) ! i"
    using i assms(2) by (simp add: nth_rotate1 ring_view_def window_nth)
qed simp

lemma ring_view_mset:
  assumes "is_cap c" "length b = unat c"
  shows "mset (ring_view b (c - 1) h) = mset b"
proof -
  let ?p = "map (\<lambda>i. slot (c - 1) (h + of_nat i)) [0..<unat c]"
  have d: "distinct ?p"
    unfolding distinct_map inj_on_def by (intro conjI ballI impI distinct_upt) (simp add: slot_inj [OF assms(1)])
  have "set ?p \<subseteq> {..<unat c}" using slot_lt [OF assms(1)] by auto
  moreover have "card (set ?p) = unat c" using distinct_card [OF d] by simp
  ultimately have "set ?p = set [0..<unat c]"
    using card_subset_eq [of "{..<unat c}" "set ?p"] by (simp add: atLeast0LessThan)
  then have "mset ?p = mset [0..<unat c]"
    by (rule iffD1 [OF set_eq_iff_mset_eq_distinct [OF d distinct_upt]])
  then have p: "image_mset ((!) b) (mset ?p) = image_mset ((!) b) (mset [0..<unat c])"
    by (rule arg_cong)
  have "ring_view b (c - 1) h = map ((!) b) ?p"
    by (simp add: ring_view_def window_def assms(2))
  then have "mset (ring_view b (c - 1) h) = image_mset ((!) b) (mset ?p)"
    by (simp only: mset_map)
  also have "\<dots> = mset (map ((!) b) [0..<length b])"
    using p by (simp only: mset_map assms(2))
  finally show ?thesis by (simp only: map_nth)
qed

lemma ring_view_rotate_n:
  assumes "is_cap c" "length b = unat c"
  shows "ring_view b (c - 1) (h + of_nat n) = rotate n (ring_view b (c - 1) h)"
proof (induction n)
  case 0
  then show ?case by simp
next
  case (Suc n)
  then show ?case
    using ring_view_rotate [OF assms, of "h + of_nat n"] by (simp add: ac_simps)
qed

text \<open>The distance between two free-running counters, which may wrap around.\<close>

lemma unat_plus_nat: "unat (d :: size_t) + k < 2 ^ 64 \<Longrightarrow> unat (d + of_nat k) = unat d + k"
  by (simp add: unat_word_ariths unat_of_nat)

lemma unat_minus_nat: "k \<le> unat (d :: size_t) \<Longrightarrow> unat (d - of_nat k) = unat d - k"
proof -
  assume a: "k \<le> unat d"
  then have "k < 2 ^ 64" using unsigned_less [of d, where 'a = nat] by simp
  then have "unat (of_nat k :: size_t) = k" by (simp add: unat_of_nat)
  then show ?thesis using a by (simp add: unat_sub word_le_nat_alt)
qed

lemma dist_tail:
  "unat (t - h) + k < 2 ^ 64 \<Longrightarrow> unat ((t :: size_t) + of_nat k - h) = unat (t - h) + k"
  using unat_plus_nat [of "t - h" k] by (simp add: algebra_simps)

lemma dist_head:
  "k \<le> unat (t - h) \<Longrightarrow> unat ((t :: size_t) - (h + of_nat k)) = unat (t - h) - k"
  using unat_minus_nat [of k "t - h"] by (simp add: algebra_simps)

section \<open>Reachable states of a step relation\<close>

text \<open>
  A concurrent component is a predicate on initial states and a step relation whose steps are
  the atomic accesses of the code, one thread at a time.
\<close>

inductive reach :: "('s \<Rightarrow> bool) \<Rightarrow> ('s \<Rightarrow> 's \<Rightarrow> bool) \<Rightarrow> 's \<Rightarrow> bool"
  for I :: "'s \<Rightarrow> bool" and R :: "'s \<Rightarrow> 's \<Rightarrow> bool" where
  reach_init: "I s \<Longrightarrow> reach I R s"
| reach_step: "reach I R s \<Longrightarrow> R s t \<Longrightarrow> reach I R t"

lemma reach_rtranclp: "reach I R s \<Longrightarrow> R\<^sup>*\<^sup>* s t \<Longrightarrow> reach I R t"
proof -
  assume "R\<^sup>*\<^sup>* s t" and "reach I R s"
  then show ?thesis by (induction rule: rtranclp_induct) (auto intro: reach_step)
qed

text \<open>The interface of an inductive invariant: what a component proves of its steps, and what
  it gets for every reachable state.\<close>

locale inductive_invariant =
  fixes init :: "'s \<Rightarrow> bool" and trans :: "'s \<Rightarrow> 's \<Rightarrow> bool" and inv :: "'s \<Rightarrow> bool"
  assumes inv_init: "init s \<Longrightarrow> inv s"
    and inv_step: "inv s \<Longrightarrow> trans s t \<Longrightarrow> inv t"
begin

lemma inv_reach: "reach init trans s \<Longrightarrow> inv s"
  by (induction rule: reach.induct) (auto intro: inv_init inv_step)

lemma inv_rtrancl: "trans\<^sup>*\<^sup>* s t \<Longrightarrow> inv s \<Longrightarrow> inv t"
  by (induction rule: rtranclp_induct) (auto intro: inv_step)

end

text \<open>From every state that satisfies the invariant, steps that get closer lead to a goal.\<close>

locale reaches_goal =
  fixes trans :: "'s \<Rightarrow> 's \<Rightarrow> bool" and inv :: "'s \<Rightarrow> bool" and goal :: "'s \<Rightarrow> bool" and closer :: "('s \<times> 's) set"
  assumes wf_closer: "wf closer"
    and inv_trans: "inv s \<Longrightarrow> trans s t \<Longrightarrow> inv t"
    and progress: "inv s \<Longrightarrow> \<not> goal s \<Longrightarrow> \<exists>t. trans s t \<and> (t, s) \<in> closer"
begin

lemma inv_run: "trans\<^sup>*\<^sup>* s t \<Longrightarrow> inv s \<Longrightarrow> inv t"
  by (induction rule: rtranclp_induct) (auto intro: inv_trans)

lemma reaches: "inv s \<Longrightarrow> \<exists>t. trans\<^sup>*\<^sup>* s t \<and> goal t"
proof (induction s rule: wf_induct_rule [OF wf_closer])
  case (1 s)
  show ?case
  proof (cases "goal s")
    case False
    then obtain t where t: "trans s t" "(t, s) \<in> closer" using progress [OF 1(2)] by blast
    then show ?thesis using 1(1) inv_trans [OF 1(2)] by (meson converse_rtranclp_into_rtranclp)
  qed auto
qed

text \<open>Where no step is possible, the goal is reached.\<close>

lemma stopped_at_goal: "inv s \<Longrightarrow> trans\<^sup>*\<^sup>* s t \<Longrightarrow> \<not> (\<exists>u. trans t u) \<Longrightarrow> goal t"
  using inv_run progress by blast

end

section \<open>What the threads hold\<close>

text \<open>
  Threads are numbered; what each of them holds (a claimed position, a task, a block) is a set
  that depends on where it stands. When the threads hold disjoint sets, moving one thread on
  replaces exactly its own share.
\<close>

definition held :: "('p \<Rightarrow> 'b set) \<Rightarrow> (nat \<Rightarrow> 'p) \<Rightarrow> 'b set" where
  "held f pc = (\<Union>t. f (pc t))"

definition apart :: "('p \<Rightarrow> 'b set) \<Rightarrow> (nat \<Rightarrow> 'p) \<Rightarrow> bool" where
  "apart f pc \<longleftrightarrow> (\<forall>t u. t \<noteq> u \<longrightarrow> f (pc t) \<inter> f (pc u) = {})"

lemma apartD: "apart f pc \<Longrightarrow> x \<in> f (pc t) \<Longrightarrow> x \<in> f (pc u) \<Longrightarrow> t = u"
  by (auto simp: apart_def)

lemma heldI: "x \<in> f (pc t) \<Longrightarrow> x \<in> held f pc"
  by (auto simp: held_def)

lemma held_update: "apart f pc \<Longrightarrow> held f (pc(t := a)) = (held f pc - f (pc t)) \<union> f a"
  by (fastforce simp: held_def apart_def split: if_splits)

lemma held_update_same: "f a = f (pc t) \<Longrightarrow> held f (pc(t := a)) = held f pc"
  by (auto simp: held_def split: if_splits)

lemma apart_update:
  assumes "apart f pc" "f a \<inter> (held f pc - f (pc t)) = {}"
  shows "apart f (pc(t := a))"
proof -
  have "f a \<inter> f (pc u) = {}" if "u \<noteq> t" for u
    using assms that by (fastforce simp: apart_def held_def)
  then show ?thesis using assms(1) by (auto simp: apart_def)
qed

lemma apart_update_same: "apart f pc \<Longrightarrow> f a \<subseteq> f (pc t) \<Longrightarrow> apart f (pc(t := a))"
  by (rule apart_update) auto

text \<open>Counting over a fixed number of threads.\<close>

lemma sum_thread_update:
  fixes f :: "'p \<Rightarrow> 'm :: comm_monoid_add" and t n :: nat
  assumes "t < n"
  shows "(\<Sum>u<n. f ((pc(t := a)) u)) + f (pc t) = (\<Sum>u<n. f (pc u)) + f a"
proof -
  have "(\<Sum>u<n. f ((pc(t := a)) u)) = f a + (\<Sum>u\<in>{..<n} - {t}. f (pc u))"
  proof -
    have "(\<Sum>u\<in>{..<n} - {t}. f ((pc(t := a)) u)) = (\<Sum>u\<in>{..<n} - {t}. f (pc u))"
      by (rule sum.cong) auto
    then show ?thesis using sum.remove [of "{..<n}" t "\<lambda>u. f ((pc(t := a)) u)"] assms by simp
  qed
  moreover have "(\<Sum>u<n. f (pc u)) = f (pc t) + (\<Sum>u\<in>{..<n} - {t}. f (pc u))"
    using sum.remove [of "{..<n}" t "\<lambda>u. f (pc u)"] assms by simp
  ultimately show ?thesis by (simp add: ac_simps)
qed

text \<open>A conserved quantity: what the threads hold plus what is stored. When one thread moves on, it is
  enough to compare what that thread and the store held before and after.\<close>

lemma balance:
  fixes a a' b b' :: "'m :: cancel_comm_monoid_add" and n :: nat
  assumes "a = b + (\<Sum>i<n. f (pc i))" "i < n" "a' + b + f (pc i) = a + b' + f p"
  shows "a' = b' + (\<Sum>u<n. f ((pc(i := p)) u))"
proof -
  have "a' + (b + f (pc i)) = b + (\<Sum>u<n. f (pc u)) + b' + f p"
    using assms(1,3) by (simp add: add.assoc)
  also have "\<dots> = (b' + b) + ((\<Sum>u<n. f (pc u)) + f p)" by (simp add: ac_simps)
  also have "\<dots> = (b' + b) + ((\<Sum>u<n. f ((pc(i := p)) u)) + f (pc i))"
    using sum_thread_update [OF assms(2), of f pc p] by simp
  also have "\<dots> = (b' + (\<Sum>u<n. f ((pc(i := p)) u))) + (b + f (pc i))" by (simp add: ac_simps)
  finally show ?thesis by (rule add_right_imp_eq)
qed

lemma sum_thread_le: "(\<And>u. f (pc u) \<le> k) \<Longrightarrow> (\<Sum>u<n. f (pc u)) \<le> k * n" for n k :: nat and f :: "'p \<Rightarrow> nat"
  using sum_bounded_above [of "{..<n}" "\<lambda>u. f (pc u)" k] by (simp add: mult.commute)

lemma sum_thread_member: "t < n \<Longrightarrow> f (pc t) \<le> (\<Sum>u<n. f (pc u))" for n :: nat and f :: "'p \<Rightarrow> nat"
  using member_le_sum [of t "{..<n}" "\<lambda>u. f (pc u)"] by simp

end
