(* ===== verification/Next_Power_Of_Two.thy ===== *)
theory Next_Power_Of_Two
  imports Prelude
begin

text \<open>
  \<open>include/NextPowerOfTwo.h\<close>: rounding a capacity up to a power of two. The three branches of
  \<open>nextPowerOfTwoSafe\<close> (constant evaluation and the portable fallback smear the bits, GCC and
  Clang count leading zeros, MSVC scans for the highest bit) are modelled apart and shown to
  agree with the least power of two above \<open>n\<close>.
\<close>

section \<open>The operations\<close>

text \<open>\<open>m |= m >> 1; m |= m >> 2; \<dots> m |= m >> 32; return m + 1\<close>\<close>

definition smear :: "nat \<Rightarrow> size_t \<Rightarrow> size_t" where
  "smear s m = m OR drop_bit s m"

definition np2_shift :: "size_t \<Rightarrow> size_t" where
  "np2_shift n = smear 32 (smear 16 (smear 8 (smear 4 (smear 2 (smear 1 (n - 1)))))) + 1"

text \<open>\<open>__builtin_clzll\<close>: leading zeros, counted from bit 63 down (undefined for 0, which the
  code never passes).\<close>

fun clz_from :: "nat \<Rightarrow> u64 \<Rightarrow> nat" where
  "clz_from 0 x = 0"
| "clz_from (Suc i) x = (if bit x i then 0 else Suc (clz_from i x))"

definition clzll :: "u64 \<Rightarrow> nat" where
  "clzll x = clz_from 64 x"

definition np2_clz :: "size_t \<Rightarrow> size_t" where
  "np2_clz n = push_bit (64 - clzll (n - 1)) 1"

text \<open>\<open>_BitScanReverse64\<close>: the index of the highest set bit.\<close>

definition bit_scan_reverse :: "u64 \<Rightarrow> nat" where
  "bit_scan_reverse x = 63 - clzll x"

definition np2_msvc :: "size_t \<Rightarrow> size_t" where
  "np2_msvc n = push_bit (bit_scan_reverse (n - 1) + 1) 1"

datatype compiler = Gnu_or_clang | Msvc | Other_compiler

definition nextPowerOfTwoSafe :: "bool \<Rightarrow> compiler \<Rightarrow> size_t \<Rightarrow> size_t option" where
  "nextPowerOfTwoSafe constant_evaluated cc n =
     (let max_pow2 = push_bit (64 - 1) 1 in
      if n \<le> 1 then Some 1
      else if max_pow2 < n then None
      else if constant_evaluated then Some (np2_shift n)
      else (case cc of
              Gnu_or_clang \<Rightarrow> Some (np2_clz n)
            | Msvc \<Rightarrow> Some (np2_msvc n)
            | Other_compiler \<Rightarrow> Some (np2_shift n)))"

text \<open>The constructors of the containers call it at run time, compiled by GCC.\<close>

definition nextPowerOfTwoChecked :: "size_t \<Rightarrow> exn + size_t" where
  "nextPowerOfTwoChecked n =
     (case nextPowerOfTwoSafe False Gnu_or_clang n of
        None \<Rightarrow> Inl (Invalid_argument ''nextPowerOfTwo: value exceeds representable range (2^63)'')
      | Some r \<Rightarrow> Inr r)"

section \<open>The highest set bit\<close>

text \<open>Bit \<open>j\<close> is the highest set bit of \<open>x\<close>.\<close>

definition top_bit :: "size_t \<Rightarrow> nat \<Rightarrow> bool" where
  "top_bit x j \<longleftrightarrow> bit x j \<and> (\<forall>i>j. \<not> bit x i)"

lemma top_bit_lt: "top_bit x j \<Longrightarrow> j < 64"
  by (auto simp: top_bit_def dest: bit_imp_le_length)

lemma clz_from_top_bit: "top_bit x j \<Longrightarrow> j < n \<Longrightarrow> clz_from n x = n - 1 - j"
proof (induction n)
  case 0
  then show ?case by simp
next
  case (Suc n)
  then show ?case by (cases "j = n") (auto simp: top_bit_def)
qed

lemma clzll_top_bit: "top_bit x j \<Longrightarrow> clzll x = 63 - j"
  by (simp add: clzll_def clz_from_top_bit top_bit_lt)

lemma bit_unat: "bit (unat x) i \<longleftrightarrow> bit (x :: size_t) i"
  by (auto simp: bit_unsigned_iff dest: bit_imp_le_length)

lemma top_bit_upper:
  assumes "top_bit x j"
  shows "unat x < 2 ^ (j + 1)"
proof -
  have "take_bit (j + 1) (unat x) = unat x"
    using assms by (intro bit_eqI) (auto simp: bit_take_bit_iff bit_unat top_bit_def not_less_eq)
  then show ?thesis by (metis take_bit_nat_less_exp)
qed

lemma top_bit_lower:
  assumes "top_bit x j"
  shows "2 ^ j \<le> unat x"
proof (rule ccontr)
  assume "\<not> 2 ^ j \<le> unat x"
  then have "take_bit j (unat x) = unat x" by (simp add: take_bit_nat_eq_self)
  then have "\<not> bit (unat x) j" by (metis bit_take_bit_iff less_irrefl)
  then show False using assms by (simp add: bit_unat top_bit_def)
qed

lemma top_bit_ex:
  assumes "(x :: size_t) \<noteq> 0"
  shows "\<exists>j. top_bit x j"
proof -
  let ?B = "{i. bit x i}"
  have fin: "finite ?B"
    by (rule finite_subset [of _ "{..<64}"]) (auto dest: bit_imp_le_length)
  have "?B \<noteq> {}" using assms by (auto simp: bit_eq_iff)
  with fin have "top_bit x (Max ?B)"
    using Max_in [of ?B] Max_ge [of ?B] by (auto simp: top_bit_def leD)
  then show ?thesis by blast
qed

text \<open>After the shifts by 1, 2, \<dots>, \<open>s\<close>, bit \<open>i\<close> is set iff one of the next \<open>2 s\<close> bits was.\<close>

definition spread :: "nat \<Rightarrow> size_t \<Rightarrow> size_t \<Rightarrow> bool" where
  "spread s m x \<longleftrightarrow> (\<forall>i. bit x i \<longleftrightarrow> (\<exists>d < s. bit m (i + d)))"

lemma spread_1: "spread 1 m m"
  by (simp add: spread_def)

lemma smear_spread:
  assumes "spread s m x"
  shows "spread (s + s) m (smear s x)"
proof -
  have "(\<exists>d < s + s. P d) \<longleftrightarrow> (\<exists>d < s. P d) \<or> (\<exists>d < s. P (s + d))" for P :: "nat \<Rightarrow> bool"
    by (metis add_less_cancel_left le_add_diff_inverse not_less trans_less_add1)
  then show ?thesis
    using assms by (simp add: spread_def smear_def bit_or_iff bit_drop_bit_eq ac_simps)
qed

lemma spread_64_mask:
  assumes "spread 64 m x" "top_bit m j"
  shows "x = mask (j + 1)"
proof (rule bit_word_eqI)
  fix i assume "i < LENGTH(64)"
  have "(\<exists>d<64. bit m (i + d)) \<longleftrightarrow> i \<le> j"
  proof
    assume "i \<le> j"
    then have "bit m (i + (j - i))" "j - i < 64"
      using assms(2) top_bit_lt [OF assms(2)] by (simp_all add: top_bit_def)
    then show "\<exists>d<64. bit m (i + d)" by blast
  next
    assume "\<exists>d<64. bit m (i + d)"
    then obtain d where "bit m (i + d)" by blast
    then have "i + d \<le> j" using assms(2) by (auto simp: top_bit_def intro: leI)
    then show "i \<le> j" by simp
  qed
  then show "bit x i = bit (mask (j + 1) :: size_t) i"
    using assms(1) \<open>i < LENGTH(64)\<close> by (simp add: spread_def bit_mask_iff less_Suc_eq_le)
qed

lemma smear_chain:
  assumes "top_bit m j"
  shows "smear 32 (smear 16 (smear 8 (smear 4 (smear 2 (smear 1 m))))) = mask (j + 1)"
proof -
  have "spread 2 m (smear 1 m)"
    using smear_spread [OF spread_1, of m] by (simp only: one_add_one)
  then have "spread 4 m (smear 2 (smear 1 m))"
    by (auto dest: smear_spread)
  then have "spread 8 m (smear 4 (smear 2 (smear 1 m)))"
    by (auto dest: smear_spread)
  then have "spread 16 m (smear 8 (smear 4 (smear 2 (smear 1 m))))"
    by (auto dest: smear_spread)
  then have "spread 32 m (smear 16 (smear 8 (smear 4 (smear 2 (smear 1 m)))))"
    by (auto dest: smear_spread)
  then have "spread 64 m (smear 32 (smear 16 (smear 8 (smear 4 (smear 2 (smear 1 m))))))"
    by (auto dest: smear_spread)
  then show ?thesis using assms by (rule spread_64_mask)
qed

section \<open>The three branches agree\<close>

lemma branches_top_bit:
  assumes "top_bit (n - 1) j"
  shows "np2_shift n = 2 ^ (j + 1)" "np2_clz n = 2 ^ (j + 1)" "np2_msvc n = 2 ^ (j + 1)"
proof -
  have j: "j < 64" using assms by (rule top_bit_lt)
  show "np2_shift n = 2 ^ (j + 1)"
    unfolding np2_shift_def smear_chain [OF assms] by (simp add: mask_eq_exp_minus_1)
  show "np2_clz n = 2 ^ (j + 1)"
    using j by (simp add: np2_clz_def clzll_top_bit [OF assms] push_bit_eq_mult Suc_diff_le)
  show "np2_msvc n = 2 ^ (j + 1)"
    using j by (simp add: np2_msvc_def bit_scan_reverse_def clzll_top_bit [OF assms] push_bit_eq_mult)
qed

lemma Least_power_bracket:
  fixes n :: nat
  assumes "2 ^ j < n" "n \<le> 2 ^ (j + 1)"
  shows "(LEAST k. n \<le> 2 ^ k) = j + 1"
proof (rule Least_equality)
  fix k assume "n \<le> 2 ^ k"
  with assms(1) have "(2::nat) ^ j < 2 ^ k" by linarith
  then have "j < k" by (metis power_less_imp_less_exp numeral_One one_less_numeral_iff semiring_norm(76))
  then show "j + 1 \<le> k" by simp
qed (rule assms(2))

lemma branches_least:
  assumes "1 < unat n" "unat n \<le> 2 ^ 63"
  shows "np2_shift n = 2 ^ (LEAST k. unat n \<le> 2 ^ k)" "np2_clz n = 2 ^ (LEAST k. unat n \<le> 2 ^ k)"
    "np2_msvc n = 2 ^ (LEAST k. unat n \<le> 2 ^ k)"
proof -
  have m: "unat (n - 1) = unat n - 1" using assms(1) by (simp add: unat_minus_1)
  then have "n - 1 \<noteq> 0" using assms(1) by auto
  then obtain j where j: "top_bit (n - 1) j" using top_bit_ex by blast
  have "2 ^ j < unat n" "unat n \<le> 2 ^ (j + 1)"
    using top_bit_lower [OF j] top_bit_upper [OF j] m assms(1) by linarith+
  then show "np2_shift n = 2 ^ (LEAST k. unat n \<le> 2 ^ k)" "np2_clz n = 2 ^ (LEAST k. unat n \<le> 2 ^ k)"
    "np2_msvc n = 2 ^ (LEAST k. unat n \<le> 2 ^ k)"
    using branches_top_bit [OF j] by (simp_all only: Least_power_bracket)
qed

lemma safe_spec:
  "nextPowerOfTwoSafe ce cc n =
     (if unat n \<le> 2 ^ 63 then Some (2 ^ (LEAST k. unat n \<le> 2 ^ k)) else None)"
proof -
  have one: "(n \<le> 1) = (unat n \<le> 1)" by (simp add: word_le_nat_alt)
  have mx: "(push_bit (64 - 1) 1 < n) = (2 ^ 63 < unat n)"
    by (simp add: word_less_nat_alt)
  have "unat n \<le> 1 \<Longrightarrow> (LEAST k. unat n \<le> 2 ^ k) = (0::nat)"
    by (rule Least_equality) auto
  then show ?thesis
    using branches_least [of n] unfolding nextPowerOfTwoSafe_def Let_def one mx
    by (auto split: compiler.split)
qed

text \<open>What the constructors rely on.\<close>

lemma checked_is_cap:
  assumes "nextPowerOfTwoChecked n = Inr c"
  shows "is_cap c" "unat n \<le> unat c"
proof -
  let ?k = "LEAST k. unat n \<le> 2 ^ k"
  have n: "unat n \<le> 2 ^ 63" and c: "c = 2 ^ ?k"
    using assms by (auto simp: nextPowerOfTwoChecked_def safe_spec split: if_splits)
  have "?k \<le> 63" using n by (rule Least_le)
  then have k: "?k < 64" by simp
  then show "is_cap c" by (simp only: c is_cap_pow)
  have "unat n \<le> 2 ^ ?k" using n by (rule LeastI)
  then show "unat n \<le> unat c" using k by (simp only: c unat_2_power)
qed

lemma checked_total: "unat n \<le> 2 ^ 63 \<Longrightarrow> \<exists>c. nextPowerOfTwoChecked n = Inr c"
  by (simp add: nextPowerOfTwoChecked_def safe_spec)

section \<open>Properties\<close>

text \<open>C1: every branch of \<open>nextPowerOfTwoSafe\<close> (constant evaluation, GCC/Clang, MSVC, portable)
  returns the least power of two that is at least \<open>n\<close>, and \<open>nullopt\<close> exactly when \<open>n > 2^63\<close>.\<close>

theorem nextPowerOfTwoSafe_least:
  "nextPowerOfTwoSafe ce cc n =
     (if unat n \<le> 2 ^ 63 then Some (2 ^ (LEAST k. unat n \<le> 2 ^ k)) else None)"
  by (rule safe_spec)

end
