(* ===== verification/Interfaces.thy ===== *)
theory Interfaces
  imports Prelude
begin

text \<open>
  The contracts the containers of the library promise to their clients, as locales: a data
  refinement between a concrete component and its specification, the bounded FIFO queue that
  \<open>RingBuffer\<close>, \<open>SPSCRingBuffer\<close> and \<open>LockFreeQueue\<close> implement, and the work-stealing deque
  that \<open>WorkStealingDeque\<close> and \<open>WorkStealingQueue\<close> implement. An operation that throws or does
  not return is \<open>None\<close>, so refinement includes that it does neither. The state invariant \<open>ok k\<close>
  is indexed by a number of further operations, because some components count operations in
  64-bit integers that must not overflow; a component without such a limit ignores the index.
\<close>

section \<open>Data refinement\<close>

fun run_ops :: "('op \<Rightarrow> 's \<Rightarrow> ('r \<times> 's) option) \<Rightarrow> 'op list \<Rightarrow> 's \<Rightarrow> ('r list \<times> 's) option" where
  "run_ops f [] s = Some ([], s)"
| "run_ops f (x # xs) s =
     (case f x s of
        None \<Rightarrow> None
      | Some (r, s') \<Rightarrow> map_option (map_prod (Cons r) id) (run_ops f xs s'))"

fun run_spec :: "('op \<Rightarrow> 's \<Rightarrow> 'r \<times> 's) \<Rightarrow> 'op list \<Rightarrow> 's \<Rightarrow> 'r list \<times> 's" where
  "run_spec f [] s = ([], s)"
| "run_spec f (x # xs) s = (let (r, s') = f x s; (rs, t) = run_spec f xs s' in (r # rs, t))"

lemma run_spec_snoc:
  "run_spec f xs s = (rs, t) \<Longrightarrow> f x t = (r, u) \<Longrightarrow> run_spec f (xs @ [x]) s = (rs @ [r], u)"
  by (induction xs arbitrary: s rs) (auto simp: Let_def split: prod.splits)

locale data_refinement =
  fixes apply_op :: "'op \<Rightarrow> 'c \<Rightarrow> ('r \<times> 'c) option"
    and spec_op :: "'op \<Rightarrow> 'abs \<Rightarrow> 'r \<times> 'abs"
    and abst :: "'c \<Rightarrow> 'abs"
    and ok :: "nat \<Rightarrow> 'c \<Rightarrow> bool"
  assumes simulation: "ok (Suc k) c \<Longrightarrow>
    \<exists>c'. apply_op x c = Some (fst (spec_op x (abst c)), c') \<and> abst c' = snd (spec_op x (abst c)) \<and> ok k c'"
begin

lemma run_simulation:
  "ok (length xs + k) c \<Longrightarrow>
    \<exists>c'. run_ops apply_op xs c = Some (fst (run_spec spec_op xs (abst c)), c') \<and>
      abst c' = snd (run_spec spec_op xs (abst c)) \<and> ok k c'"
proof (induction xs arbitrary: c)
  case Nil
  then show ?case by simp
next
  case (Cons x xs)
  obtain c' where c': "apply_op x c = Some (fst (spec_op x (abst c)), c')"
      "abst c' = snd (spec_op x (abst c))" "ok (length xs + k) c'"
    using simulation [of "length xs + k" c x] Cons.prems by auto
  show ?case
    using Cons.IH [OF c'(3)] c'(1,2) by (auto simp: split_beta)
qed

lemma run_results:
  "ok (length xs) c \<Longrightarrow> map_option fst (run_ops apply_op xs c) = Some (fst (run_spec spec_op xs (abst c)))"
  using run_simulation [of xs 0 c] by auto

lemma run_ok: "ok (length xs + k) c \<Longrightarrow> run_ops apply_op xs c = Some (rs, c') \<Longrightarrow> ok k c'"
  using run_simulation [of xs k c] by auto

end

section \<open>Atomic objects\<close>

text \<open>A step of the implementation either leaves the abstract object alone or is one of its operations.\<close>

locale atomic_object =
  fixes init :: "'s \<Rightarrow> bool" and trans :: "'s \<Rightarrow> 's \<Rightarrow> bool" and good :: "'s \<Rightarrow> bool"
    and abst :: "'s \<Rightarrow> 'abs" and spec_op :: "'op \<Rightarrow> 'abs \<Rightarrow> 'r \<times> 'abs"
    and effect :: "'s \<Rightarrow> 's \<Rightarrow> ('op \<times> 'r) option"
  assumes good_init: "init s \<Longrightarrow> good s"
    and good_step: "good s \<Longrightarrow> trans s t \<Longrightarrow> good t"
    and no_effect: "good s \<Longrightarrow> trans s t \<Longrightarrow> effect s t = None \<Longrightarrow> abst t = abst s"
    and effect_is_op: "good s \<Longrightarrow> trans s t \<Longrightarrow> effect s t = Some (x, r) \<Longrightarrow> spec_op x (abst s) = (r, abst t)"
begin

lemma good_reach: "reach init trans s \<Longrightarrow> good s"
  by (induction rule: reach.induct) (auto intro: good_init good_step)

text \<open>The operations, in the order in which they take effect, explain the abstract object.\<close>

lemma linearization:
  "reach init trans s \<Longrightarrow> \<exists>s0 ops rs. init s0 \<and> run_spec spec_op ops (abst s0) = (rs, abst s)"
proof (induction rule: reach.induct)
  case (reach_init s)
  then show ?case by (intro exI [of _ s] exI [of _ "[]"]) simp
next
  case (reach_step s t)
  obtain s0 ops rs where run: "init s0" "run_spec spec_op ops (abst s0) = (rs, abst s)"
    using reach_step.IH by blast
  note g = good_reach [OF reach_step(1)]
  show ?case
  proof (cases "effect s t")
    case None
    then show ?thesis using run no_effect [OF g reach_step(2)] by auto
  next
    case (Some e)
    then have "spec_op (fst e) (abst s) = (snd e, abst t)" using effect_is_op [OF g reach_step(2)] by simp
    from run_spec_snoc [OF run(2) this] run(1) show ?thesis by blast
  qed
qed

end

section \<open>Bounded FIFO queues\<close>

datatype 'a qop = Enq 'a | Deq
datatype 'a qres = Accepted bool | Got "'a option"

text \<open>The specification: a list with a capacity. A full queue rejects, an empty one yields nothing.\<close>

fun fifo_step :: "'a qop \<Rightarrow> nat \<times> 'a list \<Rightarrow> 'a qres \<times> (nat \<times> 'a list)" where
  "fifo_step (Enq x) (c, xs) =
     (if length xs < c then (Accepted True, (c, xs @ [x])) else (Accepted False, (c, xs)))"
| "fifo_step Deq (c, []) = (Got None, (c, []))"
| "fifo_step Deq (c, x # xs) = (Got (Some x), (c, xs))"

text \<open>What went in and what came out of a run.\<close>

fun taken_in :: "'a qop list \<Rightarrow> 'a qres list \<Rightarrow> 'a list" where
  "taken_in (Enq x # ops) (Accepted True # rs) = x # taken_in ops rs"
| "taken_in (_ # ops) (_ # rs) = taken_in ops rs"
| "taken_in _ _ = []"

fun handed_out :: "'a qres list \<Rightarrow> 'a list" where
  "handed_out (Got (Some x) # rs) = x # handed_out rs"
| "handed_out (_ # rs) = handed_out rs"
| "handed_out [] = []"

lemma fifo_step_capacity: "fst (snd (fifo_step x s)) = fst s"
  by (cases "(x, s)" rule: fifo_step.cases) auto

lemma run_spec_fifo_capacity: "fst (snd (run_spec fifo_step ops a)) = fst a"
proof (induction ops arbitrary: a)
  case (Cons x ops)
  then show ?case using fifo_step_capacity [of x a] by (simp add: split_beta)
qed simp

lemma fifo_spec_order:
  "run_spec fifo_step ops (c, xs) = (rs, (c', ys)) \<Longrightarrow> xs @ taken_in ops rs = handed_out rs @ ys"
proof (induction ops arbitrary: xs rs)
  case Nil
  then show ?case by simp
next
  case (Cons x ops)
  show ?case
  proof (cases x)
    case (Enq a)
    with Cons.prems Cons.IH [of "xs @ [a]"] Cons.IH [of xs] show ?thesis
      by (auto simp: Let_def split: if_splits prod.splits)
  next
    case Deq
    with Cons.prems Cons.IH show ?thesis
      by (cases xs) (fastforce simp: Let_def split: prod.splits)+
  qed
qed

locale bounded_fifo =
  data_refinement apply_op fifo_step abst ok
  for apply_op :: "'a qop \<Rightarrow> 'c \<Rightarrow> ('a qres \<times> 'c) option"
    and abst :: "'c \<Rightarrow> nat \<times> 'a list"
    and ok :: "nat \<Rightarrow> 'c \<Rightarrow> bool" +
  assumes bounded: "ok k c \<Longrightarrow> length (snd (abst c)) \<le> fst (abst c)"
begin

lemma fifo_order:
  assumes "ok (length ops) c" "run_ops apply_op ops c = Some (rs, c')"
  shows "snd (abst c) @ taken_in ops rs = handed_out rs @ snd (abst c')"
proof -
  have "run_spec fifo_step ops (fst (abst c), snd (abst c)) = (rs, (fst (abst c'), snd (abst c')))"
    using run_simulation [of ops 0 c] assms by auto
  then show ?thesis by (rule fifo_spec_order)
qed

lemma run_bounded:
  assumes "ok (length ops) c" "run_ops apply_op ops c = Some (rs, c')"
  shows "length (snd (abst c')) \<le> fst (abst c')"
  using bounded [of 0] run_ok [of ops 0 c rs c'] assms by simp

end

section \<open>Work-stealing deques\<close>

datatype 'a dop = Push 'a | Pop | Steal
datatype 'a dres = Pushed bool | Taken "'a option"

text \<open>
  The specification: the owner pushes and pops at the back, thieves steal at the front. The
  capacity is \<open>Some c\<close> for a deque that rejects when full and \<open>None\<close> for one that grows.
\<close>

fun deque_step :: "'a dop \<Rightarrow> nat option \<times> 'a list \<Rightarrow> 'a dres \<times> (nat option \<times> 'a list)" where
  "deque_step (Push x) (c, xs) =
     (if (case c of None \<Rightarrow> True | Some k \<Rightarrow> length xs < k)
      then (Pushed True, (c, xs @ [x])) else (Pushed False, (c, xs)))"
| "deque_step Pop (c, xs) =
     (if xs = [] then (Taken None, (c, [])) else (Taken (Some (last xs)), (c, butlast xs)))"
| "deque_step Steal (c, xs) =
     (if xs = [] then (Taken None, (c, [])) else (Taken (Some (hd xs)), (c, tl xs)))"

fun pushed_in :: "'a dop list \<Rightarrow> 'a dres list \<Rightarrow> 'a multiset" where
  "pushed_in (Push x # ops) (Pushed True # rs) = add_mset x (pushed_in ops rs)"
| "pushed_in (_ # ops) (_ # rs) = pushed_in ops rs"
| "pushed_in _ _ = {#}"

fun taken_out :: "'a dres list \<Rightarrow> 'a multiset" where
  "taken_out (Taken (Some x) # rs) = add_mset x (taken_out rs)"
| "taken_out (_ # rs) = taken_out rs"
| "taken_out [] = {#}"

lemma mset_last_butlast: "xs \<noteq> [] \<Longrightarrow> add_mset (last xs) (mset (butlast xs)) = mset xs"
  by (metis append_butlast_last_id mset_append mset.simps add_mset_add_single)

lemma mset_hd_tl: "xs \<noteq> [] \<Longrightarrow> add_mset (hd xs) (mset (tl xs)) = mset xs"
  by (cases xs) auto

lemma deque_step_conserves:
  assumes "deque_step x (c, xs) = (r, (c', ys))"
  shows "c' = c" "mset xs + pushed_in [x] [r] = taken_out [r] + mset ys"
  using assms by (cases x; auto simp: mset_last_butlast mset_hd_tl split: if_splits option.splits)+

lemma pushed_in_Cons: "pushed_in (x # ops) (r # rs) = pushed_in [x] [r] + pushed_in ops rs"
  by (cases "(x # ops, r # rs)" rule: pushed_in.cases) auto

lemma taken_out_Cons: "taken_out (r # rs) = taken_out [r] + taken_out rs"
  by (cases "r # rs" rule: taken_out.cases) auto

lemma deque_spec_conserves:
  "run_spec deque_step ops (c, xs) = (rs, (c', ys)) \<Longrightarrow>
    mset xs + pushed_in ops rs = taken_out rs + mset ys"
proof (induction ops arbitrary: xs rs)
  case Nil
  then show ?case by simp
next
  case (Cons x ops)
  obtain r zs where st: "deque_step x (c, xs) = (r, (c, zs))"
    using deque_step_conserves(1) by (metis prod.collapse)
  then obtain qs where qs: "run_spec deque_step ops (c, zs) = (qs, (c', ys))" "rs = r # qs"
    using Cons.prems by (auto simp: Let_def split: prod.splits)
  have "mset xs + (pushed_in [x] [r] + pushed_in ops qs) = taken_out [r] + (mset zs + pushed_in ops qs)"
    using deque_step_conserves(2) [OF st] by (simp add: add.assoc [symmetric])
  then show ?case
    using Cons.IH [OF qs(1)] qs(2) pushed_in_Cons [of x ops r qs] taken_out_Cons [of r qs]
    by (simp add: add.assoc)
qed

locale stealing_deque =
  data_refinement apply_op deque_step abst ok
  for apply_op :: "'a dop \<Rightarrow> 'c \<Rightarrow> ('a dres \<times> 'c) option"
    and abst :: "'c \<Rightarrow> nat option \<times> 'a list"
    and ok :: "nat \<Rightarrow> 'c \<Rightarrow> bool"
begin

lemma deque_conserves:
  assumes "ok (length ops) c" "run_ops apply_op ops c = Some (rs, c')"
  shows "mset (snd (abst c)) + pushed_in ops rs = taken_out rs + mset (snd (abst c'))"
proof -
  have "run_spec deque_step ops (fst (abst c), snd (abst c)) = (rs, (fst (abst c'), snd (abst c')))"
    using run_simulation [of ops 0 c] assms by auto
  then show ?thesis by (rule deque_spec_conserves)
qed

end

end
