(* ===== verification/Ring_Buffer.thy ===== *)
theory Ring_Buffer
  imports Next_Power_Of_Two Interfaces
begin

text \<open>
  \<open>include/RingBuffer.h\<close>: the bounded FIFO over \<open>std::vector<std::optional<T>>\<close> that
  \<open>ThreadPool\<close> keeps its tasks in. \<open>push\<close> and \<open>pop\<close> return the new ring next to what the C++
  functions return; the out-parameter of \<open>pop\<close> is \<open>None\<close> when it is not written.
\<close>

section \<open>State and operations\<close>

record 'a ring =
  rb_buffer :: "'a option list"
  rb_head :: size_t
  rb_tail :: size_t
  rb_capacity :: size_t
  rb_size :: size_t

definition rb_new :: "size_t \<Rightarrow> exn + 'a ring" where
  "rb_new capacity =
     (case nextPowerOfTwoChecked capacity of
        Inl e \<Rightarrow> Inl e
      | Inr c \<Rightarrow> Inr \<lparr>rb_buffer = replicate (unat c) None, rb_head = 0, rb_tail = 0,
                     rb_capacity = c, rb_size = 0\<rparr>)"

definition rb_empty :: "'a ring \<Rightarrow> bool" where
  "rb_empty r \<longleftrightarrow> rb_size r = 0"

definition rb_full :: "'a ring \<Rightarrow> bool" where
  "rb_full r \<longleftrightarrow> rb_size r = rb_capacity r"

definition rb_push :: "'a \<Rightarrow> 'a ring \<Rightarrow> bool \<times> 'a ring" where
  "rb_push item r =
     (if rb_full r then (False, r)
      else (True, r\<lparr>rb_buffer := (rb_buffer r)[unat (rb_tail r) := Some item],
                   rb_tail := (rb_tail r + 1) AND (rb_capacity r - 1),
                   rb_size := rb_size r + 1\<rparr>))"

text \<open>\<open>buffer_[head].value()\<close> throws \<open>std::bad_optional_access\<close> on an empty slot.\<close>

definition rb_pop :: "'a ring \<Rightarrow> exn + ('a option \<times> 'a ring)" where
  "rb_pop r =
     (if rb_empty r then Inr (None, r)
      else (case rb_buffer r ! unat (rb_head r) of
              None \<Rightarrow> Inl Bad_optional_access
            | Some v \<Rightarrow>
                Inr (Some v, r\<lparr>rb_buffer := (rb_buffer r)[unat (rb_head r) := None],
                               rb_head := (rb_head r + 1) AND (rb_capacity r - 1),
                               rb_size := rb_size r - 1\<rparr>)))"

section \<open>Contents and invariant\<close>

definition rb_list :: "'a ring \<Rightarrow> 'a list" where
  "rb_list r = map the (take (unat (rb_size r)) (ring_view (rb_buffer r) (rb_capacity r - 1) (rb_head r)))"

text \<open>
  The capacity is a power of two, the indices are masked, \<open>tail\<close> is \<open>size\<close> slots after
  \<open>head\<close>, the live slots hold values and every other slot has been reset.
\<close>

definition rb_ok :: "'a ring \<Rightarrow> bool" where
  "rb_ok r \<longleftrightarrow>
     is_cap (rb_capacity r) \<and> length (rb_buffer r) = unat (rb_capacity r) \<and>
     rb_head r AND (rb_capacity r - 1) = rb_head r \<and>
     rb_tail r = (rb_head r + rb_size r) AND (rb_capacity r - 1) \<and>
     unat (rb_size r) \<le> unat (rb_capacity r) \<and>
     ring_view (rb_buffer r) (rb_capacity r - 1) (rb_head r) =
       map Some (rb_list r) @ replicate (unat (rb_capacity r) - unat (rb_size r)) None"

lemma rb_list_length: "rb_ok r \<Longrightarrow> length (rb_list r) = unat (rb_size r)"
  by (simp add: rb_ok_def rb_list_def)

lemma rb_list_unique:
  assumes "length (rb_buffer r) = unat (rb_capacity r)" "length xs = unat (rb_size r)"
    and "ring_view (rb_buffer r) (rb_capacity r - 1) (rb_head r) =
       map Some xs @ replicate (unat (rb_capacity r) - unat (rb_size r)) None"
  shows "rb_list r = xs"
  using assms by (simp add: rb_list_def take_map comp_def)

lemma rb_new_ok:
  assumes "rb_new n = Inr r"
  shows "rb_ok r" "rb_list r = []" "unat n \<le> unat (rb_capacity r)"
proof -
  obtain c where c: "nextPowerOfTwoChecked n = Inr c"
    and r: "r = \<lparr>rb_buffer = replicate (unat c) None, rb_head = 0, rb_tail = 0,
                 rb_capacity = c, rb_size = 0\<rparr>"
    using assms by (auto simp: rb_new_def split: sum.splits)
  note cap = checked_is_cap [OF c]
  have "ring_view (replicate (unat c) (None :: 'a option)) (c - 1) 0 = replicate (unat c) None"
    by (rule nth_equalityI) (simp_all add: ring_view_def window_nth slot_lt [OF cap(1)])
  then show "rb_ok r" "rb_list r = []" "unat n \<le> unat (rb_capacity r)"
    using cap by (simp_all add: r rb_ok_def rb_list_def)
qed

lemma rb_new_total: "unat n \<le> 2 ^ 63 \<Longrightarrow> \<exists>r. rb_new n = Inr r"
  using checked_total [of n] by (auto simp: rb_new_def)

lemma rb_empty_list: "rb_ok r \<Longrightarrow> rb_empty r \<longleftrightarrow> rb_list r = []"
  using rb_list_length [of r] by (auto simp: rb_empty_def unat_0_iff)

lemma rb_full_list: "rb_ok r \<Longrightarrow> rb_full r \<longleftrightarrow> length (rb_list r) = unat (rb_capacity r)"
  by (simp add: rb_list_length rb_full_def unsigned_word_eqI word_unat_eq_iff)

lemma rb_push_full: "rb_full r \<Longrightarrow> rb_push x r = (False, r)"
  by (simp add: rb_push_def)

lemma replicate_update_append:
  "n = length xs \<Longrightarrow> k = Suc j \<Longrightarrow> (xs @ replicate k a)[n := b] = (xs @ [b]) @ replicate j a"
  by (simp add: list_update_append)

lemma rb_push_room:
  assumes ok: "rb_ok r" and room: "\<not> rb_full r"
  shows "\<exists>r'. rb_push x r = (True, r') \<and> rb_ok r' \<and> rb_list r' = rb_list r @ [x] \<and>
    rb_capacity r' = rb_capacity r"
proof -
  let ?c = "rb_capacity r" and ?h = "rb_head r" and ?n = "unat (rb_size r)" and ?b = "rb_buffer r"
  let ?r = "r\<lparr>rb_buffer := ?b[unat (rb_tail r) := Some x], rb_tail := (rb_tail r + 1) AND (?c - 1),
              rb_size := rb_size r + 1\<rparr>"
  note o = ok [unfolded rb_ok_def]
  have cap: "is_cap ?c" and len: "length ?b = unat ?c" using o by simp_all
  have lt: "?n < unat ?c" using o room by (auto simp: rb_full_def word_unat_eq_iff)
  have n1: "unat (rb_size r + 1) = Suc ?n"
    using lt is_cap_le [OF cap] by (simp add: unat_plus_1)
  have idx: "unat (rb_tail r) = slot (?c - 1) (?h + of_nat ?n)"
    using o by (simp add: slot_def)
  have view: "ring_view (rb_buffer ?r) (rb_capacity ?r - 1) (rb_head ?r) =
      map Some (rb_list r @ [x]) @ replicate (unat ?c - unat (rb_size ?r)) None"
  proof -
    have "ring_view (rb_buffer ?r) (?c - 1) ?h = (ring_view ?b (?c - 1) ?h)[?n := Some x]"
      using ring_view_update [OF cap len lt, of ?h "Some x"] by (simp add: idx)
    also have "\<dots> = (map Some (rb_list r) @ [Some x]) @ replicate (unat ?c - Suc ?n) None"
      using o lt rb_list_length [OF ok] by (simp only: replicate_update_append length_map Suc_diff_Suc)
    finally show ?thesis by (simp add: n1)
  qed
  have l: "rb_list ?r = rb_list r @ [x]"
    by (rule rb_list_unique) (use len rb_list_length [OF ok] n1 view in simp_all)
  have "rb_ok ?r"
    unfolding rb_ok_def l using view o cap lt n1
    by (simp add: and_masked [OF cap] add.assoc)
  then show ?thesis using room l by (simp add: rb_push_def)
qed

lemma rb_pop_empty: "rb_empty r \<Longrightarrow> rb_pop r = Inr (None, r)"
  by (simp add: rb_pop_def)

lemma rb_pop_some:
  assumes ok: "rb_ok r" and ne: "rb_list r = y # ys"
  shows "\<exists>r'. rb_pop r = Inr (Some y, r') \<and> rb_ok r' \<and> rb_list r' = ys \<and>
    rb_capacity r' = rb_capacity r"
proof -
  let ?c = "rb_capacity r" and ?h = "rb_head r" and ?b = "rb_buffer r"
  let ?r = "r\<lparr>rb_buffer := ?b[unat ?h := None], rb_head := (?h + 1) AND (?c - 1),
              rb_size := rb_size r - 1\<rparr>"
  note o = ok [unfolded rb_ok_def]
  have cap: "is_cap ?c" and len: "length ?b = unat ?c" and pos: "0 < unat ?c"
    using o is_cap_nonzero by auto
  have n: "unat (rb_size r) = Suc (length ys)" using rb_list_length [OF ok] ne by simp
  then have n1: "unat (rb_size r - 1) = length ys" by (simp add: unat_minus_1)
  have idx: "unat ?h = slot (?c - 1) (?h + of_nat 0)"
    using o by (simp add: slot_def)
  have v: "ring_view ?b (?c - 1) ?h =
      Some y # map Some ys @ replicate (unat ?c - unat (rb_size r)) None"
    using o ne by simp
  have hd: "?b ! unat ?h = Some y"
    using ring_view_nth [of 0 ?b "?c - 1" ?h] v len pos by (simp add: idx)
  have view: "ring_view (rb_buffer ?r) (rb_capacity ?r - 1) (rb_head ?r) =
      map Some ys @ replicate (unat ?c - unat (rb_size ?r)) None"
  proof -
    have "ring_view (rb_buffer ?r) (?c - 1) (rb_head ?r) =
        rotate1 (ring_view (?b[slot (?c - 1) (?h + of_nat 0) := None]) (?c - 1) ?h)"
      using cap len by (simp add: ring_view_masked ring_view_rotate idx)
    also have "\<dots> = rotate1 (None # map Some ys @ replicate (unat ?c - unat (rb_size r)) None)"
      by (simp only: ring_view_update [OF cap len pos] v list_update_code)
    also have "\<dots> = map Some ys @ replicate (Suc (unat ?c - unat (rb_size r))) None"
      by (simp add: replicate_append_same)
    finally have "ring_view (rb_buffer ?r) (?c - 1) (rb_head ?r) =
        map Some ys @ replicate (Suc (unat ?c - unat (rb_size r))) None" .
    moreover have "unat ?c - length ys = Suc (unat ?c - unat (rb_size r))" using o n by linarith
    ultimately show ?thesis using n1 by simp
  qed
  have l: "rb_list ?r = ys"
    by (rule rb_list_unique) (use len n1 view in simp_all)
  have "rb_ok ?r"
    unfolding rb_ok_def l using view o cap n n1
    by (simp add: and_masked [OF cap] and.assoc)
  then show ?thesis using hd n l by (simp add: rb_pop_def rb_empty_def unat_0_iff [symmetric])
qed

section \<open>The bounded FIFO contract\<close>

fun rb_apply :: "'a qop \<Rightarrow> 'a ring \<Rightarrow> ('a qres \<times> 'a ring) option" where
  "rb_apply (Enq x) r = (case rb_push x r of (b, r') \<Rightarrow> Some (Accepted b, r'))"
| "rb_apply Deq r = (case rb_pop r of Inl e \<Rightarrow> None | Inr (v, r') \<Rightarrow> Some (Got v, r'))"

definition rb_abs :: "'a ring \<Rightarrow> nat \<times> 'a list" where
  "rb_abs r = (unat (rb_capacity r), rb_list r)"

lemma rb_simulation:
  assumes "rb_ok r"
  shows "\<exists>r'. rb_apply x r = Some (fst (fifo_step x (rb_abs r)), r') \<and>
    rb_abs r' = snd (fifo_step x (rb_abs r)) \<and> rb_ok r'"
proof (cases x)
  case (Enq a)
  have "length (rb_list r) \<le> unat (rb_capacity r)"
    using assms rb_list_length [OF assms] by (simp add: rb_ok_def)
  then show ?thesis
    using rb_push_room [OF assms, of a] rb_full_list [OF assms] assms
    by (cases "rb_full r") (auto simp: Enq rb_abs_def rb_push_full)
next
  case Deq
  then show ?thesis
    using rb_empty_list [OF assms] rb_pop_some [OF assms] assms
    by (cases "rb_list r") (auto simp: rb_abs_def rb_pop_empty)
qed

interpretation rb: bounded_fifo rb_apply rb_abs "\<lambda>_. rb_ok"
proof
  fix r :: "'a ring" and x
  assume "rb_ok r"
  then show "\<exists>r'. rb_apply x r = Some (fst (fifo_step x (rb_abs r)), r') \<and>
      rb_abs r' = snd (fifo_step x (rb_abs r)) \<and> rb_ok r'"
    by (rule rb_simulation)
next
  fix r :: "'a ring"
  assume "rb_ok r"
  then show "length (snd (rb_abs r)) \<le> fst (rb_abs r)"
    using rb_list_length [of r] by (simp add: rb_abs_def rb_ok_def)
qed

lemma rb_abs_new: "rb_new n = Inr r \<Longrightarrow> rb_abs r = (unat (rb_capacity r), [])"
  by (simp add: rb_abs_def rb_new_ok(2))

lemma rb_occupied:
  assumes "rb_ok r"
  shows "length (filter (\<lambda>s. s \<noteq> None) (rb_buffer r)) = unat (rb_size r)"
proof -
  note o = assms [unfolded rb_ok_def]
  have "length (filter (\<lambda>s. s \<noteq> None) (rb_buffer r)) =
      size (filter_mset (\<lambda>s. s \<noteq> None) (mset (rb_buffer r)))"
    by (metis mset_filter size_mset)
  also have "mset (rb_buffer r) =
      mset (map Some (rb_list r) @ replicate (unat (rb_capacity r) - unat (rb_size r)) None)"
    using o ring_view_mset [of "rb_capacity r" "rb_buffer r" "rb_head r"] by simp
  also have "size (filter_mset (\<lambda>s. s \<noteq> None) \<dots>) = unat (rb_size r)"
    using rb_list_length [OF assms] by (simp flip: mset_filter add: filter_map comp_def del: mset_append)
  finally show ?thesis .
qed

section \<open>Properties\<close>

text \<open>C2: a new \<open>RingBuffer\<close> of requested capacity \<open>n\<close> answers every sequence of \<open>push\<close> and
  \<open>pop\<close> calls exactly as a FIFO queue of some capacity at least \<open>n\<close> does: it rejects when and
  only when full, hands out in insertion order, and \<open>pop\<close> never reads an empty slot.\<close>

theorem ring_buffer_is_bounded_fifo:
  assumes "rb_new n = Inr r"
  shows "unat n \<le> unat (rb_capacity r) \<and>
    map_option fst (run_ops rb_apply ops r) = Some (fst (run_spec fifo_step ops (unat (rb_capacity r), [])))"
  using rb.run_results [OF rb_new_ok(1) [OF assms], of ops] rb_new_ok(3) [OF assms]
  by (simp add: rb_abs_new [OF assms])

theorem ring_buffer_is_bounded_fifo_witness:
  "\<exists>r. rb_new 3 = Inr r \<and> map_option fst (run_ops rb_apply [Enq (1::nat), Enq 2, Deq, Deq, Deq] r) =
     Some [Accepted True, Accepted True, Got (Some 1), Got (Some 2), Got None]"
proof -
  obtain r :: "nat ring" where r: "rb_new 3 = Inr r" using rb_new_total [of 3] by auto
  have "nextPowerOfTwoChecked 3 = Inr 4" by code_simp
  then have "unat (rb_capacity r) = 4" using r by (auto simp: rb_new_def)
  then show ?thesis
    using ring_buffer_is_bounded_fifo [OF r, of "[Enq 1, Enq 2, Deq, Deq, Deq]"] r by auto
qed

text \<open>Over any run of a new ring the accepted elements are, in order, those handed out followed
  by those still inside; the ring never holds more than its capacity, and every slot that is not
  live has been reset, so no stale element outlives its \<open>pop\<close>.\<close>

theorem ring_buffer_conserves:
  assumes "rb_new n = Inr r" and "run_ops rb_apply ops r = Some (rs, r')"
  shows "taken_in ops rs = handed_out rs @ rb_list r' \<and>
    length (filter (\<lambda>s. s \<noteq> None) (rb_buffer r')) = length (rb_list r') \<and>
    length (rb_list r') \<le> unat (rb_capacity r')"
proof -
  note ok = rb_new_ok(1) [OF assms(1)]
  have ok': "rb_ok r'" using rb.run_ok [OF ok assms(2)] .
  then show ?thesis
    using rb.fifo_order [OF ok assms(2)] rb_new_ok(2) [OF assms(1)] rb_occupied [OF ok']
      rb.run_bounded [OF ok assms(2)] rb_list_length [OF ok']
    by (simp add: rb_abs_def)
qed

theorem ring_buffer_conserves_witness:
  "\<exists>r rs r'. rb_new 2 = Inr r \<and> run_ops rb_apply [Enq (7::nat), Enq 8, Enq 9, Deq] r = Some (rs, r') \<and>
     length (filter (\<lambda>s. s \<noteq> None) (rb_buffer r')) = length (rb_list r')"
proof -
  obtain r :: "nat ring" where r: "rb_new 2 = Inr r" using rb_new_total [of 2] by auto
  obtain rs r' where run: "run_ops rb_apply [Enq 7, Enq 8, Enq 9, Deq] r = Some (rs, r')"
    using rb.run_simulation [OF rb_new_ok(1) [OF r]] by blast
  then show ?thesis using ring_buffer_conserves [OF r run] r by blast
qed

lemma rb_masked_lt: "is_cap c \<Longrightarrow> i AND (c - 1) = i \<Longrightarrow> i < c"
  using slot_lt [of c i] by (simp add: slot_def word_less_nat_alt)

lemma rb_ok_slots:
  assumes ok: "rb_ok r" and i: "i < unat (rb_capacity r)"
  shows "rb_buffer r ! slot (rb_capacity r - 1) (rb_head r + of_nat i) \<noteq> None \<longleftrightarrow> i < unat (rb_size r)"
proof -
  note o = ok [unfolded rb_ok_def]
  have "rb_buffer r ! slot (rb_capacity r - 1) (rb_head r + of_nat i) =
      (map Some (rb_list r) @ replicate (unat (rb_capacity r) - unat (rb_size r)) None) ! i"
    using ring_view_nth [of i "rb_buffer r" "rb_capacity r - 1" "rb_head r"] o i by simp
  then show ?thesis using rb_list_length [OF ok] i by (simp add: nth_append)
qed

text \<open>C3: the class invariant of \<open>RingBuffer\<close>: whatever is called on a new ring, its capacity stays the power of two it
  had, the vector has that length, \<open>head\<close> and \<open>tail\<close> are indices into it, \<open>size\<close> is at most the capacity and
  the distance from \<open>head\<close> to \<open>tail\<close>, and the slots that hold a value are exactly the \<open>size\<close> slots from \<open>head\<close> on.\<close>

theorem ring_buffer_class_invariant:
  assumes "rb_new n = Inr r" and "run_ops rb_apply ops r = Some (rs, r')"
  shows "is_cap (rb_capacity r') \<and> rb_capacity r' = rb_capacity r \<and> length (rb_buffer r') = unat (rb_capacity r') \<and>
    rb_head r' < rb_capacity r' \<and> rb_tail r' < rb_capacity r' \<and> rb_size r' \<le> rb_capacity r' \<and>
    rb_tail r' = (rb_head r' + rb_size r') AND (rb_capacity r' - 1) \<and>
    (\<forall>i<unat (rb_capacity r').
      rb_buffer r' ! slot (rb_capacity r' - 1) (rb_head r' + of_nat i) \<noteq> None \<longleftrightarrow> i < unat (rb_size r'))"
proof -
  note ok = rb_new_ok(1) [OF assms(1)]
  have ok': "rb_ok r'" using rb.run_ok [OF ok assms(2)] .
  note o = ok' [unfolded rb_ok_def]
  have "rb_abs r' = snd (run_spec fifo_step ops (rb_abs r))"
    using rb.run_simulation [OF ok, of ops] assms(2) by auto
  then have "fst (rb_abs r') = fst (rb_abs r)" using run_spec_fifo_capacity [of ops "rb_abs r"] by simp
  then have "rb_capacity r' = rb_capacity r" by (simp add: rb_abs_def word_unat_eq_iff)
  moreover have "rb_tail r' AND (rb_capacity r' - 1) = rb_tail r'" using o by (simp add: and.assoc)
  then have "rb_tail r' < rb_capacity r'" using rb_masked_lt o by blast
  ultimately show ?thesis using o rb_masked_lt rb_ok_slots [OF ok'] by (simp add: word_le_nat_alt)
qed

theorem ring_buffer_class_invariant_witness:
  "\<exists>r rs r'. rb_new 3 = Inr r \<and> run_ops rb_apply [Enq (7::nat), Enq 8, Deq, Enq 9, Enq 1, Enq 2] r = Some (rs, r') \<and>
     rb_tail r' < rb_capacity r' \<and> rb_capacity r' = rb_capacity r"
proof -
  obtain r :: "nat ring" where r: "rb_new 3 = Inr r" using rb_new_total [of 3] by auto
  obtain rs r' where run: "run_ops rb_apply [Enq 7, Enq 8, Deq, Enq 9, Enq 1, Enq 2] r = Some (rs, r')"
    using rb.run_simulation [OF rb_new_ok(1) [OF r]] by blast
  then show ?thesis using ring_buffer_class_invariant [OF r run] r by blast
qed

end
