(* ===== verification/Mutex_Guard.thy ===== *)
theory Mutex_Guard
  imports Interfaces
begin

text \<open>
  Objects whose every operation runs under \<open>std::lock_guard<std::mutex>\<close>
  (\<open>LockedRingBuffer\<close>, \<open>MemoryPool\<close>). Any number of threads call operations; the body of an
  operation is not atomic: it reads the object, and writes the result of its computation back in
  a later step. The object, the operations and the body function are parameters; the components
  instantiate them with their own model.
\<close>

section \<open>Threads, the mutex, and the steps\<close>

datatype ('op, 'r, 's) guard_pc =
    Outside
  | At_lock 'op
  | Inside 'op
  | In_body 'op 's
  | At_unlock 'r

record ('op, 'r, 's) guarded =
  g_object :: 's
  g_mutex :: "nat option"
  g_pc :: "nat \<Rightarrow> ('op, 'r, 's) guard_pc"
  g_log :: "('op \<times> 'r) list"

definition guarded_init :: "'s \<Rightarrow> ('op, 'r, 's) guarded \<Rightarrow> bool" where
  "guarded_init s0 g \<longleftrightarrow> g = \<lparr>g_object = s0, g_mutex = None, g_pc = (\<lambda>_. Outside), g_log = []\<rparr>"

text \<open>\<open>g_log\<close> records the completed operations with their results; no step reads it.\<close>

inductive guarded_step ::
  "('op \<Rightarrow> 's \<Rightarrow> 'r \<times> 's) \<Rightarrow> ('op, 'r, 's) guarded \<Rightarrow> ('op, 'r, 's) guarded \<Rightarrow> bool"
  for f :: "'op \<Rightarrow> 's \<Rightarrow> 'r \<times> 's" where
  call: "g_pc g t = Outside \<Longrightarrow> guarded_step f g (g\<lparr>g_pc := (g_pc g)(t := At_lock x)\<rparr>)"
| lock: "g_pc g t = At_lock x \<Longrightarrow> g_mutex g = None \<Longrightarrow>
    guarded_step f g (g\<lparr>g_mutex := Some t, g_pc := (g_pc g)(t := Inside x)\<rparr>)"
| body_read: "g_pc g t = Inside x \<Longrightarrow>
    guarded_step f g (g\<lparr>g_pc := (g_pc g)(t := In_body x (g_object g))\<rparr>)"
| body_write: "g_pc g t = In_body x s \<Longrightarrow> f x s = (r, s') \<Longrightarrow>
    guarded_step f g (g\<lparr>g_object := s', g_pc := (g_pc g)(t := At_unlock r), g_log := g_log g @ [(x, r)]\<rparr>)"
| unlock: "g_pc g t = At_unlock r \<Longrightarrow>
    guarded_step f g (g\<lparr>g_mutex := None, g_pc := (g_pc g)(t := Outside)\<rparr>)"

inductive_cases guarded_stepE: "guarded_step f g g'"

section \<open>Mutual exclusion and the sequential explanation\<close>

fun holds_lock :: "('op, 'r, 's) guard_pc \<Rightarrow> bool" where
  "holds_lock (Inside _) = True"
| "holds_lock (In_body _ _) = True"
| "holds_lock (At_unlock _) = True"
| "holds_lock _ = False"

definition guarded_inv ::
  "('op \<Rightarrow> 's \<Rightarrow> 'r \<times> 's) \<Rightarrow> 's \<Rightarrow> ('op, 'r, 's) guarded \<Rightarrow> bool" where
  "guarded_inv f s0 g \<longleftrightarrow>
     (\<forall>t. holds_lock (g_pc g t) \<longleftrightarrow> g_mutex g = Some t) \<and>
     (\<forall>t x s. g_pc g t = In_body x s \<longrightarrow> s = g_object g) \<and>
     run_spec f (map fst (g_log g)) s0 = (map snd (g_log g), g_object g)"

lemma guarded_inv_init: "guarded_init s0 g \<Longrightarrow> guarded_inv f s0 g"
  by (simp add: guarded_init_def guarded_inv_def)

lemma guarded_invD:
  assumes "guarded_inv f s0 g"
  shows "holds_lock (g_pc g t) \<longleftrightarrow> g_mutex g = Some t"
    "g_pc g t = In_body x s \<Longrightarrow> s = g_object g"
    "run_spec f (map fst (g_log g)) s0 = (map snd (g_log g), g_object g)"
  using assms by (auto simp: guarded_inv_def)

lemma guarded_inv_step:
  assumes inv: "guarded_inv f s0 g" and step: "guarded_step f g g'"
  shows "guarded_inv f s0 g'"
  using step
proof cases
  case (call t x)
  then show ?thesis
    using guarded_invD(1) [OF inv, of t] inv by (auto simp: guarded_inv_def)
next
  case (lock t x)
  then show ?thesis using inv by (auto simp: guarded_inv_def)
next
  case (body_read t x)
  then show ?thesis
    using guarded_invD(1) [OF inv, of t] inv by (auto simp: guarded_inv_def)
next
  case (body_write t x s r s')
  then have s: "s = g_object g" and own: "g_mutex g = Some t"
    using guarded_invD [OF inv] by (auto simp flip: guarded_invD(1) [OF inv])
  have other: "g_pc g u \<noteq> In_body y s''" if "u \<noteq> t" for u y s''
    using guarded_invD(1) [OF inv, of u] own that by auto
  have "run_spec f (map fst (g_log g) @ [x]) s0 = (map snd (g_log g) @ [r], s')"
    by (rule run_spec_snoc [OF guarded_invD(3) [OF inv]]) (use body_write s in simp)
  then show ?thesis
    using guarded_invD(1) [OF inv] other body_write own by (auto simp: guarded_inv_def)
next
  case (unlock t r)
  then show ?thesis
    using guarded_invD(1) [OF inv, of t] inv by (auto simp: guarded_inv_def)
qed

interpretation guarded: inductive_invariant "guarded_init s0" "guarded_step f" "guarded_inv f s0" for f s0
  by unfold_locales (auto intro: guarded_inv_init guarded_inv_step)

lemma guarded_exclusion:
  "reach (guarded_init s0) (guarded_step f) g \<Longrightarrow>
    holds_lock (g_pc g t) \<Longrightarrow> holds_lock (g_pc g u) \<Longrightarrow> t = u"
  using guarded.inv_reach [of s0 f g] by (auto simp: guarded_inv_def)

lemma guarded_sequential:
  "reach (guarded_init s0) (guarded_step f) g \<Longrightarrow>
    run_spec f (map fst (g_log g)) s0 = (map snd (g_log g), g_object g)"
  using guarded.inv_reach [of s0 f g] by (auto simp: guarded_inv_def)

text \<open>A guarded object is atomic: the operation that takes effect in a step is the one it logs.\<close>

definition guarded_effect :: "('op, 'r, 's) guarded \<Rightarrow> ('op, 'r, 's) guarded \<Rightarrow> ('op \<times> 'r) option" where
  "guarded_effect g g' = (if length (g_log g') = length (g_log g) then None else Some (last (g_log g')))"

interpretation guarded: atomic_object "guarded_init s0" "guarded_step f" "guarded_inv f s0" g_object f guarded_effect
  for f :: "'op \<Rightarrow> 's \<Rightarrow> 'r \<times> 's" and s0
proof unfold_locales
  show "guarded_init s0 g \<Longrightarrow> guarded_inv f s0 g" for g :: "('op, 'r, 's) guarded" by (rule guarded_inv_init)
  show "guarded_inv f s0 g \<Longrightarrow> guarded_step f g h \<Longrightarrow> guarded_inv f s0 h" for g h by (rule guarded_inv_step)
  show "g_object h = g_object g" if "guarded_step f g h" "guarded_effect g h = None" for g h
    using that by cases (auto simp: guarded_effect_def)
  show "f x (g_object g) = (r, g_object h)"
    if "guarded_inv f s0 g" "guarded_step f g h" "guarded_effect g h = Some (x, r)" for g h x r
    using that(2) by cases (use that(1,3) in \<open>auto simp: guarded_effect_def guarded_inv_def\<close>)
qed

end
