(* ===== verification/Locked_Ring_Buffer.thy ===== *)
theory Locked_Ring_Buffer
  imports Ring_Buffer Mutex_Guard
begin

text \<open>
  \<open>include/LockedRingBuffer.h\<close>: a \<open>RingBuffer\<close> behind a mutex. Each member function takes a
  \<open>std::lock_guard\<close> and calls the member of the same name; the guard releases the mutex on every
  way out, an exception included. The threads and the mutex are those of \<open>Mutex_Guard\<close>.
\<close>

section \<open>Operations\<close>

datatype 'a lrb_op = L_push 'a | L_pop | L_empty | L_size
datatype 'a lrb_res = L_bool bool | L_popped "'a option" | L_count size_t | L_throws exn

text \<open>\<open>push\<close>, \<open>pop\<close>, \<open>empty\<close> and \<open>size\<close> between taking and releasing the lock.\<close>

fun lrb_body :: "'a lrb_op \<Rightarrow> 'a ring \<Rightarrow> 'a lrb_res \<times> 'a ring" where
  "lrb_body (L_push x) r = (case rb_push x r of (b, r') \<Rightarrow> (L_bool b, r'))"
| "lrb_body L_pop r =
     (case rb_pop r of Inl e \<Rightarrow> (L_throws e, r) | Inr (v, r') \<Rightarrow> (L_popped v, r'))"
| "lrb_body L_empty r = (L_bool (rb_empty r), r)"
| "lrb_body L_size r = (L_count (rb_size r), r)"

type_synonym 'a lrb = "('a lrb_op, 'a lrb_res, 'a ring) guarded"

definition lrb_init :: "size_t \<Rightarrow> 'a lrb \<Rightarrow> bool" where
  "lrb_init capacity g \<longleftrightarrow> (\<exists>r. rb_new capacity = Inr r \<and> guarded_init r g)"

definition lrb_step :: "'a lrb \<Rightarrow> 'a lrb \<Rightarrow> bool" where
  "lrb_step = guarded_step lrb_body"

lemma lrb_reach_guarded:
  "reach (lrb_init n) lrb_step g \<Longrightarrow>
    \<exists>r. rb_new n = Inr r \<and> reach (guarded_init r) (guarded_step lrb_body) g"
  by (induction rule: reach.induct) (auto simp: lrb_init_def lrb_step_def intro: reach.intros)

section \<open>Sequential runs of the body\<close>

text \<open>What the log says went in and came out.\<close>

fun lrb_in :: "('a lrb_op \<times> 'a lrb_res) list \<Rightarrow> 'a list" where
  "lrb_in ((L_push x, L_bool True) # l) = x # lrb_in l"
| "lrb_in (_ # l) = lrb_in l"
| "lrb_in [] = []"

fun lrb_out :: "('a lrb_op \<times> 'a lrb_res) list \<Rightarrow> 'a list" where
  "lrb_out ((L_pop, L_popped (Some x)) # l) = x # lrb_out l"
| "lrb_out (_ # l) = lrb_out l"
| "lrb_out [] = []"

lemma lrb_body_step:
  assumes "rb_ok r" "lrb_body x r = (y, r')"
  shows "rb_ok r'" "\<not> (\<exists>e. y = L_throws e)"
    "rb_list r @ lrb_in [(x, y)] = lrb_out [(x, y)] @ rb_list r'"
proof -
  have "rb_ok r' \<and> \<not> (\<exists>e. y = L_throws e) \<and> rb_list r @ lrb_in [(x, y)] = lrb_out [(x, y)] @ rb_list r'"
  proof (cases x)
    case (L_push a)
    then show ?thesis
      using assms rb_push_room [OF assms(1), of a]
      by (cases "rb_full r") (auto simp: rb_push_full)
  next
    case L_pop
    then show ?thesis
      using assms rb_pop_some [OF assms(1)] rb_empty_list [OF assms(1)]
      by (cases "rb_list r") (auto simp: rb_pop_empty)
  qed (use assms in auto)
  then show "rb_ok r'" "\<not> (\<exists>e. y = L_throws e)"
    "rb_list r @ lrb_in [(x, y)] = lrb_out [(x, y)] @ rb_list r'" by auto
qed

lemma lrb_in_Cons: "lrb_in (p # l) = lrb_in [p] @ lrb_in l"
  by (cases "p # l" rule: lrb_in.cases) auto

lemma lrb_out_Cons: "lrb_out (p # l) = lrb_out [p] @ lrb_out l"
  by (cases "p # l" rule: lrb_out.cases) auto

lemma lrb_run:
  assumes "rb_ok r" "run_spec lrb_body (map fst l) r = (map snd l, r')"
  shows "rb_ok r' \<and> (\<forall>p\<in>set l. \<not> (\<exists>e. snd p = L_throws e)) \<and>
    rb_list r @ lrb_in l = lrb_out l @ rb_list r'"
  using assms
proof (induction l arbitrary: r)
  case Nil
  then show ?case by simp
next
  case (Cons p l)
  obtain s where s: "lrb_body (fst p) r = (snd p, s)" "run_spec lrb_body (map fst l) s = (map snd l, r')"
    using Cons.prems(2) by (auto simp: Let_def split: prod.splits)
  note st = lrb_body_step [OF Cons.prems(1) s(1)]
  have "rb_list r @ (lrb_in [p] @ lrb_in l) = lrb_out [p] @ (rb_list s @ lrb_in l)"
    using st(3) by (simp flip: append_assoc)
  then show ?case
    using Cons.IH [OF st(1) s(2)] st(2) lrb_in_Cons [of p l] lrb_out_Cons [of p l] by simp
qed

section \<open>Properties\<close>

text \<open>C4: at most one thread is ever between taking and releasing the mutex, and whatever the
  interleaving, the results of all completed operations are those of running them one after
  the other, in the order in which they held the lock.\<close>

theorem locked_ring_buffer_linearizable:
  assumes "reach (lrb_init n) lrb_step g"
  shows "(\<forall>t u. holds_lock (g_pc g t) \<longrightarrow> holds_lock (g_pc g u) \<longrightarrow> t = u) \<and>
    (\<exists>r. rb_new n = Inr r \<and>
      run_spec lrb_body (map fst (g_log g)) r = (map snd (g_log g), g_object g))"
proof -
  obtain r where r: "rb_new n = Inr r" "reach (guarded_init r) (guarded_step lrb_body) g"
    using lrb_reach_guarded [OF assms] by blast
  show ?thesis
    using r(1) guarded_exclusion [OF r(2)] guarded_sequential [OF r(2)] by blast
qed

text \<open>The witnesses: one thread pushes into a ring of capacity 2.\<close>

lemma lrb_run_push:
  assumes r: "rb_new n = Inr r" and p: "rb_push x r = (b, r')"
  shows "\<exists>g. reach (lrb_init n) lrb_step g \<and> g_log g = [(L_push x, L_bool b)] \<and> g_object g = r'"
proof -
  let ?g0 = "\<lparr>g_object = r, g_mutex = None, g_pc = (\<lambda>_. Outside), g_log = []\<rparr> :: 'a lrb"
  let ?g1 = "?g0\<lparr>g_pc := (g_pc ?g0)(0 := At_lock (L_push x))\<rparr>"
  let ?g2 = "?g1\<lparr>g_mutex := Some 0, g_pc := (g_pc ?g1)(0 := Inside (L_push x))\<rparr>"
  let ?g3 = "?g2\<lparr>g_pc := (g_pc ?g2)(0 := In_body (L_push x) (g_object ?g2))\<rparr>"
  let ?g4 = "?g3\<lparr>g_object := r', g_pc := (g_pc ?g3)(0 := At_unlock (L_bool b)),
                 g_log := g_log ?g3 @ [(L_push x, L_bool b)]\<rparr>"
  have "reach (lrb_init n) lrb_step ?g0"
    by (rule reach_init) (simp add: lrb_init_def guarded_init_def r)
  then have "reach (lrb_init n) lrb_step ?g1"
    by (rule reach_step) (unfold lrb_step_def, rule guarded_step.call, simp)
  then have "reach (lrb_init n) lrb_step ?g2"
    by (rule reach_step) (unfold lrb_step_def, rule guarded_step.lock, simp_all)
  then have "reach (lrb_init n) lrb_step ?g3"
    by (rule reach_step) (unfold lrb_step_def, rule guarded_step.body_read, simp)
  then have "reach (lrb_init n) lrb_step ?g4"
    by (rule reach_step) (unfold lrb_step_def, rule guarded_step.body_write [where s = r], simp_all add: p)
  then show ?thesis by (rule exI [where x = ?g4, OF conjI]) simp
qed

text \<open>In every interleaving no operation of a \<open>LockedRingBuffer\<close> throws, and the accepted
  elements, in lock order, are the popped ones followed by the current contents.\<close>

theorem locked_ring_buffer_fifo:
  assumes "reach (lrb_init n) lrb_step g"
  shows "(\<forall>p\<in>set (g_log g). \<not> (\<exists>e. snd p = L_throws e)) \<and>
    lrb_in (g_log g) = lrb_out (g_log g) @ rb_list (g_object g)"
proof -
  obtain r where r: "rb_new n = Inr r" "reach (guarded_init r) (guarded_step lrb_body) g"
    using lrb_reach_guarded [OF assms] by blast
  show ?thesis
    using lrb_run [OF rb_new_ok(1) [OF r(1)] guarded_sequential [OF r(2)]] rb_new_ok(2) [OF r(1)]
    by simp
qed

theorem locked_ring_buffer_linearizable_witness:
  "\<exists>g :: nat lrb. reach (lrb_init 2) lrb_step g \<and> length (g_log g) = 1 \<and>
     (\<exists>r. rb_new 2 = Inr r \<and>
       run_spec lrb_body (map fst (g_log g)) r = (map snd (g_log g), g_object g))"
proof -
  obtain r :: "nat ring" where r: "rb_new 2 = Inr r" using rb_new_total [of 2] by auto
  obtain b r' where p: "rb_push 5 r = (b, r')" by fastforce
  obtain g :: "nat lrb" where g: "reach (lrb_init 2) lrb_step g" "g_log g = [(L_push 5, L_bool b)]"
    using lrb_run_push [OF r p] by blast
  then show ?thesis using locked_ring_buffer_linearizable [OF g(1)] by auto
qed

theorem locked_ring_buffer_fifo_witness:
  "\<exists>g :: nat lrb. reach (lrb_init 2) lrb_step g \<and> g_log g = [(L_push 5, L_bool True)] \<and>
     rb_list (g_object g) = [5]"
proof -
  obtain r :: "nat ring" where r: "rb_new 2 = Inr r" using rb_new_total [of 2] by auto
  have "\<not> rb_full r"
    using rb_new_ok [OF r] rb_full_list [of r] is_cap_nonzero [of "rb_capacity r"]
    by (auto simp: rb_ok_def)
  then obtain r' where p: "rb_push 5 r = (True, r')"
    using rb_push_room [OF rb_new_ok(1) [OF r], of 5] by blast
  obtain g :: "nat lrb" where g: "reach (lrb_init 2) lrb_step g" "g_log g = [(L_push 5, L_bool True)]"
    using lrb_run_push [OF r p] by blast
  then show ?thesis using locked_ring_buffer_fifo [OF g(1)] by auto
qed

end
