(* ===== verification/SPSC_Ring_Buffer.thy ===== *)
theory SPSC_Ring_Buffer
  imports Next_Power_Of_Two Interfaces
begin

text \<open>
  \<open>include/SPSCRingBuffer.h\<close>: the lock-free ring between one producer and one consumer thread.
  The two counters run freely and wrap around at \<open>2 ^ 64\<close>; only their difference and their low
  bits are used. The first part models every member function as a whole and proves the FIFO
  contract; the second lets a producer and a consumer run their functions concurrently, one
  atomic access at a time.
\<close>

section \<open>State and operations\<close>

record 'a spsc =
  sp_head :: size_t
  sp_tail :: size_t
  sp_buffer :: "'a option list"
  sp_mask :: size_t

text \<open>\<open>buffer_.size()\<close>\<close>

definition sp_capacity :: "('a, 'z) spsc_scheme \<Rightarrow> size_t" where
  "sp_capacity s = of_nat (length (sp_buffer s))"

definition sp_new :: "size_t \<Rightarrow> exn + 'a spsc" where
  "sp_new capacity =
     (case nextPowerOfTwoChecked capacity of
        Inl e \<Rightarrow> Inl e
      | Inr c \<Rightarrow> Inr \<lparr>sp_head = 0, sp_tail = 0, sp_buffer = replicate (unat c) None, sp_mask = c - 1\<rparr>)"

definition sp_tryPush :: "'a \<Rightarrow> 'a spsc \<Rightarrow> bool \<times> 'a spsc" where
  "sp_tryPush item s =
     (let t = sp_tail s in
      if sp_capacity s \<le> t - sp_head s then (False, s)
      else (True, s\<lparr>sp_buffer := (sp_buffer s)[slot (sp_mask s) t := Some item], sp_tail := t + 1\<rparr>))"

text \<open>The \<open>for\<close> loops of the batch functions, over the indices \<open>0, \<dots>, k - 1\<close>.\<close>

definition sp_fill :: "size_t \<Rightarrow> size_t \<Rightarrow> 'a list \<Rightarrow> nat \<Rightarrow> 'a option list \<Rightarrow> 'a option list" where
  "sp_fill m t items k b = fold (\<lambda>i b. b[slot m (t + of_nat i) := Some (items ! i)]) [0..<k] b"

definition sp_tryPushBatch :: "'a list \<Rightarrow> size_t \<Rightarrow> 'a spsc \<Rightarrow> size_t \<times> 'a spsc" where
  "sp_tryPushBatch items n s =
     (let t = sp_tail s; space = sp_capacity s - (t - sp_head s); k = min n space in
      (k, s\<lparr>sp_buffer := sp_fill (sp_mask s) t items (unat k) (sp_buffer s), sp_tail := t + k\<rparr>))"

text \<open>The moving overload: the first \<open>k\<close> source elements are moved from (\<open>None\<close>).\<close>

definition sp_tryPushBatch_move :: "'a list \<Rightarrow> size_t \<Rightarrow> 'a spsc \<Rightarrow> size_t \<times> 'a option list \<times> 'a spsc" where
  "sp_tryPushBatch_move items n s =
     (let t = sp_tail s; space = sp_capacity s - (t - sp_head s); k = min n space in
      (k, replicate (unat k) None @ map Some (drop (unat k) items),
       s\<lparr>sp_buffer := sp_fill (sp_mask s) t items (unat k) (sp_buffer s), sp_tail := t + k\<rparr>))"

definition sp_tryPop :: "'a spsc \<Rightarrow> exn + ('a option \<times> 'a spsc)" where
  "sp_tryPop s =
     (let h = sp_head s in
      if h = sp_tail s then Inr (None, s)
      else (case sp_buffer s ! slot (sp_mask s) h of
              None \<Rightarrow> Inl Bad_optional_access
            | Some v \<Rightarrow> Inr (Some v, s\<lparr>sp_buffer := (sp_buffer s)[slot (sp_mask s) h := None],
                                      sp_head := h + 1\<rparr>)))"

fun sp_drain :: "size_t \<Rightarrow> size_t \<Rightarrow> nat list \<Rightarrow> 'a option list \<Rightarrow> exn + ('a list \<times> 'a option list)" where
  "sp_drain m h [] b = Inr ([], b)"
| "sp_drain m h (i # is) b =
     (case b ! slot m (h + of_nat i) of
        None \<Rightarrow> Inl Bad_optional_access
      | Some v \<Rightarrow> map_sum id (map_prod (Cons v) id) (sp_drain m h is (b[slot m (h + of_nat i) := None])))"

definition sp_tryPopBatch :: "size_t \<Rightarrow> 'a spsc \<Rightarrow> exn + ('a list \<times> 'a spsc)" where
  "sp_tryPopBatch mx s =
     (let h = sp_head s; available = sp_tail s - h; k = min mx available in
      case sp_drain (sp_mask s) h [0..<unat k] (sp_buffer s) of
        Inl e \<Rightarrow> Inl e
      | Inr (vs, b) \<Rightarrow> Inr (vs, s\<lparr>sp_buffer := b, sp_head := h + k\<rparr>))"

definition sp_size :: "'a spsc \<Rightarrow> size_t" where
  "sp_size s = (let t = sp_tail s; h = sp_head s in if h \<le> t then t - h else 0)"

definition sp_empty :: "'a spsc \<Rightarrow> bool" where
  "sp_empty s \<longleftrightarrow> sp_head s = sp_tail s"

definition sp_full :: "'a spsc \<Rightarrow> bool" where
  "sp_full s \<longleftrightarrow> sp_capacity s \<le> sp_tail s - sp_head s"

section \<open>Contents and invariant\<close>

definition sp_count :: "('a, 'z) spsc_scheme \<Rightarrow> nat" where
  "sp_count s = unat (sp_tail s - sp_head s)"

definition sp_list :: "('a, 'z) spsc_scheme \<Rightarrow> 'a list" where
  "sp_list s = map the (take (sp_count s) (ring_view (sp_buffer s) (sp_mask s) (sp_head s)))"

text \<open>The shape of the state: the mask belongs to a power-of-two capacity.\<close>

definition sp_shape :: "('a, 'z) spsc_scheme \<Rightarrow> bool" where
  "sp_shape s \<longleftrightarrow> is_cap (sp_capacity s) \<and> length (sp_buffer s) = unat (sp_capacity s) \<and>
     sp_mask s = sp_capacity s - 1"

definition sp_ok :: "'a spsc \<Rightarrow> bool" where
  "sp_ok s \<longleftrightarrow> sp_shape s \<and> sp_count s \<le> length (sp_buffer s) \<and>
     ring_view (sp_buffer s) (sp_mask s) (sp_head s) =
       map Some (sp_list s) @ replicate (length (sp_buffer s) - sp_count s) None"

lemma sp_shape_update [simp]:
  "sp_shape (s\<lparr>sp_head := h\<rparr>) = sp_shape s" "sp_shape (s\<lparr>sp_tail := t\<rparr>) = sp_shape s"
  "length b = length (sp_buffer s) \<Longrightarrow> sp_shape (s\<lparr>sp_buffer := b\<rparr>) = sp_shape s"
  by (simp_all add: sp_shape_def sp_capacity_def)

lemma sp_shape_bound: "sp_shape s \<Longrightarrow> length (sp_buffer s) \<le> 2 ^ 63"
  using is_cap_le [of "sp_capacity s"] by (simp add: sp_shape_def)

lemma sp_view_update:
  assumes "sp_shape s" "n < length (sp_buffer s)"
  shows "ring_view ((sp_buffer s)[slot (sp_mask s) (h + of_nat n) := x]) (sp_mask s) h =
    (ring_view (sp_buffer s) (sp_mask s) h)[n := x]"
  using ring_view_update [of "sp_capacity s" "sp_buffer s" n h x] assms by (simp add: sp_shape_def)

lemma sp_view_rotate:
  assumes "sp_shape s"
  shows "ring_view (sp_buffer s) (sp_mask s) (h + of_nat n) = rotate n (ring_view (sp_buffer s) (sp_mask s) h)"
  using ring_view_rotate_n [of "sp_capacity s" "sp_buffer s" h n] assms by (simp add: sp_shape_def)

lemma sp_okI:
  assumes "sp_shape s" "sp_count s = length xs" "length xs \<le> length (sp_buffer s)"
    and "ring_view (sp_buffer s) (sp_mask s) (sp_head s) =
      map Some xs @ replicate (length (sp_buffer s) - length xs) None"
  shows "sp_ok s" "sp_list s = xs"
proof -
  show "sp_list s = xs" using assms by (simp add: sp_list_def comp_def)
  then show "sp_ok s" using assms by (simp add: sp_ok_def)
qed

lemma sp_list_length: "sp_ok s \<Longrightarrow> length (sp_list s) = sp_count s"
  by (simp add: sp_ok_def sp_list_def)

lemma sp_full_iff: "sp_shape s \<Longrightarrow> sp_capacity s \<le> sp_tail s - sp_head s \<longleftrightarrow> length (sp_buffer s) \<le> sp_count s"
  by (simp add: sp_shape_def sp_count_def word_le_nat_alt)

lemma sp_empty_iff: "sp_head s = sp_tail s \<longleftrightarrow> sp_count s = 0"
  by (auto simp: sp_count_def unat_0_iff)

lemma sp_new_ok:
  assumes "sp_new n = Inr s"
  shows "sp_ok s" "sp_list s = []" "unat n \<le> length (sp_buffer s)"
proof -
  obtain c where c: "nextPowerOfTwoChecked n = Inr c"
    and s: "s = \<lparr>sp_head = 0, sp_tail = 0, sp_buffer = replicate (unat c) None, sp_mask = c - 1\<rparr>"
    using assms by (auto simp: sp_new_def split: sum.splits)
  note cap = checked_is_cap [OF c]
  have shape: "sp_shape s" using cap by (simp add: s sp_shape_def sp_capacity_def)
  have "ring_view (replicate (unat c) (None :: 'a option)) (c - 1) 0 = replicate (unat c) None"
    by (rule nth_equalityI) (simp_all add: ring_view_nth slot_lt [OF cap(1)])
  then show "sp_ok s" "sp_list s = []" "unat n \<le> length (sp_buffer s)"
    using sp_okI [OF shape, of "[]"] cap by (simp_all add: s sp_count_def)
qed

lemma sp_new_total: "unat n \<le> 2 ^ 63 \<Longrightarrow> \<exists>s. sp_new n = Inr s"
  using checked_total [of n] by (auto simp: sp_new_def)

section \<open>The operations on the contents\<close>

lemma sp_fill_Suc:
  "sp_fill m t items (Suc k) b = (sp_fill m t items k b)[slot m (t + of_nat k) := Some (items ! k)]"
  by (simp add: sp_fill_def)

lemma sp_fill_view:
  assumes "is_cap c" "length b = unat c" "ring_view b (c - 1) h = zs @ replicate r None"
    and "t = h + of_nat (length zs)" "k \<le> r" "k \<le> length items"
  shows "length (sp_fill (c - 1) t items k b) = length b \<and>
    ring_view (sp_fill (c - 1) t items k b) (c - 1) h =
      zs @ map Some (take k items) @ replicate (r - k) None"
  using assms(5,6)
proof (induction k)
  case 0
  then show ?case using assms(3) by (simp add: sp_fill_def)
next
  case (Suc k)
  let ?b = "sp_fill (c - 1) t items k b"
  have IH: "length ?b = length b"
    "ring_view ?b (c - 1) h = zs @ map Some (take k items) @ replicate (r - k) None"
    using Suc by simp_all
  have "length zs + r = unat c"
    using arg_cong [OF assms(3), of length] assms(2) by simp
  then have lt: "length zs + k < unat c" using Suc.prems by linarith
  have "t + of_nat k = h + of_nat (length zs + k)" using assms(4) by simp
  then have "ring_view (?b[slot (c - 1) (t + of_nat k) := Some (items ! k)]) (c - 1) h =
      (zs @ map Some (take k items) @ replicate (r - k) None)[length zs + k := Some (items ! k)]"
    using ring_view_update [OF assms(1) _ lt, of ?b] IH assms(2) by (simp add: add.assoc)
  also have "\<dots> = zs @ map Some (take (Suc k) items) @ replicate (r - Suc k) None"
    using Suc.prems by (simp add: list_update_append take_Suc_conv_app_nth Suc_diff_Suc [symmetric])
  finally show ?case using IH(1) by (simp add: sp_fill_Suc)
qed

lemma sp_drain_view:
  assumes "is_cap c" "length b = unat c"
    and "ring_view b (c - 1) h = replicate j None @ map Some (vs @ ys) @ rest"
  shows "\<exists>b'. sp_drain (c - 1) h [j..<j + length vs] b = Inr (vs, b') \<and> length b' = length b \<and>
    ring_view b' (c - 1) h = replicate (j + length vs) None @ map Some ys @ rest"
  using assms(2,3)
proof (induction vs arbitrary: j b)
  case Nil
  then show ?case by simp
next
  case (Cons v vs)
  have "j + Suc (length (vs @ ys) + length rest) = unat c"
    using arg_cong [OF Cons.prems(2), of length] Cons.prems(1) by simp
  then have lt: "j < unat c" by simp
  let ?i = "slot (c - 1) (h + of_nat j)" and ?b = "b[slot (c - 1) (h + of_nat j) := None]"
  have hd: "b ! ?i = Some v"
    using ring_view_nth [of j b "c - 1" h] lt Cons.prems by (simp add: nth_append)
  have "ring_view ?b (c - 1) h = (replicate j None @ map Some ((v # vs) @ ys) @ rest)[j := None]"
    using ring_view_update [OF assms(1) Cons.prems(1) lt] Cons.prems(2) by simp
  also have "\<dots> = replicate (Suc j) None @ map Some (vs @ ys) @ rest"
    by (simp add: list_update_append replicate_app_Cons_same)
  finally obtain b' where b': "sp_drain (c - 1) h [Suc j..<Suc j + length vs] ?b = Inr (vs, b')"
      "length b' = length ?b"
      "ring_view b' (c - 1) h = replicate (Suc j + length vs) None @ map Some ys @ rest"
    using Cons.IH [of ?b "Suc j"] Cons.prems(1) by auto
  have "[j..<j + length (v # vs)] = j # [Suc j..<Suc j + length vs]"
    by (subst upt_conv_Cons) simp_all
  then show ?case using b' hd by simp
qed

lemma sp_tail_offset: "sp_tail s = sp_head s + of_nat (sp_count s)"
  by (simp add: sp_count_def)

lemma sp_tryPush_ok:
  assumes ok: "sp_ok s"
  shows "if sp_count s < length (sp_buffer s)
    then \<exists>s'. sp_tryPush x s = (True, s') \<and> sp_ok s' \<and> sp_list s' = sp_list s @ [x] \<and>
      length (sp_buffer s') = length (sp_buffer s)
    else sp_tryPush x s = (False, s)"
proof (cases "sp_count s < length (sp_buffer s)")
  case True
  have shape: "sp_shape s" using ok by (simp add: sp_ok_def)
  let ?s = "s\<lparr>sp_buffer := (sp_buffer s)[slot (sp_mask s) (sp_tail s) := Some x], sp_tail := sp_tail s + 1\<rparr>"
  have cnt: "sp_count ?s = length (sp_list s @ [x])"
    using True sp_shape_bound [OF shape] dist_tail [of "sp_tail s" "sp_head s" 1] sp_list_length [OF ok]
    by (simp add: sp_count_def)
  have "ring_view (sp_buffer ?s) (sp_mask ?s) (sp_head ?s) =
      (map Some (sp_list s) @ replicate (length (sp_buffer s) - sp_count s) None)[sp_count s := Some x]"
    using sp_view_update [OF shape True, of "sp_head s" "Some x"] ok sp_tail_offset [of s]
    by (simp add: sp_ok_def)
  also have "\<dots> = map Some (sp_list s @ [x]) @ replicate (length (sp_buffer s) - Suc (sp_count s)) None"
    using True sp_list_length [OF ok] by (simp add: list_update_append Suc_diff_Suc [symmetric])
  finally have "sp_ok ?s \<and> sp_list ?s = sp_list s @ [x]"
    using sp_okI [of ?s "sp_list s @ [x]"] cnt True shape sp_list_length [OF ok] by simp
  moreover have "sp_tryPush x s = (True, ?s)"
    using sp_full_iff [OF shape] True by (simp add: sp_tryPush_def Let_def)
  ultimately show ?thesis using True by simp
next
  case False
  then show ?thesis
    using sp_full_iff [of s] ok by (simp add: sp_tryPush_def Let_def sp_ok_def)
qed

lemma sp_advance_ok:
  assumes shape: "sp_shape s" and len: "length b = length (sp_buffer s)"
    and cnt: "sp_count s = length vs + length ys"
    and view: "ring_view b (sp_mask s) (sp_head s) =
      replicate (length vs) None @ map Some ys @ replicate (length (sp_buffer s) - sp_count s) None"
  shows "let s' = s\<lparr>sp_buffer := b, sp_head := sp_head s + of_nat (length vs)\<rparr> in sp_ok s' \<and> sp_list s' = ys"
proof -
  let ?s = "s\<lparr>sp_buffer := b, sp_head := sp_head s + of_nat (length vs)\<rparr>"
  have total: "length vs + length ys + (length (sp_buffer s) - sp_count s) = length (sp_buffer s)"
    using arg_cong [OF view, of length] len by simp
  have c: "sp_count ?s = length ys"
    using dist_head [of "length vs" "sp_tail s" "sp_head s"] cnt by (simp add: sp_count_def)
  have "ring_view b (sp_mask s) (sp_head s + of_nat (length vs)) =
      rotate (length vs) (ring_view b (sp_mask s) (sp_head s))"
    using sp_view_rotate [of "s\<lparr>sp_buffer := b\<rparr>"] shape len by simp
  also have "\<dots> = map Some ys @ replicate (length (sp_buffer s) - sp_count s + length vs) None"
    using rotate_append [of "replicate (length vs) None"
        "map Some ys @ replicate (length (sp_buffer s) - sp_count s) None"]
    by (simp add: view replicate_add)
  finally have "ring_view (sp_buffer ?s) (sp_mask ?s) (sp_head ?s) =
      map Some ys @ replicate (length (sp_buffer ?s) - length ys) None"
    using total len by (simp add: algebra_simps)
  then show ?thesis
    using sp_okI [of ?s ys] shape len c total by (simp add: Let_def)
qed

lemma sp_tryPopBatch_ok:
  assumes ok: "sp_ok s"
  shows "\<exists>s'. sp_tryPopBatch mx s = Inr (take (unat mx) (sp_list s), s') \<and> sp_ok s' \<and>
    sp_list s' = drop (unat mx) (sp_list s) \<and> length (sp_buffer s') = length (sp_buffer s)"
proof -
  have shape: "sp_shape s" using ok by (simp add: sp_ok_def)
  let ?k = "min mx (sp_tail s - sp_head s)"
  let ?vs = "take (unat mx) (sp_list s)" and ?ys = "drop (unat mx) (sp_list s)"
  have k: "unat ?k = length ?vs"
    using sp_list_length [OF ok] by (simp add: min_def word_le_nat_alt sp_count_def)
  have cap: "is_cap (sp_capacity s)" "length (sp_buffer s) = unat (sp_capacity s)"
    "sp_mask s = sp_capacity s - 1" using shape by (simp_all add: sp_shape_def)
  have v: "ring_view (sp_buffer s) (sp_mask s) (sp_head s) =
      replicate 0 None @ map Some (?vs @ ?ys) @ replicate (length (sp_buffer s) - sp_count s) None"
    using ok by (simp add: sp_ok_def flip: map_append)
  obtain b where b: "sp_drain (sp_mask s) (sp_head s) [0..<length ?vs] (sp_buffer s) = Inr (?vs, b)"
      "length b = length (sp_buffer s)"
      "ring_view b (sp_mask s) (sp_head s) =
        replicate (length ?vs) None @ map Some ?ys @ replicate (length (sp_buffer s) - sp_count s) None"
    using sp_drain_view [OF cap(1,2) v [unfolded cap(3)]] by (auto simp: cap(3))
  have "sp_count s = length ?vs + length ?ys" using sp_list_length [OF ok] by simp
  moreover have "of_nat (length ?vs) = ?k" unfolding k [symmetric] by simp
  ultimately show ?thesis
    using sp_advance_ok [OF shape b(2) _ b(3)] b(1,2)
    unfolding sp_tryPopBatch_def Let_def k by (simp del: length_take length_drop)
qed

lemma sp_tryPop_empty: "sp_count s = 0 \<Longrightarrow> sp_tryPop s = Inr (None, s)"
  using sp_empty_iff [of s] by (simp add: sp_tryPop_def Let_def)

lemma sp_tryPop_some:
  assumes ok: "sp_ok s" and ne: "sp_list s = y # ys"
  shows "\<exists>s'. sp_tryPop s = Inr (Some y, s') \<and> sp_ok s' \<and> sp_list s' = ys \<and>
    length (sp_buffer s') = length (sp_buffer s)"
proof -
  have shape: "sp_shape s" using ok by (simp add: sp_ok_def)
  have cnt: "sp_count s = Suc (length ys)" using sp_list_length [OF ok] ne by simp
  have cap: "is_cap (sp_capacity s)" "length (sp_buffer s) = unat (sp_capacity s)"
    "sp_mask s = sp_capacity s - 1" using shape by (simp_all add: sp_shape_def)
  let ?rest = "replicate (length (sp_buffer s) - sp_count s) None"
  let ?b = "(sp_buffer s)[slot (sp_mask s) (sp_head s) := None]"
  have v: "ring_view (sp_buffer s) (sp_mask s) (sp_head s) =
      replicate 0 None @ map Some ([y] @ ys) @ ?rest"
    using ok ne by (simp add: sp_ok_def)
  have pos: "0 < length (sp_buffer s)" using cap is_cap_nonzero by simp
  have hd: "sp_buffer s ! slot (sp_mask s) (sp_head s) = Some y"
    using ring_view_nth [of 0 "sp_buffer s" "sp_mask s" "sp_head s"] v pos by simp
  have view: "ring_view ?b (sp_mask s) (sp_head s) = replicate (length [y]) None @ map Some ys @ ?rest"
    using sp_view_update [OF shape pos, of "sp_head s" None] v by simp
  have "sp_ok (s\<lparr>sp_buffer := ?b, sp_head := sp_head s + 1\<rparr>) \<and>
      sp_list (s\<lparr>sp_buffer := ?b, sp_head := sp_head s + 1\<rparr>) = ys"
    using sp_advance_ok [OF shape _ _ view] cnt by (simp add: Let_def)
  then show ?thesis
    using hd cnt sp_empty_iff [of s] by (simp add: sp_tryPop_def Let_def)
qed

lemma sp_space:
  "sp_ok s \<Longrightarrow> unat (sp_capacity s - (sp_tail s - sp_head s)) = length (sp_buffer s) - sp_count s"
  by (simp add: sp_ok_def sp_shape_def sp_count_def unat_sub word_le_nat_alt)

lemma sp_tryPushBatch_ok:
  assumes ok: "sp_ok s" and n: "unat n \<le> length items"
  defines "k \<equiv> min (unat n) (length (sp_buffer s) - sp_count s)"
  shows "\<exists>s'. sp_tryPushBatch items n s = (of_nat k, s') \<and> sp_ok s' \<and>
    sp_list s' = sp_list s @ take k items \<and> length (sp_buffer s') = length (sp_buffer s)"
proof -
  have shape: "sp_shape s" using ok by (simp add: sp_ok_def)
  have cap: "is_cap (sp_capacity s)" "length (sp_buffer s) = unat (sp_capacity s)"
    "sp_mask s = sp_capacity s - 1" using shape by (simp_all add: sp_shape_def)
  let ?k = "min n (sp_capacity s - (sp_tail s - sp_head s))"
  let ?b = "sp_fill (sp_mask s) (sp_tail s) items k (sp_buffer s)"
  let ?s = "s\<lparr>sp_buffer := ?b, sp_tail := sp_tail s + of_nat k\<rparr>"
  have uk: "unat ?k = k"
    using sp_space [OF ok] by (simp add: k_def min_def word_le_nat_alt)
  then have kw: "?k = of_nat k" by auto
  have kl: "k \<le> length items" and kr: "k \<le> length (sp_buffer s) - sp_count s"
    using n by (simp_all add: k_def)
  have fill: "length ?b = length (sp_buffer s)"
    "ring_view ?b (sp_mask s) (sp_head s) = map Some (sp_list s) @ map Some (take k items) @
      replicate (length (sp_buffer s) - sp_count s - k) None"
    using sp_fill_view [OF cap(1,2), of "sp_head s" "map Some (sp_list s)" _ "sp_tail s", OF _ _ kr kl]
      ok sp_tail_offset [of s] sp_list_length [OF ok] by (simp_all add: sp_ok_def cap(3))
  have le: "sp_count s + k \<le> length (sp_buffer s)" using kr ok unfolding sp_ok_def by linarith
  have "sp_count ?s = length (sp_list s @ take k items)"
    using dist_tail [of "sp_tail s" "sp_head s" k] le sp_shape_bound [OF shape] kl sp_list_length [OF ok]
    by (simp add: sp_count_def)
  then have "sp_ok ?s \<and> sp_list ?s = sp_list s @ take k items"
    using sp_okI [of ?s "sp_list s @ take k items"] fill shape le kl sp_list_length [OF ok] by simp
  moreover have "sp_tryPushBatch items n s = (of_nat k, ?s)"
    using kw uk by (simp add: sp_tryPushBatch_def Let_def)
  ultimately show ?thesis using fill(1) by simp
qed

section \<open>The bounded FIFO contract\<close>

fun sp_apply :: "'a qop \<Rightarrow> 'a spsc \<Rightarrow> ('a qres \<times> 'a spsc) option" where
  "sp_apply (Enq x) s = (case sp_tryPush x s of (b, s') \<Rightarrow> Some (Accepted b, s'))"
| "sp_apply Deq s = (case sp_tryPop s of Inl e \<Rightarrow> None | Inr (v, s') \<Rightarrow> Some (Got v, s'))"

definition sp_abs :: "'a spsc \<Rightarrow> nat \<times> 'a list" where
  "sp_abs s = (length (sp_buffer s), sp_list s)"

lemma sp_simulation:
  assumes "sp_ok s"
  shows "\<exists>s'. sp_apply x s = Some (fst (fifo_step x (sp_abs s)), s') \<and>
    sp_abs s' = snd (fifo_step x (sp_abs s)) \<and> sp_ok s'"
proof (cases x)
  case (Enq a)
  then show ?thesis
    using sp_tryPush_ok [OF assms, of a] sp_list_length [OF assms] assms
    by (auto simp: sp_abs_def split: if_splits)
next
  case Deq
  then show ?thesis
    using sp_tryPop_empty [of s] sp_tryPop_some [OF assms] sp_list_length [OF assms] assms
    by (cases "sp_list s") (auto simp: sp_abs_def)
qed

interpretation sp: bounded_fifo sp_apply sp_abs "\<lambda>_. sp_ok"
proof
  fix s :: "'a spsc" and x
  assume "sp_ok s"
  then show "\<exists>s'. sp_apply x s = Some (fst (fifo_step x (sp_abs s)), s') \<and>
      sp_abs s' = snd (fifo_step x (sp_abs s)) \<and> sp_ok s'"
    by (rule sp_simulation)
next
  fix s :: "'a spsc"
  assume "sp_ok s"
  then show "length (snd (sp_abs s)) \<le> fst (sp_abs s)"
    using sp_list_length [of s] by (simp add: sp_abs_def sp_ok_def)
qed

lemma sp_abs_new: "sp_new n = Inr s \<Longrightarrow> sp_abs s = (length (sp_buffer s), [])"
  by (simp add: sp_abs_def sp_new_ok(2))

section \<open>Properties\<close>

text \<open>C5: used by one thread at a time, a new \<open>SPSCRingBuffer\<close> of requested capacity \<open>n\<close> answers
  every sequence of \<open>tryPush\<close> and \<open>tryPop\<close> as a FIFO queue of some capacity at least \<open>n\<close>, also
  when its counters wrap around, and never reads an empty slot.\<close>

theorem spsc_is_bounded_fifo:
  assumes "sp_new n = Inr s"
  shows "unat n \<le> length (sp_buffer s) \<and>
    map_option fst (run_ops sp_apply ops s) = Some (fst (run_spec fifo_step ops (length (sp_buffer s), [])))"
  using sp.run_results [OF sp_new_ok(1) [OF assms], of ops] sp_new_ok(3) [OF assms]
  by (simp add: sp_abs_new [OF assms])

theorem spsc_is_bounded_fifo_witness:
  "\<exists>s. sp_new 1 = Inr s \<and> map_option fst (run_ops sp_apply [Enq (1::nat), Enq 2, Deq, Deq] s) =
     Some [Accepted True, Accepted False, Got (Some 1), Got None]"
proof -
  obtain s :: "nat spsc" where s: "sp_new 1 = Inr s" using sp_new_total [of 1] by auto
  have "nextPowerOfTwoChecked 1 = Inr 1" by code_simp
  then have "length (sp_buffer s) = 1" using s by (auto simp: sp_new_def)
  then show ?thesis
    using spsc_is_bounded_fifo [OF s, of "[Enq 1, Enq 2, Deq, Deq]"] s by auto
qed

text \<open>\<open>empty()\<close> and \<open>full()\<close> are exact on a quiescent ring; \<open>size()\<close> is exact unless the tail
  counter has wrapped past the head counter, where it answers 0.\<close>

lemma spsc_observers:
  assumes "sp_ok s"
  shows "(sp_empty s \<longleftrightarrow> sp_list s = []) \<and>
    (sp_full s \<longleftrightarrow> length (sp_list s) = unat (sp_capacity s)) \<and>
    unat (sp_size s) = (if sp_head s \<le> sp_tail s then length (sp_list s) else 0)"
proof -
  have "sp_shape s" "sp_count s \<le> length (sp_buffer s)" using assms by (simp_all add: sp_ok_def)
  then show ?thesis
    using sp_list_length [OF assms] sp_full_iff [of s] sp_empty_iff [of s]
    by (auto simp: sp_empty_def sp_full_def sp_size_def Let_def sp_count_def sp_shape_def)
qed

lemma sp_tryPushBatch_move_same:
  "sp_tryPushBatch_move items n s =
     (case sp_tryPushBatch items n s of
        (k, s') \<Rightarrow> (k, replicate (unat k) None @ map Some (drop (unat k) items), s'))"
  by (simp add: sp_tryPushBatch_move_def sp_tryPushBatch_def Let_def)

text \<open>C6: on a well-formed ring, both overloads of \<open>tryPushBatch\<close> append exactly the first \<open>k = min(n, free space)\<close>
  elements and return \<open>k\<close>; the moving one leaves exactly these \<open>k\<close> source elements moved from and the others as they
  were. \<open>tryPopBatch\<close> hands out exactly the first \<open>min(max, size)\<close> elements in
  order, without reading an empty slot; all keep the ring well-formed. \<open>empty()\<close> and \<open>full()\<close> are exact on
  a quiescent ring; \<open>size()\<close> is exact unless the tail counter has wrapped past the head counter, where
  it answers 0.\<close>

theorem spsc_batches_and_observers:
  assumes "sp_ok s" and "unat n \<le> length items"
  defines "k \<equiv> min (unat n) (length (sp_buffer s) - length (sp_list s))"
  shows "(\<exists>s'. sp_tryPushBatch items n s = (of_nat k, s') \<and> sp_ok s' \<and> sp_list s' = sp_list s @ take k items) \<and>
    (\<exists>s' src. sp_tryPushBatch_move items n s = (of_nat k, src, s') \<and> sp_ok s' \<and> sp_list s' = sp_list s @ take k items \<and>
      length src = length items \<and> (\<forall>i<k. src ! i = None) \<and> (\<forall>i. k \<le> i \<and> i < length items \<longrightarrow> src ! i = Some (items ! i))) \<and>
    (\<exists>s'. sp_tryPopBatch mx s = Inr (take (unat mx) (sp_list s), s') \<and>
      sp_ok s' \<and> sp_list s' = drop (unat mx) (sp_list s)) \<and>
    (sp_empty s \<longleftrightarrow> sp_list s = []) \<and> (sp_full s \<longleftrightarrow> length (sp_list s) = unat (sp_capacity s)) \<and>
    unat (sp_size s) = (if sp_head s \<le> sp_tail s then length (sp_list s) else 0)"
proof -
  obtain s' where s': "sp_tryPushBatch items n s = (of_nat k, s')" "sp_ok s'" "sp_list s' = sp_list s @ take k items"
    using sp_tryPushBatch_ok [OF assms(1,2)] sp_list_length [OF assms(1)] by (auto simp: k_def)
  have "k \<le> unat n" by (simp add: k_def)
  then have "k < 2 ^ 64" using unsigned_less [of n, where 'a = nat] by simp
  then have k: "unat (of_nat k :: size_t) = k" by (simp add: unat_of_nat)
  have le: "k \<le> length items" using \<open>k \<le> unat n\<close> assms(2) by simp
  define src where "src = replicate k None @ map Some (drop k items)"
  have "sp_tryPushBatch_move items n s = (of_nat k, src, s')"
    by (simp add: sp_tryPushBatch_move_same s'(1) k src_def)
  moreover have "length src = length items" "\<forall>i<k. src ! i = None"
    "\<forall>i. k \<le> i \<and> i < length items \<longrightarrow> src ! i = Some (items ! i)"
    using le by (auto simp: src_def nth_append)
  ultimately show ?thesis
    using s' sp_tryPopBatch_ok [OF assms(1), of mx] spsc_observers [OF assms(1)] by blast
qed

theorem spsc_batches_and_observers_witness:
  "\<exists>s. sp_new 2 = Inr s \<and>
     (\<exists>s'. sp_tryPushBatch [1::nat, 2, 3] 3 s = (2, s') \<and> sp_list s' = [1, 2] \<and>
       (\<exists>s''. sp_tryPopBatch 5 s' = Inr ([1, 2], s''))) \<and>
     (\<exists>s' src. sp_tryPushBatch_move [1, 2, 3] 3 s = (2, src, s') \<and> src ! 0 = None \<and> src ! 2 = Some 3)"
proof -
  obtain s :: "nat spsc" where s: "sp_new 2 = Inr s" using sp_new_total [of 2] by auto
  note ok = sp_new_ok [OF s]
  have "nextPowerOfTwoChecked 2 = Inr 2" by code_simp
  then have len: "length (sp_buffer s) = 2" using s by (auto simp: sp_new_def)
  note p = spsc_batches_and_observers [OF ok(1), of 3 "[1, 2, 3]" 0]
  have "\<exists>s'. sp_tryPushBatch [1::nat, 2, 3] 3 s = (2, s') \<and> sp_ok s' \<and> sp_list s' = [1, 2]"
    and m: "\<exists>s' src. sp_tryPushBatch_move [1::nat, 2, 3] 3 s = (2, src, s') \<and> (\<forall>i<2. src ! i = None) \<and>
      (\<forall>i. 2 \<le> i \<and> i < 3 \<longrightarrow> src ! i = Some ([1, 2, 3] ! i))"
    using p len ok(2) by (simp, force)
  then obtain s' where s': "sp_tryPushBatch [1::nat, 2, 3] 3 s = (2, s')" "sp_ok s'" "sp_list s' = [1, 2]" by blast
  have "\<exists>s' src. sp_tryPushBatch_move [1::nat, 2, 3] 3 s = (2, src, s') \<and> src ! 0 = None \<and> src ! 2 = Some 3"
    using m by force
  moreover have "\<exists>s''. sp_tryPopBatch 5 s' = Inr ([1, 2], s'')"
    using spsc_batches_and_observers [OF s'(2), of 0 "[]" 5] s'(3) by auto
  ultimately show ?thesis using s s' by blast
qed

text \<open>A consumer that takes batches of the given sizes one after the other.\<close>

fun sp_popBatches :: "size_t list \<Rightarrow> 'a spsc \<Rightarrow> exn + 'a list \<times> 'a spsc" where
  "sp_popBatches [] s = Inr ([], s)"
| "sp_popBatches (mx # ms) s =
     (case sp_tryPopBatch mx s of
        Inl e \<Rightarrow> Inl e
      | Inr (vs, s') \<Rightarrow> (case sp_popBatches ms s' of Inl e \<Rightarrow> Inl e | Inr (ws, s'') \<Rightarrow> Inr (vs @ ws, s'')))"

lemma sp_popBatches_ok:
  "sp_ok s \<Longrightarrow> \<exists>s'. sp_popBatches ms s = Inr (take (sum_list (map unat ms)) (sp_list s), s') \<and> sp_ok s' \<and>
     sp_list s' = drop (sum_list (map unat ms)) (sp_list s)"
proof (induction ms arbitrary: s)
  case (Cons mx ms)
  obtain s1 where s1: "sp_tryPopBatch mx s = Inr (take (unat mx) (sp_list s), s1)" "sp_ok s1"
      "sp_list s1 = drop (unat mx) (sp_list s)"
    using sp_tryPopBatch_ok [OF Cons.prems, of mx] by blast
  show ?case using Cons.IH [OF s1(2)] s1 by (auto simp: take_add add.commute)
qed simp

text \<open>C7: a batch comes out as it went in: after \<open>tryPushBatch\<close> of items that fit into the free places, consuming
  batches of whatever sizes yields the previous contents and then the items, in order and complete once the
  sizes add up to them, and leaves the buffer empty; wherever the counters stand.\<close>

theorem spsc_batch_roundtrip:
  assumes "sp_ok s" and "unat n = length items" and "length (sp_list s) + length items \<le> length (sp_buffer s)"
    and "length (sp_list s) + length items \<le> sum_list (map unat ms)"
  shows "fst (sp_tryPushBatch items n s) = n \<and>
    (\<exists>s'. sp_popBatches ms (snd (sp_tryPushBatch items n s)) = Inr (sp_list s @ items, s') \<and> sp_empty s')"
proof -
  obtain s1 where s1: "sp_tryPushBatch items n s = (of_nat (length items), s1)" "sp_ok s1" "sp_list s1 = sp_list s @ items"
    using sp_tryPushBatch_ok [OF assms(1), of n items] sp_list_length [OF assms(1)] assms(2,3) by (auto simp: min_absorb1)
  obtain s2 where s2: "sp_popBatches ms s1 = Inr (sp_list s @ items, s2)" "sp_ok s2" "sp_list s2 = []"
    using sp_popBatches_ok [OF s1(2), of ms] s1(3) assms(4) by auto
  have "sp_empty s2" using spsc_observers [OF s2(2)] s2(3) by simp
  moreover have "of_nat (length items) = n" by (simp flip: assms(2))
  ultimately show ?thesis using s1(1) s2(1) by simp
qed

text \<open>Three items through a buffer of four, in batches of two.\<close>

theorem spsc_batch_roundtrip_witness:
  "\<exists>s. sp_new 4 = Inr s \<and> fst (sp_tryPushBatch [7 :: nat, 8, 9] 3 s) = 3 \<and>
     (\<exists>s'. sp_popBatches [2, 2] (snd (sp_tryPushBatch [7, 8, 9] 3 s)) = Inr ([7, 8, 9], s') \<and> sp_empty s')"
proof -
  obtain s :: "nat spsc" where s: "sp_new 4 = Inr s" using sp_new_total [of 4] by auto
  note ok = sp_new_ok [OF s]
  from spsc_batch_roundtrip [OF ok(1), of 3 "[7, 8, 9]" "[2, 2]"] ok(2,3) s show ?thesis by simp
qed

end
