(* ===== verification/SPSC_Concurrent.thy ===== *)
theory SPSC_Concurrent
  imports SPSC_Ring_Buffer
begin

text \<open>
  The two threads of \<open>SPSCRingBuffer\<close> at once: the producer runs \<open>tryPush\<close> and
  \<open>tryPushBatch\<close>, the consumer \<open>tryPop\<close> and \<open>tryPopBatch\<close>, in any interleaving of their atomic
  loads and stores and of their slot accesses. Memory is sequentially consistent; that the
  release/acquire pairs make the slot accesses visible in this order is the C++ memory model's
  part and is not modelled.
\<close>

section \<open>Threads and steps\<close>

text \<open>Where the producer stands: the local variables are the arguments.\<close>

datatype 'a prod_pc =
    P_idle
  | P_push 'a size_t                     \<comment> \<open>\<open>tail_\<close> loaded, \<open>head_\<close> not yet\<close>
  | P_emplace 'a size_t                  \<comment> \<open>not full\<close>
  | P_publish 'a size_t                  \<comment> \<open>slot written, \<open>tail_\<close> not yet stored\<close>
  | P_batch "'a list" size_t size_t      \<comment> \<open>\<open>items\<close>, \<open>n\<close>, \<open>t\<close>\<close>
  | P_fill "'a list" size_t nat nat      \<comment> \<open>\<open>items\<close>, \<open>t\<close>, \<open>k\<close>, loop index \<open>i\<close>\<close>

datatype 'a cons_pc =
    C_idle
  | C_pop size_t                         \<comment> \<open>\<open>head_\<close> loaded, \<open>tail_\<close> not yet\<close>
  | C_read size_t                        \<comment> \<open>not empty\<close>
  | C_reset size_t 'a                    \<comment> \<open>value moved out\<close>
  | C_publish size_t 'a                  \<comment> \<open>slot reset, \<open>head_\<close> not yet stored\<close>
  | C_batch size_t size_t                \<comment> \<open>\<open>max\<close>, \<open>h\<close>\<close>
  | C_take size_t nat "'a list"          \<comment> \<open>\<open>h\<close>, \<open>k\<close>, the elements moved out so far\<close>
  | C_clear size_t nat "'a list" 'a
  | C_threw                              \<comment> \<open>\<open>bad_optional_access\<close>\<close>

text \<open>The ring with its two threads; \<open>sc_sent\<close> and \<open>sc_received\<close> record what was published by the
  producer and returned to the consumer, no step reads them.\<close>

record 'a spsc_sys = "'a spsc" +
  sc_prod :: "'a prod_pc"
  sc_cons :: "'a cons_pc"
  sc_sent :: "'a list"
  sc_received :: "'a list"

definition sc_init :: "size_t \<Rightarrow> 'a spsc_sys \<Rightarrow> bool" where
  "sc_init capacity s \<longleftrightarrow>
     (\<exists>c. nextPowerOfTwoChecked capacity = Inr c \<and>
       s = \<lparr>sp_head = 0, sp_tail = 0, sp_buffer = replicate (unat c) None, sp_mask = c - 1,
            sc_prod = P_idle, sc_cons = C_idle, sc_sent = [], sc_received = []\<rparr>)"

inductive sc_step :: "'a spsc_sys \<Rightarrow> 'a spsc_sys \<Rightarrow> bool" where
  push_call: "sc_prod s = P_idle \<Longrightarrow> sc_step s (s\<lparr>sc_prod := P_push x (sp_tail s)\<rparr>)"
| push_full: "sc_prod s = P_push x t \<Longrightarrow> sp_capacity s \<le> t - sp_head s \<Longrightarrow>
    sc_step s (s\<lparr>sc_prod := P_idle\<rparr>)"
| push_room: "sc_prod s = P_push x t \<Longrightarrow> \<not> sp_capacity s \<le> t - sp_head s \<Longrightarrow>
    sc_step s (s\<lparr>sc_prod := P_emplace x t\<rparr>)"
| push_emplace: "sc_prod s = P_emplace x t \<Longrightarrow>
    sc_step s (s\<lparr>sp_buffer := (sp_buffer s)[slot (sp_mask s) t := Some x], sc_prod := P_publish x t\<rparr>)"
| push_publish: "sc_prod s = P_publish x t \<Longrightarrow>
    sc_step s (s\<lparr>sp_tail := t + 1, sc_prod := P_idle, sc_sent := sc_sent s @ [x]\<rparr>)"
| pushb_call: "sc_prod s = P_idle \<Longrightarrow> unat n \<le> length items \<Longrightarrow>
    sc_step s (s\<lparr>sc_prod := P_batch items n (sp_tail s)\<rparr>)"
| pushb_space: "sc_prod s = P_batch items n t \<Longrightarrow>
    sc_step s (s\<lparr>sc_prod := P_fill items t (unat (min n (sp_capacity s - (t - sp_head s)))) 0\<rparr>)"
| pushb_fill: "sc_prod s = P_fill items t k i \<Longrightarrow> i < k \<Longrightarrow>
    sc_step s (s\<lparr>sp_buffer := (sp_buffer s)[slot (sp_mask s) (t + of_nat i) := Some (items ! i)],
                sc_prod := P_fill items t k (Suc i)\<rparr>)"
| pushb_publish: "sc_prod s = P_fill items t k i \<Longrightarrow> \<not> i < k \<Longrightarrow>
    sc_step s (s\<lparr>sp_tail := t + of_nat k, sc_prod := P_idle, sc_sent := sc_sent s @ take k items\<rparr>)"
| pop_call: "sc_cons s = C_idle \<Longrightarrow> sc_step s (s\<lparr>sc_cons := C_pop (sp_head s)\<rparr>)"
| pop_empty: "sc_cons s = C_pop h \<Longrightarrow> h = sp_tail s \<Longrightarrow> sc_step s (s\<lparr>sc_cons := C_idle\<rparr>)"
| pop_some: "sc_cons s = C_pop h \<Longrightarrow> h \<noteq> sp_tail s \<Longrightarrow> sc_step s (s\<lparr>sc_cons := C_read h\<rparr>)"
| pop_read: "sc_cons s = C_read h \<Longrightarrow>
    sc_step s (s\<lparr>sc_cons := (case sp_buffer s ! slot (sp_mask s) h of
                              None \<Rightarrow> C_threw | Some v \<Rightarrow> C_reset h v)\<rparr>)"
| pop_reset: "sc_cons s = C_reset h v \<Longrightarrow>
    sc_step s (s\<lparr>sp_buffer := (sp_buffer s)[slot (sp_mask s) h := None], sc_cons := C_publish h v\<rparr>)"
| pop_publish: "sc_cons s = C_publish h v \<Longrightarrow>
    sc_step s (s\<lparr>sp_head := h + 1, sc_cons := C_idle, sc_received := sc_received s @ [v]\<rparr>)"
| popb_call: "sc_cons s = C_idle \<Longrightarrow> sc_step s (s\<lparr>sc_cons := C_batch mx (sp_head s)\<rparr>)"
| popb_avail: "sc_cons s = C_batch mx h \<Longrightarrow>
    sc_step s (s\<lparr>sc_cons := C_take h (unat (min mx (sp_tail s - h))) []\<rparr>)"
| popb_read: "sc_cons s = C_take h k vs \<Longrightarrow> length vs < k \<Longrightarrow>
    sc_step s (s\<lparr>sc_cons := (case sp_buffer s ! slot (sp_mask s) (h + of_nat (length vs)) of
                              None \<Rightarrow> C_threw | Some v \<Rightarrow> C_clear h k vs v)\<rparr>)"
| popb_reset: "sc_cons s = C_clear h k vs v \<Longrightarrow>
    sc_step s (s\<lparr>sp_buffer := (sp_buffer s)[slot (sp_mask s) (h + of_nat (length vs)) := None],
                sc_cons := C_take h k (vs @ [v])\<rparr>)"
| popb_publish: "sc_cons s = C_take h k vs \<Longrightarrow> \<not> length vs < k \<Longrightarrow>
    sc_step s (s\<lparr>sp_head := h + of_nat k, sc_cons := C_idle, sc_received := sc_received s @ vs\<rparr>)"

section \<open>The invariant\<close>

text \<open>Elements the producer has written but not published, and the consumer has removed but not
  released.\<close>

fun written :: "'a prod_pc \<Rightarrow> 'a list" where
  "written (P_publish x t) = [x]"
| "written (P_fill items t k i) = take i items"
| "written _ = []"

fun removed :: "'a cons_pc \<Rightarrow> 'a list" where
  "removed (C_publish h v) = [v]"
| "removed (C_take h k vs) = vs"
| "removed (C_clear h k vs v) = vs"
| "removed _ = []"

text \<open>What each thread knows about the shared counters at its current point.\<close>

fun prod_ok :: "size_t \<Rightarrow> nat \<Rightarrow> nat \<Rightarrow> 'a prod_pc \<Rightarrow> bool" where
  "prod_ok tail n cap P_idle = True"
| "prod_ok tail n cap (P_push x t) = (t = tail)"
| "prod_ok tail n cap (P_emplace x t) = (t = tail \<and> n < cap)"
| "prod_ok tail n cap (P_publish x t) = (t = tail \<and> n < cap)"
| "prod_ok tail n cap (P_batch items m t) = (t = tail \<and> unat m \<le> length items)"
| "prod_ok tail n cap (P_fill items t k i) = (t = tail \<and> i \<le> k \<and> k \<le> length items \<and> n + k \<le> cap)"

fun cons_ok :: "size_t \<Rightarrow> nat \<Rightarrow> 'a list \<Rightarrow> 'a cons_pc \<Rightarrow> bool" where
  "cons_ok head n mid C_idle = True"
| "cons_ok head n mid (C_pop h) = (h = head)"
| "cons_ok head n mid (C_read h) = (h = head \<and> mid \<noteq> [])"
| "cons_ok head n mid (C_reset h v) = (h = head \<and> (\<exists>ys. mid = v # ys))"
| "cons_ok head n mid (C_publish h v) = (h = head)"
| "cons_ok head n mid (C_batch mx h) = (h = head)"
| "cons_ok head n mid (C_take h k vs) = (h = head \<and> length vs \<le> k \<and> k \<le> n)"
| "cons_ok head n mid (C_clear h k vs v) = (h = head \<and> length vs < k \<and> k \<le> n \<and> (\<exists>ys. mid = v # ys))"
| "cons_ok head n mid C_threw = False"

text \<open>
  The ring, seen from \<open>head\<close>: slots already emptied by the consumer, the published elements
  \<open>mid\<close>, the elements written ahead by the producer, and free slots.
\<close>

definition sc_inv_for :: "'a list \<Rightarrow> 'a spsc_sys \<Rightarrow> bool" where
  "sc_inv_for mid s \<longleftrightarrow>
     sp_shape s \<and>
     sc_sent s = sc_received s @ removed (sc_cons s) @ mid \<and>
     length (removed (sc_cons s)) + length mid = sp_count s \<and>
     sp_count s + length (written (sc_prod s)) \<le> length (sp_buffer s) \<and>
     ring_view (sp_buffer s) (sp_mask s) (sp_head s) =
       replicate (length (removed (sc_cons s))) None @ map Some (mid @ written (sc_prod s)) @
       replicate (length (sp_buffer s) - sp_count s - length (written (sc_prod s))) None \<and>
     prod_ok (sp_tail s) (sp_count s) (length (sp_buffer s)) (sc_prod s) \<and>
     cons_ok (sp_head s) (sp_count s) mid (sc_cons s)"

definition sc_inv :: "'a spsc_sys \<Rightarrow> bool" where
  "sc_inv s \<longleftrightarrow> (\<exists>mid. sc_inv_for mid s)"

lemma sc_frame [simp]:
  "sp_shape (s\<lparr>sc_prod := p\<rparr>) = sp_shape s" "sp_shape (s\<lparr>sc_cons := c\<rparr>) = sp_shape s"
  "sp_shape (s\<lparr>sc_sent := l\<rparr>) = sp_shape s" "sp_shape (s\<lparr>sc_received := l\<rparr>) = sp_shape s"
  "sp_count (s\<lparr>sc_prod := p\<rparr>) = sp_count s" "sp_count (s\<lparr>sc_cons := c\<rparr>) = sp_count s"
  "sp_count (s\<lparr>sc_sent := l\<rparr>) = sp_count s" "sp_count (s\<lparr>sc_received := l\<rparr>) = sp_count s"
  "sp_count (s\<lparr>sp_buffer := b\<rparr>) = sp_count s"
  by (simp_all add: sp_shape_def sp_capacity_def sp_count_def)

lemma sc_inv_forD:
  assumes "sc_inv_for mid s"
  shows "sp_shape s"
    "sc_sent s = sc_received s @ removed (sc_cons s) @ mid"
    "length (removed (sc_cons s)) + length mid = sp_count s"
    "sp_count s + length (written (sc_prod s)) \<le> length (sp_buffer s)"
    "ring_view (sp_buffer s) (sp_mask s) (sp_head s) =
       replicate (length (removed (sc_cons s))) None @ map Some (mid @ written (sc_prod s)) @
       replicate (length (sp_buffer s) - sp_count s - length (written (sc_prod s))) None"
    "prod_ok (sp_tail s) (sp_count s) (length (sp_buffer s)) (sc_prod s)"
    "cons_ok (sp_head s) (sp_count s) mid (sc_cons s)"
  using assms unfolding sc_inv_for_def by - (elim conjE, assumption)+

lemma update_after_append: "n = length zs \<Longrightarrow> (zs @ replicate (Suc k) a)[n := b] = zs @ b # replicate k a"
  by (simp add: list_update_append)

text \<open>A slot the producer writes is free, and the write extends \<open>written\<close>.\<close>

lemma inv_write:
  assumes inv: "sc_inv_for mid s"
    and room: "sp_count s + length (written (sc_prod s)) < length (sp_buffer s)"
    and pc: "written p = written (sc_prod s) @ [x]"
      "prod_ok (sp_tail s) (sp_count s) (length (sp_buffer s)) p"
    and idx: "i = sp_tail s + of_nat (length (written (sc_prod s)))"
  shows "sc_inv_for mid (s\<lparr>sp_buffer := (sp_buffer s)[slot (sp_mask s) i := Some x], sc_prod := p\<rparr>)"
proof -
  note d = sc_inv_forD [OF inv]
  let ?r = "length (removed (sc_cons s))" and ?w = "written (sc_prod s)"
  let ?k = "length (sp_buffer s) - sp_count s - length ?w"
  have i: "i = sp_head s + of_nat (sp_count s + length ?w)"
    using idx sp_tail_offset [of s] by simp
  let ?zs = "replicate ?r None @ map Some (mid @ ?w)"
  have k: "?k = Suc (length (sp_buffer s) - sp_count s - Suc (length ?w))" using room by linarith
  have "ring_view ((sp_buffer s)[slot (sp_mask s) i := Some x]) (sp_mask s) (sp_head s) =
      (?zs @ replicate ?k None)[sp_count s + length ?w := Some x]"
    using sp_view_update [OF d(1) room, of "sp_head s" "Some x"] d(5) by (simp add: i)
  also have "\<dots> = ?zs @ Some x # replicate (length (sp_buffer s) - sp_count s - Suc (length ?w)) None"
    unfolding k by (rule update_after_append) (simp add: d(3))
  finally show ?thesis
    using d room pc by (simp add: sc_inv_for_def)
qed

text \<open>Publishing makes the written elements part of the queue.\<close>

lemma inv_sent:
  assumes inv: "sc_inv_for mid s" and t: "t = sp_tail s + of_nat (length (written (sc_prod s)))"
  shows "sc_inv_for (mid @ written (sc_prod s))
    (s\<lparr>sp_tail := t, sc_prod := P_idle, sc_sent := sc_sent s @ written (sc_prod s)\<rparr>)"
proof -
  note d = sc_inv_forD [OF inv]
  let ?w = "written (sc_prod s)"
  let ?s = "s\<lparr>sp_tail := t, sc_prod := P_idle, sc_sent := sc_sent s @ ?w\<rparr>"
  have c: "sp_count ?s = sp_count s + length ?w"
    using dist_tail [of "sp_tail s" "sp_head s" "length ?w"] d(4) sp_shape_bound [OF d(1)] t
    by (simp add: sp_count_def)
  have "cons_ok (sp_head s) (sp_count ?s) (mid @ ?w) (sc_cons s)"
    using d(7) c by (cases "sc_cons s") auto
  then show ?thesis
    using d c by (simp add: sc_inv_for_def)
qed

text \<open>The slot the consumer reads holds the next element.\<close>

lemma inv_read:
  assumes "sc_inv_for (v # ys) s"
  shows "sp_buffer s ! slot (sp_mask s) (sp_head s + of_nat (length (removed (sc_cons s)))) = Some v"
proof -
  note d = sc_inv_forD [OF assms]
  let ?r = "length (removed (sc_cons s))"
  have "?r < length (sp_buffer s)" using d(3,4) by simp
  then show ?thesis
    using ring_view_nth [of ?r "sp_buffer s" "sp_mask s" "sp_head s"] d(5) by (simp add: nth_append)
qed

lemma inv_remove:
  assumes inv: "sc_inv_for (v # ys) s"
    and pc: "removed c = removed (sc_cons s) @ [v]" "cons_ok (sp_head s) (sp_count s) ys c"
    and i: "i = sp_head s + of_nat (length (removed (sc_cons s)))"
  shows "sc_inv_for ys (s\<lparr>sp_buffer := (sp_buffer s)[slot (sp_mask s) i := None], sc_cons := c\<rparr>)"
proof -
  note d = sc_inv_forD [OF inv]
  let ?r = "length (removed (sc_cons s))"
  have lt: "?r < length (sp_buffer s)" using d(3,4) by simp
  have "ring_view ((sp_buffer s)[slot (sp_mask s) i := None]) (sp_mask s) (sp_head s) =
      replicate (Suc ?r) None @ map Some (ys @ written (sc_prod s)) @
      replicate (length (sp_buffer s) - sp_count s - length (written (sc_prod s))) None"
    using sp_view_update [OF d(1) lt, of "sp_head s" None] d(5)
    by (simp add: i list_update_append replicate_app_Cons_same)
  then show ?thesis
    using d pc by (simp add: sc_inv_for_def)
qed

lemma inv_release:
  assumes inv: "sc_inv_for mid s" and h: "h = sp_head s + of_nat (length (removed (sc_cons s)))"
  shows "sc_inv_for mid
    (s\<lparr>sp_head := h, sc_cons := C_idle, sc_received := sc_received s @ removed (sc_cons s)\<rparr>)"
proof -
  note d = sc_inv_forD [OF inv]
  let ?r = "length (removed (sc_cons s))" and ?w = "written (sc_prod s)"
  let ?s = "s\<lparr>sp_head := h, sc_cons := C_idle, sc_received := sc_received s @ removed (sc_cons s)\<rparr>"
  let ?k = "length (sp_buffer s) - sp_count s - length ?w"
  have c: "sp_count ?s = length mid"
    using dist_head [of ?r "sp_tail s" "sp_head s"] d(3) h by (simp add: sp_count_def)
  have "ring_view (sp_buffer s) (sp_mask s) h = map Some (mid @ ?w) @ replicate (?k + ?r) None"
    using sp_view_rotate [OF d(1), of "sp_head s" ?r] h d(5)
      rotate_append [of "replicate ?r None" "map Some (mid @ ?w) @ replicate ?k None"]
    by (simp add: replicate_add)
  moreover have "?k + ?r = length (sp_buffer s) - length mid - length ?w" using d(3,4) by simp
  moreover have "prod_ok (sp_tail s) (length mid) (length (sp_buffer s)) (sc_prod s)"
    using d(3,6) by (cases "sc_prod s") auto
  ultimately show ?thesis
    using d c by (simp add: sc_inv_for_def)
qed

section \<open>Every step keeps the invariant\<close>

lemma inv_prod_pc:
  "sc_inv_for mid s \<Longrightarrow> written p = [] \<Longrightarrow> written (sc_prod s) = [] \<Longrightarrow>
    prod_ok (sp_tail s) (sp_count s) (length (sp_buffer s)) p \<Longrightarrow> sc_inv_for mid (s\<lparr>sc_prod := p\<rparr>)"
  unfolding sc_inv_for_def by simp

lemma inv_cons_pc:
  "sc_inv_for mid s \<Longrightarrow> removed c = removed (sc_cons s) \<Longrightarrow>
    cons_ok (sp_head s) (sp_count s) mid c \<Longrightarrow> sc_inv_for mid (s\<lparr>sc_cons := c\<rparr>)"
  unfolding sc_inv_for_def by simp

lemma sc_space:
  "sp_shape s \<Longrightarrow> sp_count s \<le> length (sp_buffer s) \<Longrightarrow>
    unat (min n (sp_capacity s - (sp_tail s - sp_head s))) = min (unat n) (length (sp_buffer s) - sp_count s)"
  by (simp add: sp_shape_def sp_count_def min_def word_le_nat_alt unat_sub)

lemma sc_inv_step:
  assumes step: "sc_step s s'" and inv: "sc_inv_for mid s"
  shows "sc_inv s'"
  using step
proof cases
  case (push_call x)
  then show ?thesis using inv_prod_pc [OF inv, of "P_push x (sp_tail s)"] by (auto simp: sc_inv_def)
next
  case (push_full x t)
  then show ?thesis using inv_prod_pc [OF inv, of P_idle] by (auto simp: sc_inv_def)
next
  case (push_room x t)
  have t: "t = sp_tail s" using sc_inv_forD(6) [OF inv] push_room(2) by simp
  moreover have "sp_count s < length (sp_buffer s)"
    using push_room(3) unfolding t sp_full_iff [OF sc_inv_forD(1) [OF inv]] not_le .
  ultimately have "sc_inv_for mid s'"
    unfolding push_room(1) by (intro inv_prod_pc [OF inv]) (simp_all add: push_room(2))
  then show ?thesis unfolding sc_inv_def by blast
next
  case (push_emplace x t)
  show ?thesis
    unfolding sc_inv_def push_emplace(1)
    by (rule exI, rule inv_write [OF inv]) (use push_emplace(2) sc_inv_forD(6) [OF inv] in simp_all)
next
  case (push_publish x t)
  then show ?thesis
    using inv_sent [OF inv, of "t + 1"] sc_inv_forD(6) [OF inv] by (auto simp: sc_inv_def)
next
  case (pushb_call n items)
  then show ?thesis
    using inv_prod_pc [OF inv, of "P_batch items n (sp_tail s)"] by (auto simp: sc_inv_def)
next
  case (pushb_space items n t)
  then have t: "t = sp_tail s" and n: "unat n \<le> length items" using sc_inv_forD(6) [OF inv] by auto
  have le: "sp_count s \<le> length (sp_buffer s)" using sc_inv_forD(4) [OF inv] by simp
  let ?k = "min (unat n) (length (sp_buffer s) - sp_count s)"
  have k: "unat (min n (sp_capacity s - (sp_tail s - sp_head s))) = ?k"
    by (rule sc_space [OF sc_inv_forD(1) [OF inv] le])
  have "?k \<le> length items" "sp_count s + ?k \<le> length (sp_buffer s)" using n le by linarith+
  then have "sc_inv_for mid s'"
    unfolding pushb_space(1) t k by (intro inv_prod_pc [OF inv]) (simp_all add: pushb_space(2))
  then show ?thesis unfolding sc_inv_def by blast
next
  case (pushb_fill items t k i)
  show ?thesis
    unfolding sc_inv_def pushb_fill(1)
    by (rule exI, rule inv_write [OF inv])
      (use pushb_fill(2,3) sc_inv_forD(6) [OF inv] in \<open>simp_all add: take_Suc_conv_app_nth\<close>)
next
  case (pushb_publish items t k i)
  then show ?thesis
    using inv_sent [OF inv, of "t + of_nat k"] sc_inv_forD(6) [OF inv] by (auto simp: sc_inv_def min_absorb1)
next
  case pop_call
  then show ?thesis using inv_cons_pc [OF inv, of "C_pop (sp_head s)"] by (auto simp: sc_inv_def)
next
  case (pop_empty h)
  then show ?thesis using inv_cons_pc [OF inv, of C_idle] by (auto simp: sc_inv_def)
next
  case (pop_some h)
  then have h: "h = sp_head s" using sc_inv_forD(7) [OF inv] by simp
  have "length mid = sp_count s" using sc_inv_forD(3) [OF inv] pop_some(2) by simp
  then have "mid \<noteq> []" using pop_some(3) sp_empty_iff [of s] h by auto
  then have "sc_inv_for mid s'"
    unfolding pop_some(1) by (intro inv_cons_pc [OF inv]) (simp_all add: pop_some(2) h)
  then show ?thesis unfolding sc_inv_def by blast
next
  case (pop_read h)
  then obtain v ys where m: "mid = v # ys" "h = sp_head s"
    using sc_inv_forD(7) [OF inv] by (auto simp: neq_Nil_conv)
  then show ?thesis
    using pop_read inv_read [OF inv [unfolded m(1)]] inv_cons_pc [OF inv, of "C_reset h v"]
    by (auto simp: sc_inv_def)
next
  case (pop_reset h v)
  then obtain ys where m: "mid = v # ys" "h = sp_head s" using sc_inv_forD(7) [OF inv] by auto
  then show ?thesis
    using pop_reset inv_remove [OF inv [unfolded m(1)], of "C_publish h v" h] by (auto simp: sc_inv_def)
next
  case (pop_publish h v)
  then show ?thesis
    using inv_release [OF inv, of "h + 1"] sc_inv_forD(7) [OF inv] by (auto simp: sc_inv_def)
next
  case (popb_call mx)
  then show ?thesis using inv_cons_pc [OF inv, of "C_batch mx (sp_head s)"] by (auto simp: sc_inv_def)
next
  case (popb_avail mx h)
  then show ?thesis
    using inv_cons_pc [OF inv, of "C_take h (unat (min mx (sp_tail s - h))) []"] sc_inv_forD(7) [OF inv]
    by (auto simp: sc_inv_def sp_count_def min_def word_le_nat_alt)
next
  case (popb_read h k vs)
  then have kv: "h = sp_head s" "length vs < k" "k \<le> sp_count s" using sc_inv_forD(7) [OF inv] by auto
  then obtain v ys where m: "mid = v # ys"
    using sc_inv_forD(3) [OF inv] popb_read by (cases mid) auto
  then show ?thesis
    using popb_read kv inv_read [OF inv [unfolded m]] inv_cons_pc [OF inv, of "C_clear h k vs v"]
    by (auto simp: sc_inv_def)
next
  case (popb_reset h k vs v)
  then obtain ys where m: "mid = v # ys" and kv: "h = sp_head s" "length vs < k" "k \<le> sp_count s"
    using sc_inv_forD(7) [OF inv] by auto
  then show ?thesis
    using popb_reset inv_remove [OF inv [unfolded m], of "C_take h k (vs @ [v])"] by (auto simp: sc_inv_def)
next
  case (popb_publish h k vs)
  then show ?thesis
    using inv_release [OF inv, of "h + of_nat k"] sc_inv_forD(7) [OF inv] by (auto simp: sc_inv_def)
qed

lemma sc_inv_init: "sc_init n s \<Longrightarrow> sc_inv s"
proof -
  assume "sc_init n s"
  then obtain c where c: "nextPowerOfTwoChecked n = Inr c"
    and s: "s = \<lparr>sp_head = 0, sp_tail = 0, sp_buffer = replicate (unat c) None, sp_mask = c - 1,
      sc_prod = P_idle, sc_cons = C_idle, sc_sent = [], sc_received = []\<rparr>"
    by (auto simp: sc_init_def)
  note cap = checked_is_cap(1) [OF c]
  have "ring_view (replicate (unat c) (None :: 'a option)) (c - 1) 0 = replicate (unat c) None"
    by (rule nth_equalityI) (simp_all add: ring_view_nth slot_lt [OF cap])
  then have "sc_inv_for [] s"
    using cap by (simp add: s sc_inv_for_def sp_shape_def sp_capacity_def sp_count_def)
  then show ?thesis unfolding sc_inv_def by blast
qed

interpretation sc: inductive_invariant "sc_init n" sc_step sc_inv for n
proof unfold_locales
  fix s :: "'a spsc_sys"
  show "sc_init n s \<Longrightarrow> sc_inv s" by (rule sc_inv_init)
next
  fix s t :: "'a spsc_sys"
  assume "sc_inv s" "sc_step s t"
  then show "sc_inv t" using sc_inv_step unfolding sc_inv_def [of s] by blast
qed

section \<open>Properties\<close>

text \<open>The slot each thread is about to access, if it is at a slot access.\<close>

fun prod_slot :: "size_t \<Rightarrow> 'a prod_pc \<Rightarrow> nat option" where
  "prod_slot m (P_emplace x t) = Some (slot m t)"
| "prod_slot m (P_fill items t k i) = (if i < k then Some (slot m (t + of_nat i)) else None)"
| "prod_slot m _ = None"

fun cons_slot :: "size_t \<Rightarrow> 'a cons_pc \<Rightarrow> nat option" where
  "cons_slot m (C_read h) = Some (slot m h)"
| "cons_slot m (C_reset h v) = Some (slot m h)"
| "cons_slot m (C_take h k vs) = (if length vs < k then Some (slot m (h + of_nat (length vs))) else None)"
| "cons_slot m (C_clear h k vs v) = Some (slot m (h + of_nat (length vs)))"
| "cons_slot m _ = None"

lemma prod_slot_offset:
  assumes "sc_inv_for mid s" "prod_slot (sp_mask s) (sc_prod s) = Some i"
  shows "\<exists>n. sp_count s \<le> n \<and> n < length (sp_buffer s) \<and> i = slot (sp_mask s) (sp_head s + of_nat n)"
proof (cases "sc_prod s")
  case (P_emplace x t)
  then show ?thesis
    using assms(2) sc_inv_forD(6) [OF assms(1)] sp_tail_offset [of s]
    by (intro exI [of _ "sp_count s"]) auto
next
  case (P_fill items t k j)
  then show ?thesis
    using assms(2) sc_inv_forD(6) [OF assms(1)] sp_tail_offset [of s]
    by (intro exI [of _ "sp_count s + j"]) (auto simp: add.assoc split: if_splits)
qed (use assms(2) in auto)

lemma cons_slot_offset:
  assumes "sc_inv_for mid s" "cons_slot (sp_mask s) (sc_cons s) = Some j"
  shows "\<exists>m < sp_count s. j = slot (sp_mask s) (sp_head s + of_nat m)"
proof -
  have n: "length (removed (sc_cons s)) + length mid = sp_count s" by (rule sc_inv_forD(3) [OF assms(1)])
  then show ?thesis
    using assms(2) sc_inv_forD(7) [OF assms(1)]
    by (intro exI [of _ "length (removed (sc_cons s))"])
      (cases "sc_cons s"; auto split: if_splits simp: length_greater_0_conv [symmetric] simp del: length_greater_0_conv)
qed

text \<open>C8: in every interleaving of one producer and one consumer, what the consumer has received is a
  prefix of what the producer has published, in order; what is in between is at most the capacity,
  and \<open>tryPop\<close> and \<open>tryPopBatch\<close> never throw on an empty slot.\<close>

theorem spsc_concurrent_fifo:
  assumes "reach (sc_init n) sc_step s"
  shows "\<exists>pending. sc_sent s = sc_received s @ pending \<and>
    length pending = unat (sp_tail s - sp_head s) \<and> length pending \<le> length (sp_buffer s) \<and>
    sc_cons s \<noteq> C_threw"
proof -
  obtain mid where inv: "sc_inv_for mid s"
    using sc.inv_reach [OF assms] unfolding sc_inv_def by blast
  have "sc_cons s \<noteq> C_threw" using sc_inv_forD(7) [OF inv] by auto
  then show ?thesis
    using sc_inv_forD(2-4) [OF inv] by (intro exI [of _ "removed (sc_cons s) @ mid"]) (simp add: sp_count_def)
qed

text \<open>C9: the producer and the consumer never access the same slot at the same time, although
  the slots themselves are not atomic.\<close>

theorem spsc_no_data_race:
  assumes "reach (sc_init n) sc_step s"
    and "prod_slot (sp_mask s) (sc_prod s) = Some i" and "cons_slot (sp_mask s) (sc_cons s) = Some j"
  shows "i \<noteq> j"
proof -
  obtain mid where inv: "sc_inv_for mid s"
    using sc.inv_reach [OF assms(1)] unfolding sc_inv_def by blast
  obtain a b where "sp_count s \<le> a" "a < length (sp_buffer s)" "i = slot (sp_mask s) (sp_head s + of_nat a)"
    "b < sp_count s" "j = slot (sp_mask s) (sp_head s + of_nat b)"
    using prod_slot_offset [OF inv assms(2)] cons_slot_offset [OF inv assms(3)] by blast
  then show ?thesis
    using slot_inj [of "sp_capacity s" a b "sp_head s"] sc_inv_forD(1) [OF inv] by (simp add: sp_shape_def)
qed

text \<open>The witnesses: the producer publishes 7 and is about to write 8 while the consumer is about to
  take 7.\<close>

lemma replicate_2: "replicate 2 x = [x, x]"
  by (simp add: numeral_2_eq_2)

lemma sc_example:
  "\<exists>s :: nat spsc_sys. reach (sc_init 2) sc_step s \<and> sc_sent s = [7] \<and> sc_received s = [] \<and>
     prod_slot (sp_mask s) (sc_prod s) = Some 1 \<and> cons_slot (sp_mask s) (sc_cons s) = Some 0"
proof -
  let ?s0 = "\<lparr>sp_head = 0, sp_tail = 0, sp_buffer = [None, None], sp_mask = 1,
      sc_prod = P_idle, sc_cons = C_idle, sc_sent = [], sc_received = []\<rparr> :: nat spsc_sys"
  have "nextPowerOfTwoChecked 2 = Inr 2" by code_simp
  then have "reach (sc_init 2) sc_step ?s0"
    by (intro reach_init) (simp add: sc_init_def replicate_2)
  from reach_step [OF this sc_step.push_call [of _ 7]]
  have "reach (sc_init 2) sc_step (?s0\<lparr>sc_prod := P_push 7 0\<rparr>)" by simp
  from reach_step [OF this sc_step.push_room [of _ 7 0]]
  have "reach (sc_init 2) sc_step (?s0\<lparr>sc_prod := P_emplace 7 0\<rparr>)" by (simp add: sp_capacity_def)
  from reach_step [OF this sc_step.push_emplace [of _ 7 0]]
  have "reach (sc_init 2) sc_step (?s0\<lparr>sp_buffer := [Some 7, None], sc_prod := P_publish 7 0\<rparr>)"
    by (simp add: slot_def)
  from reach_step [OF this sc_step.push_publish [of _ 7 0]]
  have "reach (sc_init 2) sc_step (?s0\<lparr>sp_buffer := [Some 7, None], sp_tail := 1, sc_sent := [7]\<rparr>)" by simp
  from reach_step [OF this sc_step.push_call [of _ 8]]
  have "reach (sc_init 2) sc_step
      (?s0\<lparr>sp_buffer := [Some 7, None], sp_tail := 1, sc_sent := [7], sc_prod := P_push 8 1\<rparr>)" by simp
  from reach_step [OF this sc_step.push_room [of _ 8 1]]
  have "reach (sc_init 2) sc_step
      (?s0\<lparr>sp_buffer := [Some 7, None], sp_tail := 1, sc_sent := [7], sc_prod := P_emplace 8 1\<rparr>)"
    by (simp add: sp_capacity_def word_le_nat_alt)
  from reach_step [OF this sc_step.pop_call]
  have "reach (sc_init 2) sc_step
      (?s0\<lparr>sp_buffer := [Some 7, None], sp_tail := 1, sc_sent := [7], sc_prod := P_emplace 8 1,
           sc_cons := C_pop 0\<rparr>)" by simp
  from reach_step [OF this sc_step.pop_some [of _ 0]]
  have "reach (sc_init 2) sc_step
      (?s0\<lparr>sp_buffer := [Some 7, None], sp_tail := 1, sc_sent := [7], sc_prod := P_emplace 8 1,
           sc_cons := C_read 0\<rparr>)" by simp
  then show ?thesis by (intro exI conjI) (assumption, simp_all add: slot_def)
qed

theorem spsc_concurrent_fifo_witness:
  "\<exists>s :: nat spsc_sys. reach (sc_init 2) sc_step s \<and> sc_sent s = [7] \<and>
     (\<exists>pending. sc_sent s = sc_received s @ pending \<and> length pending = unat (sp_tail s - sp_head s))"
proof -
  obtain s :: "nat spsc_sys" where s: "reach (sc_init 2) sc_step s" "sc_sent s = [7]"
    using sc_example by blast
  then show ?thesis using spsc_concurrent_fifo [OF s(1)] by blast
qed

theorem spsc_no_data_race_witness:
  "\<exists>s :: nat spsc_sys. reach (sc_init 2) sc_step s \<and>
     (\<exists>i j. prod_slot (sp_mask s) (sc_prod s) = Some i \<and> cons_slot (sp_mask s) (sc_cons s) = Some j \<and> i \<noteq> j)"
proof -
  obtain s :: "nat spsc_sys" where s: "reach (sc_init 2) sc_step s"
      "prod_slot (sp_mask s) (sc_prod s) = Some 1" "cons_slot (sp_mask s) (sc_cons s) = Some 0"
    using sc_example by blast
  then show ?thesis using spsc_no_data_race [OF s] by blast
qed

end
