(* ===== verification/Lock_Free_Queue.thy ===== *)
theory Lock_Free_Queue
  imports Next_Power_Of_Two Interfaces
begin

text \<open>
  \<open>include/LockFreeQueue.h\<close>: Vyukov's bounded queue with a sequence number per cell. This theory
  holds the data, the member functions as one thread executes them, and the FIFO contract for
  capacities of at least 2; for capacity 1 the algorithm is wrong, which is proved too.
  \<open>LFQ_Concurrent\<close> lets any number of threads run \<open>push\<close> and \<open>pop\<close> at once.

  The retry loops take fuel: without interference one iteration decides, so 1 is enough
  (\<open>lf_push_seq\<close>, \<open>lf_pop_seq\<close>), and where the loop does not end, no amount is. \<open>intptr_t\<close>
  differences are integers, as signed overflow is undefined in C++.
\<close>

section \<open>State and operations\<close>

record 'a lcell =
  c_seq :: u64
  c_data :: 'a

record 'a lfq =
  lf_tail :: size_t
  lf_head :: size_t
  lf_cells :: "'a lcell list"
  lf_mask :: size_t

text \<open>\<open>d\<close> is the default-constructed \<open>T\<close>.\<close>

definition lf_new :: "'a \<Rightarrow> size_t \<Rightarrow> exn + 'a lfq" where
  "lf_new d capacity =
     (case nextPowerOfTwoChecked capacity of
        Inl e \<Rightarrow> Inl e
      | Inr c \<Rightarrow> Inr \<lparr>lf_tail = 0, lf_head = 0,
                     lf_cells = map (\<lambda>i. \<lparr>c_seq = of_nat i, c_data = d\<rparr>) [0..<unat c],
                     lf_mask = c - 1\<rparr>)"

definition lf_cell :: "('a, 'z) lfq_scheme \<Rightarrow> size_t \<Rightarrow> 'a lcell" where
  "lf_cell q pos = lf_cells q ! slot (lf_mask q) pos"

text \<open>\<open>static_cast<intptr_t>(seq) - static_cast<intptr_t>(pos)\<close>\<close>

definition seq_dif :: "u64 \<Rightarrow> size_t \<Rightarrow> int" where
  "seq_dif s pos = sint s - sint pos"

text \<open>The claim loop of \<open>push\<close>: the claimed position, or \<open>Some None\<close> for a full queue. A failed
  compare-exchange stores the current tail in \<open>pos\<close>.\<close>

fun lf_push_loop :: "nat \<Rightarrow> size_t \<Rightarrow> 'a lfq \<Rightarrow> (size_t \<times> 'a lfq) option option" where
  "lf_push_loop 0 pos q = None"
| "lf_push_loop (Suc n) pos q =
     (let dif = seq_dif (c_seq (lf_cell q pos)) pos in
      if dif = 0 then
        (if lf_tail q = pos then Some (Some (pos, q\<lparr>lf_tail := pos + 1\<rparr>))
         else lf_push_loop n (lf_tail q) q)
      else if dif < 0 then Some None
      else lf_push_loop n (lf_tail q) q)"

definition lf_push :: "nat \<Rightarrow> 'a \<Rightarrow> 'a lfq \<Rightarrow> (bool \<times> 'a lfq) option" where
  "lf_push fuel item q =
     (case lf_push_loop fuel (lf_tail q) q of
        None \<Rightarrow> None
      | Some None \<Rightarrow> Some (False, q)
      | Some (Some (pos, q')) \<Rightarrow>
          Some (True, q'\<lparr>lf_cells := (lf_cells q')[slot (lf_mask q') pos := \<lparr>c_seq = pos + 1, c_data = item\<rparr>]\<rparr>))"

fun lf_pop_loop :: "nat \<Rightarrow> size_t \<Rightarrow> 'a lfq \<Rightarrow> (size_t \<times> 'a lfq) option option" where
  "lf_pop_loop 0 pos q = None"
| "lf_pop_loop (Suc n) pos q =
     (let dif = seq_dif (c_seq (lf_cell q pos)) (pos + 1) in
      if dif = 0 then
        (if lf_head q = pos then Some (Some (pos, q\<lparr>lf_head := pos + 1\<rparr>))
         else lf_pop_loop n (lf_head q) q)
      else if dif < 0 then Some None
      else lf_pop_loop n (lf_head q) q)"

definition lf_pop :: "nat \<Rightarrow> 'a lfq \<Rightarrow> ('a option \<times> 'a lfq) option" where
  "lf_pop fuel q =
     (case lf_pop_loop fuel (lf_head q) q of
        None \<Rightarrow> None
      | Some None \<Rightarrow> Some (None, q)
      | Some (Some (pos, q')) \<Rightarrow>
          Some (Some (c_data (lf_cell q' pos)),
                q'\<lparr>lf_cells := (lf_cells q')[slot (lf_mask q') pos :=
                     (lf_cell q' pos)\<lparr>c_seq := pos + of_nat (length (lf_cells q'))\<rparr>]\<rparr>))"

definition lf_full :: "'a lfq \<Rightarrow> bool" where
  "lf_full q \<longleftrightarrow> sint (of_nat (length (lf_cells q)) :: size_t) \<le> sint (lf_tail q) - sint (lf_head q)"

definition lf_empty :: "'a lfq \<Rightarrow> bool" where
  "lf_empty q \<longleftrightarrow> sint (lf_tail q) \<le> sint (lf_head q)"

section \<open>Invariant\<close>

definition lf_cap :: "('a, 'z) lfq_scheme \<Rightarrow> nat" where
  "lf_cap q = length (lf_cells q)"

definition lf_shape :: "('a, 'z) lfq_scheme \<Rightarrow> bool" where
  "lf_shape q \<longleftrightarrow> is_cap (of_nat (lf_cap q)) \<and> lf_cap q = unat (of_nat (lf_cap q) :: size_t) \<and>
     lf_mask q = of_nat (lf_cap q) - 1"

lemma lf_shape_slot: "lf_shape q \<Longrightarrow> slot (lf_mask q) w = unat w mod lf_cap q"
  by (metis lf_shape_def slot_mod)

lemma lf_shape_cap: "lf_shape q \<Longrightarrow> 0 < lf_cap q \<and> lf_cap q \<le> 2 ^ 63"
  by (metis is_cap_nonzero is_cap_le lf_shape_def)

text \<open>
  Positions are counted from the creation of the queue. With \<open>k\<close> more operations to come, no
  counter reaches \<open>2 ^ 63\<close>. The cell of a position between head and tail carries its number plus
  one (data ready), the cell of a position in the next round up to \<open>head + capacity\<close> its number
  (free).
\<close>

definition lf_ok :: "nat \<Rightarrow> 'a lfq \<Rightarrow> bool" where
  "lf_ok k q \<longleftrightarrow>
     lf_shape q \<and> 2 \<le> lf_cap q \<and>
     unat (lf_head q) \<le> unat (lf_tail q) \<and> unat (lf_tail q) \<le> unat (lf_head q) + lf_cap q \<and>
     unat (lf_tail q) + lf_cap q + k < 2 ^ 63 \<and>
     (\<forall>p. unat (lf_head q) \<le> p \<and> p < unat (lf_tail q) \<longrightarrow>
        unat (c_seq (lf_cells q ! (p mod lf_cap q))) = p + 1) \<and>
     (\<forall>p. unat (lf_tail q) \<le> p \<and> p < unat (lf_head q) + lf_cap q \<longrightarrow>
        unat (c_seq (lf_cells q ! (p mod lf_cap q))) = p)"

definition lf_list :: "'a lfq \<Rightarrow> 'a list" where
  "lf_list q = map (\<lambda>p. c_data (lf_cells q ! (p mod lf_cap q))) [unat (lf_head q)..<unat (lf_tail q)]"

lemma mod_round_inj:
  fixes p q c h :: nat
  assumes "h \<le> p" "p < h + c" "h \<le> q" "q < h + c" "p mod c = q mod c"
  shows "p = q"
proof -
  have "p - h = q - h" by (rule mod_window_inj [of _ c _ h]) (use assms in auto)
  then show ?thesis using assms by linarith
qed

lemma seq_dif_nat:
  "unat s < 2 ^ 63 \<Longrightarrow> unat pos < 2 ^ 63 \<Longrightarrow> seq_dif s pos = int (unat s) - int (unat pos)"
  by (simp add: seq_dif_def sint_eq_unat)

lemma lf_new_ok:
  assumes "lf_new d n = Inr q" "2 \<le> unat n" "2 * lf_cap q + k < 2 ^ 63"
  shows "lf_ok k q" "lf_list q = []" "unat n \<le> lf_cap q"
proof -
  obtain c where c: "nextPowerOfTwoChecked n = Inr c"
    and q: "q = \<lparr>lf_tail = 0, lf_head = 0, lf_cells = map (\<lambda>i. \<lparr>c_seq = of_nat i, c_data = d\<rparr>) [0..<unat c],
                 lf_mask = c - 1\<rparr>"
    using assms(1) by (auto simp: lf_new_def split: sum.splits)
  note cap = checked_is_cap [OF c]
  have lc: "lf_cap q = unat c" by (simp add: q lf_cap_def)
  then have "lf_shape q" using cap by (simp add: lf_shape_def q)
  moreover have "unat (c_seq (lf_cells q ! p)) = p" if "p < unat c" for p
    using that is_cap_lt [OF cap(1)] by (simp add: q unat_of_nat)
  ultimately show "lf_ok k q" "lf_list q = []" "unat n \<le> lf_cap q"
    using lc cap assms(2,3) by (simp_all add: lf_ok_def lf_list_def) (simp_all add: q)
qed

section \<open>The operations on the contents\<close>

lemma lf_okD:
  assumes "lf_ok k q"
  shows "lf_shape q" "2 \<le> lf_cap q" "unat (lf_head q) \<le> unat (lf_tail q)"
    "unat (lf_tail q) \<le> unat (lf_head q) + lf_cap q" "unat (lf_tail q) + lf_cap q + k < 2 ^ 63"
    "unat (lf_head q) \<le> p \<Longrightarrow> p < unat (lf_tail q) \<Longrightarrow> unat (c_seq (lf_cells q ! (p mod lf_cap q))) = p + 1"
    "unat (lf_tail q) \<le> p \<Longrightarrow> p < unat (lf_head q) + lf_cap q \<Longrightarrow>
      unat (c_seq (lf_cells q ! (p mod lf_cap q))) = p"
  using assms unfolding lf_ok_def by - (elim conjE; simp)+

lemma lf_list_length: "length (lf_list q) = unat (lf_tail q) - unat (lf_head q)"
  by (simp add: lf_list_def)

lemma lf_ok_less: "lf_ok (Suc k) q \<Longrightarrow> lf_ok k q"
  by (simp add: lf_ok_def)

lemma lf_cell_mod: "lf_ok k q \<Longrightarrow> lf_cell q pos = lf_cells q ! (unat pos mod lf_cap q)"
  by (simp add: lf_cell_def lf_shape_slot [OF lf_okD(1)])

lemma lf_push_full:
  assumes ok: "lf_ok k q" and full: "unat (lf_tail q) = unat (lf_head q) + lf_cap q"
  shows "lf_push (Suc n) x q = Some (False, q)"
proof -
  have "unat (c_seq (lf_cell q (lf_tail q))) = unat (lf_head q) + 1"
    using lf_okD(6) [OF ok, of "unat (lf_head q)"] lf_okD(2) [OF ok] full by (simp add: lf_cell_mod [OF ok])
  then have "seq_dif (c_seq (lf_cell q (lf_tail q))) (lf_tail q) < 0"
    using lf_okD(2,5) [OF ok] full by (simp add: seq_dif_nat)
  then show ?thesis by (simp add: lf_push_def Let_def)
qed

lemma lf_pop_empty:
  assumes ok: "lf_ok k q" and empty: "unat (lf_tail q) = unat (lf_head q)"
  shows "lf_pop (Suc n) q = Some (None, q)"
proof -
  have "unat (c_seq (lf_cell q (lf_head q))) = unat (lf_head q)"
    using lf_okD(7) [OF ok, of "unat (lf_head q)"] lf_okD(2) [OF ok] empty by (simp add: lf_cell_mod [OF ok])
  then have "seq_dif (c_seq (lf_cell q (lf_head q))) (lf_head q + 1) < 0"
    using lf_okD(2,5) [OF ok] empty by (simp add: seq_dif_nat unat_plus_1)
  then show ?thesis by (simp add: lf_pop_def Let_def)
qed

lemma lf_push_room:
  assumes ok: "lf_ok (Suc k) q" and room: "unat (lf_tail q) < unat (lf_head q) + lf_cap q"
  shows "\<exists>q'. lf_push (Suc n) x q = Some (True, q') \<and> lf_ok k q' \<and> lf_list q' = lf_list q @ [x] \<and>
    lf_cap q' = lf_cap q"
proof -
  let ?T = "unat (lf_tail q)" and ?H = "unat (lf_head q)" and ?c = "lf_cap q"
  let ?j = "?T mod ?c"
  let ?q = "q\<lparr>lf_tail := lf_tail q + 1,
              lf_cells := (lf_cells q)[?j := \<lparr>c_seq = lf_tail q + 1, c_data = x\<rparr>]\<rparr>"
  note d = lf_okD [OF ok]
  have c0: "0 < ?c" using d(2) by linarith
  have len: "length (lf_cells q) = ?c" by (simp add: lf_cap_def)
  have T1: "unat (lf_tail q + 1) = ?T + 1" using d(5) by (simp add: unat_plus_1)
  have seq: "unat (c_seq (lf_cell q (lf_tail q))) = ?T"
    using d(7) [of ?T] room by (simp add: lf_cell_mod [OF ok])
  then have "seq_dif (c_seq (lf_cell q (lf_tail q))) (lf_tail q) = 0"
    using d(5) by (simp add: seq_dif_nat)
  then have run: "lf_push (Suc n) x q = Some (True, ?q)"
    by (simp add: lf_push_def Let_def lf_shape_slot [OF d(1)])
  have other: "lf_cells ?q ! (p mod ?c) = lf_cells q ! (p mod ?c)"
    if "?H \<le> p" "p < ?H + ?c" "p \<noteq> ?T" for p
  proof -
    have "?T mod ?c \<noteq> p mod ?c" using mod_round_inj [of ?H ?T ?c p] that room d(3) by auto
    then show ?thesis by simp
  qed
  have new: "lf_cells ?q ! ?j = \<lparr>c_seq = lf_tail q + 1, c_data = x\<rparr>" using c0 len by simp
  have cap: "lf_cap ?q = ?c" by (simp add: lf_cap_def)
  have shape: "lf_shape ?q" using d(1) by (simp add: lf_shape_def lf_cap_def)
  have "unat (c_seq (lf_cells ?q ! (p mod ?c))) = p + 1" if "?H \<le> p" "p < ?T + 1" for p
    using other [of p] new d(6) [of p] T1 that room by (cases "p = ?T") auto
  moreover have "unat (c_seq (lf_cells ?q ! (p mod ?c))) = p" if "?T + 1 \<le> p" "p < ?H + ?c" for p
    using other [of p] d(3) d(7) [of p] that by simp
  ultimately have ok': "lf_ok k ?q"
    using d(2-5) room T1 shape unfolding lf_ok_def cap by simp
  have "map (\<lambda>p. c_data (lf_cells ?q ! (p mod ?c))) [?H..<?T] =
      map (\<lambda>p. c_data (lf_cells q ! (p mod ?c))) [?H..<?T]"
    using other room by (intro map_cong) auto
  then have "lf_list ?q = lf_list q @ [x]"
    using T1 new d(3) unfolding lf_list_def cap by simp
  then show ?thesis using run ok' cap by blast
qed

lemma lf_pop_some:
  assumes ok: "lf_ok (Suc k) q" and some: "unat (lf_head q) < unat (lf_tail q)"
  shows "\<exists>q'. lf_pop (Suc n) q = Some (Some (hd (lf_list q)), q') \<and> lf_ok k q' \<and>
    lf_list q' = tl (lf_list q) \<and> lf_cap q' = lf_cap q"
proof -
  let ?T = "unat (lf_tail q)" and ?H = "unat (lf_head q)" and ?c = "lf_cap q"
  let ?j = "?H mod ?c"
  let ?q = "q\<lparr>lf_head := lf_head q + 1,
              lf_cells := (lf_cells q)[?j := (lf_cells q ! ?j)\<lparr>c_seq := lf_head q + of_nat ?c\<rparr>]\<rparr>"
  note d = lf_okD [OF ok]
  have c0: "0 < ?c" using d(2) by linarith
  have len: "length (lf_cells q) = ?c" by (simp add: lf_cap_def)
  have H1: "unat (lf_head q + 1) = ?H + 1" using d(3,5) by (simp add: unat_plus_1)
  have Hc: "unat (lf_head q + of_nat ?c) = ?H + ?c" using d(3,5) by (simp add: unat_plus_nat)
  have seq: "unat (c_seq (lf_cell q (lf_head q))) = ?H + 1"
    using d(6) [of ?H] some by (simp add: lf_cell_mod [OF ok])
  then have "seq_dif (c_seq (lf_cell q (lf_head q))) (lf_head q + 1) = 0"
    using d(3,5) H1 by (simp add: seq_dif_nat)
  then have run: "lf_pop (Suc n) q = Some (Some (c_data (lf_cells q ! ?j)), ?q)"
    using len by (simp add: lf_pop_def Let_def lf_cell_def lf_shape_slot [OF d(1)])
  have other: "lf_cells ?q ! (p mod ?c) = lf_cells q ! (p mod ?c)"
    if "?H < p" "p < ?H + ?c" for p
  proof -
    have "?H mod ?c \<noteq> p mod ?c" using mod_round_inj [of ?H ?H ?c p] that c0 by auto
    then show ?thesis by simp
  qed
  have new: "c_seq (lf_cells ?q ! ((?H + ?c) mod ?c)) = lf_head q + of_nat ?c" using c0 len by simp
  have cap: "lf_cap ?q = ?c" by (simp add: lf_cap_def)
  have shape: "lf_shape ?q" using d(1) by (simp add: lf_shape_def lf_cap_def)
  have "unat (c_seq (lf_cells ?q ! (p mod ?c))) = p + 1" if "?H + 1 \<le> p" "p < ?T" for p
    using other [of p] d(6) [of p] d(4) that by simp
  moreover have "unat (c_seq (lf_cells ?q ! (p mod ?c))) = p" if "?T \<le> p" "p < ?H + 1 + ?c" for p
    using other [of p] new Hc d(7) [of p] some that by (cases "p = ?H + ?c") auto
  ultimately have ok': "lf_ok k ?q"
    using d(2-5) some H1 shape unfolding lf_ok_def cap by simp
  have l: "[?H..<?T] = ?H # [Suc ?H..<?T]" using some by (simp add: upt_conv_Cons)
  have "map (\<lambda>p. c_data (lf_cells ?q ! (p mod ?c))) [Suc ?H..<?T] =
      map (\<lambda>p. c_data (lf_cells q ! (p mod ?c))) [Suc ?H..<?T]"
    using other d(4) by (intro map_cong) auto
  then have "lf_list ?q = tl (lf_list q)" "hd (lf_list q) = c_data (lf_cells q ! ?j)"
    using H1 unfolding lf_list_def cap l by simp_all
  then show ?thesis using run ok' cap by auto
qed

lemma lf_push_seq: "lf_ok (Suc k) q \<Longrightarrow> \<exists>b q'. lf_push (Suc n) x q = Some (b, q')"
  using lf_push_room [of k q n x] lf_push_full [of "Suc k" q n x] lf_okD(4) [of "Suc k" q]
  by (cases "unat (lf_tail q) < unat (lf_head q) + lf_cap q") auto

lemma lf_pop_seq: "lf_ok (Suc k) q \<Longrightarrow> \<exists>v q'. lf_pop (Suc n) q = Some (v, q')"
  using lf_pop_some [of k q n] lf_pop_empty [of "Suc k" q n] lf_okD(3) [of "Suc k" q]
  by (cases "unat (lf_head q) < unat (lf_tail q)") auto

section \<open>The bounded FIFO contract\<close>

fun lf_apply :: "'a qop \<Rightarrow> 'a lfq \<Rightarrow> ('a qres \<times> 'a lfq) option" where
  "lf_apply (Enq x) q = map_option (\<lambda>(b, q'). (Accepted b, q')) (lf_push 1 x q)"
| "lf_apply Deq q = map_option (\<lambda>(v, q'). (Got v, q')) (lf_pop 1 q)"

definition lf_abs :: "'a lfq \<Rightarrow> nat \<times> 'a list" where
  "lf_abs q = (lf_cap q, lf_list q)"

lemma lf_simulation:
  assumes "lf_ok (Suc k) q"
  shows "\<exists>q'. lf_apply x q = Some (fst (fifo_step x (lf_abs q)), q') \<and>
    lf_abs q' = snd (fifo_step x (lf_abs q)) \<and> lf_ok k q'"
proof (cases x)
  case (Enq a)
  then show ?thesis
    using lf_push_room [OF assms, of 0 a] lf_push_full [OF assms, of 0 a] lf_okD(3,4) [OF assms]
      lf_ok_less [OF assms] lf_list_length [of q]
    by (cases "unat (lf_tail q) < unat (lf_head q) + lf_cap q") (auto simp: lf_abs_def)
next
  case Deq
  show ?thesis
  proof (cases "unat (lf_head q) < unat (lf_tail q)")
    case True
    then obtain y ys where "lf_list q = y # ys"
      using lf_list_length [of q] by (cases "lf_list q") auto
    then show ?thesis using Deq lf_pop_some [OF assms True, of 0] by (auto simp: lf_abs_def)
  next
    case False
    then have "unat (lf_tail q) = unat (lf_head q)" using lf_okD(3) [OF assms] by simp
    moreover from this have "lf_list q = []" by (simp add: lf_list_def)
    ultimately show ?thesis
      using Deq lf_pop_empty [OF assms, of 0] lf_ok_less [OF assms] by (auto simp: lf_abs_def)
  qed
qed

interpretation lf: bounded_fifo lf_apply lf_abs lf_ok
proof
  fix q :: "'a lfq" and x k
  assume "lf_ok (Suc k) q"
  then show "\<exists>q'. lf_apply x q = Some (fst (fifo_step x (lf_abs q)), q') \<and>
      lf_abs q' = snd (fifo_step x (lf_abs q)) \<and> lf_ok k q'"
    by (rule lf_simulation)
next
  fix q :: "'a lfq" and k
  assume "lf_ok k q"
  then show "length (snd (lf_abs q)) \<le> fst (lf_abs q)"
    using lf_okD(3,4) [of k q] lf_list_length [of q] by (simp add: lf_abs_def)
qed

section \<open>Capacity 1\<close>

text \<open>
  A requested capacity of 0 or 1 gives a ring of one cell, where the number of a filled cell,
  \<open>pos + 1\<close>, is also the number that means ``free for position \<open>pos + 1\<close>''.
\<close>

lemma lf_pop_loop_stuck:
  assumes "seq_dif (c_seq (lf_cell q (lf_head q))) (lf_head q + 1) > 0"
  shows "lf_pop_loop n (lf_head q) q = None"
  using assms by (induction n) (auto simp: Let_def)

section \<open>Properties\<close>

text \<open>Used by one thread at a time, a new \<open>LockFreeQueue\<close> of requested capacity at least 2
  answers every sequence of \<open>push\<close> and \<open>pop\<close> as a FIFO queue of some capacity at least the
  requested one, each call deciding in one iteration of its loop, as long as no counter reaches
  \<open>2 ^ 63\<close>.\<close>

theorem lock_free_queue_is_bounded_fifo:
  assumes "lf_new d n = Inr q" and "2 \<le> unat n" and "2 * lf_cap q + length ops < 2 ^ 63"
  shows "unat n \<le> lf_cap q \<and>
    map_option fst (run_ops lf_apply ops q) = Some (fst (run_spec fifo_step ops (lf_cap q, [])))"
  using lf.run_results [OF lf_new_ok(1) [OF assms]] lf_new_ok(2,3) [OF assms] by (simp add: lf_abs_def)

theorem lock_free_queue_is_bounded_fifo_witness:
  "\<exists>q. lf_new (0::nat) 2 = Inr q \<and>
     map_option fst (run_ops lf_apply [Enq 1, Enq 2, Enq 3, Deq, Deq, Deq] q) =
       Some [Accepted True, Accepted True, Accepted False, Got (Some 1), Got (Some 2), Got None]"
proof -
  have "nextPowerOfTwoChecked 2 = Inr 2" by code_simp
  then obtain q where q: "lf_new (0::nat) 2 = Inr q" "lf_cap q = 2"
    by (auto simp: lf_new_def lf_cap_def)
  show ?thesis
    using lock_free_queue_is_bounded_fifo [OF q(1), of "[Enq 1, Enq 2, Enq 3, Deq, Deq, Deq]"] q by auto
qed

text \<open>C10: with capacity 1 the queue is wrong: the second \<open>push\<close> is accepted although the queue is
  full and overwrites the first element, and the following \<open>pop\<close> never returns, however long
  it runs.\<close>

theorem lock_free_queue_capacity_1:
  assumes "lf_new d 1 = Inr q"
  shows "\<exists>q1 q2. lf_push 1 x q = Some (True, q1) \<and> lf_push 1 y q1 = Some (True, q2) \<and>
    c_data (lf_cell q2 (lf_head q2)) = y \<and> (\<forall>fuel. lf_pop fuel q2 = None)"
proof -
  have "nextPowerOfTwoChecked 1 = Inr 1" by code_simp
  then have q: "q = \<lparr>lf_tail = 0, lf_head = 0, lf_cells = [\<lparr>c_seq = 0, c_data = d\<rparr>], lf_mask = 0\<rparr>"
    using assms by (simp add: lf_new_def)
  let ?q1 = "\<lparr>lf_tail = 1, lf_head = 0, lf_cells = [\<lparr>c_seq = 1, c_data = x\<rparr>], lf_mask = 0\<rparr>"
  let ?q2 = "\<lparr>lf_tail = 2, lf_head = 0, lf_cells = [\<lparr>c_seq = 2, c_data = y\<rparr>], lf_mask = 0\<rparr>"
  have "lf_push 1 x q = Some (True, ?q1)"
    by (simp add: q lf_push_def Let_def lf_cell_def slot_def seq_dif_def)
  moreover have "lf_push 1 y ?q1 = Some (True, ?q2)"
    by (simp add: lf_push_def Let_def lf_cell_def slot_def seq_dif_def)
  moreover have "lf_pop fuel ?q2 = None" for fuel
    using lf_pop_loop_stuck [of ?q2 fuel] by (simp add: lf_pop_def lf_cell_def slot_def seq_dif_def)
  ultimately show ?thesis by (intro exI [of _ ?q1] exI [of _ ?q2]) (simp add: lf_cell_def slot_def)
qed

theorem lock_free_queue_capacity_1_witness:
  "\<exists>q q1 q2. lf_new (0::nat) 1 = Inr q \<and> lf_push 1 5 q = Some (True, q1) \<and> lf_push 1 6 q1 = Some (True, q2) \<and>
     (\<forall>fuel. lf_pop fuel q2 = None)"
proof -
  obtain q where q: "lf_new (0::nat) 1 = Inr q"
    using checked_total [of 1] by (auto simp: lf_new_def)
  then show ?thesis using lock_free_queue_capacity_1 [OF q, of 5 6] by blast
qed

end
