(* ===== verification/LFQ_Concurrent.thy ===== *)
theory LFQ_Concurrent
  imports Lock_Free_Queue
begin

text \<open>
  \<open>LockFreeQueue::push\<close> and \<open>LockFreeQueue::pop\<close> run by any number of threads at once. A step is
  one atomic access of one thread, or its access to the data of the cell it has claimed; the
  memory is sequentially consistent. \<open>compare_exchange_weak\<close> may fail spuriously.
\<close>

section \<open>Threads and steps\<close>

text \<open>Where a thread stands, with its local \<open>item\<close> and \<open>pos\<close>.\<close>

datatype 'a lq_pc =
    Q_idle
  | Push_seq 'a size_t          \<comment> \<open>about to load the cell's sequence number\<close>
  | Push_cas 'a size_t          \<comment> \<open>\<open>dif == 0\<close>\<close>
  | Push_reload 'a              \<comment> \<open>\<open>dif > 0\<close>\<close>
  | Push_write 'a size_t        \<comment> \<open>position claimed\<close>
  | Push_publish 'a size_t      \<comment> \<open>data written\<close>
  | Pop_seq size_t
  | Pop_cas size_t
  | Pop_reload
  | Pop_read size_t             \<comment> \<open>position claimed\<close>
  | Pop_publish size_t 'a       \<comment> \<open>data moved out\<close>

text \<open>\<open>lq_pushed\<close> lists the items of the claimed pushes by position and \<open>lq_popped\<close> the completed
  pops with their positions; no step reads them.\<close>

record 'a lq_sys = "'a lfq" +
  lq_pc :: "nat \<Rightarrow> 'a lq_pc"
  lq_pushed :: "'a list"
  lq_popped :: "(nat \<times> 'a) list"

definition lq_init :: "'a \<Rightarrow> size_t \<Rightarrow> 'a lq_sys \<Rightarrow> bool" where
  "lq_init d capacity s \<longleftrightarrow>
     (\<exists>q. lf_new d capacity = Inr q \<and>
       s = \<lparr>lf_tail = lf_tail q, lf_head = lf_head q, lf_cells = lf_cells q, lf_mask = lf_mask q,
            lq_pc = (\<lambda>_. Q_idle), lq_pushed = [], lq_popped = []\<rparr>)"

inductive lq_step :: "'a lq_sys \<Rightarrow> 'a lq_sys \<Rightarrow> bool" where
  push_call: "lq_pc s t = Q_idle \<Longrightarrow>
    lq_step s (s\<lparr>lq_pc := (lq_pc s)(t := Push_seq x (lf_tail s))\<rparr>)"
| push_free: "lq_pc s t = Push_seq x pos \<Longrightarrow> seq_dif (c_seq (lf_cell s pos)) pos = 0 \<Longrightarrow>
    lq_step s (s\<lparr>lq_pc := (lq_pc s)(t := Push_cas x pos)\<rparr>)"
| push_full: "lq_pc s t = Push_seq x pos \<Longrightarrow> seq_dif (c_seq (lf_cell s pos)) pos < 0 \<Longrightarrow>
    lq_step s (s\<lparr>lq_pc := (lq_pc s)(t := Q_idle)\<rparr>)"
| push_behind: "lq_pc s t = Push_seq x pos \<Longrightarrow> seq_dif (c_seq (lf_cell s pos)) pos > 0 \<Longrightarrow>
    lq_step s (s\<lparr>lq_pc := (lq_pc s)(t := Push_reload x)\<rparr>)"
| push_reload: "lq_pc s t = Push_reload x \<Longrightarrow>
    lq_step s (s\<lparr>lq_pc := (lq_pc s)(t := Push_seq x (lf_tail s))\<rparr>)"
| push_claim: "lq_pc s t = Push_cas x pos \<Longrightarrow> lf_tail s = pos \<Longrightarrow>
    lq_step s (s\<lparr>lf_tail := pos + 1, lq_pushed := lq_pushed s @ [x],
                lq_pc := (lq_pc s)(t := Push_write x pos)\<rparr>)"
| push_cas_fails: "lq_pc s t = Push_cas x pos \<Longrightarrow>
    lq_step s (s\<lparr>lq_pc := (lq_pc s)(t := Push_seq x (lf_tail s))\<rparr>)"
| push_write: "lq_pc s t = Push_write x pos \<Longrightarrow>
    lq_step s (s\<lparr>lf_cells := (lf_cells s)[slot (lf_mask s) pos := (lf_cell s pos)\<lparr>c_data := x\<rparr>],
                lq_pc := (lq_pc s)(t := Push_publish x pos)\<rparr>)"
| push_publish: "lq_pc s t = Push_publish x pos \<Longrightarrow>
    lq_step s (s\<lparr>lf_cells := (lf_cells s)[slot (lf_mask s) pos := (lf_cell s pos)\<lparr>c_seq := pos + 1\<rparr>],
                lq_pc := (lq_pc s)(t := Q_idle)\<rparr>)"
| pop_call: "lq_pc s t = Q_idle \<Longrightarrow>
    lq_step s (s\<lparr>lq_pc := (lq_pc s)(t := Pop_seq (lf_head s))\<rparr>)"
| pop_ready: "lq_pc s t = Pop_seq pos \<Longrightarrow> seq_dif (c_seq (lf_cell s pos)) (pos + 1) = 0 \<Longrightarrow>
    lq_step s (s\<lparr>lq_pc := (lq_pc s)(t := Pop_cas pos)\<rparr>)"
| pop_empty: "lq_pc s t = Pop_seq pos \<Longrightarrow> seq_dif (c_seq (lf_cell s pos)) (pos + 1) < 0 \<Longrightarrow>
    lq_step s (s\<lparr>lq_pc := (lq_pc s)(t := Q_idle)\<rparr>)"
| pop_behind: "lq_pc s t = Pop_seq pos \<Longrightarrow> seq_dif (c_seq (lf_cell s pos)) (pos + 1) > 0 \<Longrightarrow>
    lq_step s (s\<lparr>lq_pc := (lq_pc s)(t := Pop_reload)\<rparr>)"
| pop_reload: "lq_pc s t = Pop_reload \<Longrightarrow>
    lq_step s (s\<lparr>lq_pc := (lq_pc s)(t := Pop_seq (lf_head s))\<rparr>)"
| pop_claim: "lq_pc s t = Pop_cas pos \<Longrightarrow> lf_head s = pos \<Longrightarrow>
    lq_step s (s\<lparr>lf_head := pos + 1, lq_pc := (lq_pc s)(t := Pop_read pos)\<rparr>)"
| pop_cas_fails: "lq_pc s t = Pop_cas pos \<Longrightarrow>
    lq_step s (s\<lparr>lq_pc := (lq_pc s)(t := Pop_seq (lf_head s))\<rparr>)"
| pop_read: "lq_pc s t = Pop_read pos \<Longrightarrow>
    lq_step s (s\<lparr>lq_pc := (lq_pc s)(t := Pop_publish pos (c_data (lf_cell s pos)))\<rparr>)"
| pop_publish: "lq_pc s t = Pop_publish pos v \<Longrightarrow>
    lq_step s (s\<lparr>lf_cells := (lf_cells s)[slot (lf_mask s) pos :=
                    (lf_cell s pos)\<lparr>c_seq := pos + of_nat (length (lf_cells s))\<rparr>],
                lq_popped := lq_popped s @ [(unat pos, v)], lq_pc := (lq_pc s)(t := Q_idle)\<rparr>)"

section \<open>The invariant\<close>

text \<open>The positions a thread has claimed and not yet published.\<close>

fun push_held :: "'a lq_pc \<Rightarrow> nat set" where
  "push_held (Push_write x pos) = {unat pos}"
| "push_held (Push_publish x pos) = {unat pos}"
| "push_held _ = {}"

fun pop_held :: "'a lq_pc \<Rightarrow> nat set" where
  "pop_held (Pop_read pos) = {unat pos}"
| "pop_held (Pop_publish pos v) = {unat pos}"
| "pop_held _ = {}"

text \<open>Positions whose element is in the queue or being moved out, and positions a push may claim.\<close>

definition occupied :: "'a lq_sys \<Rightarrow> nat set \<Rightarrow> nat set" where
  "occupied s R = {p. p < unat (lf_tail s) \<and> (unat (lf_head s) \<le> p \<or> p \<in> R)}"

definition claimable :: "'a lq_sys \<Rightarrow> nat set \<Rightarrow> nat set" where
  "claimable s R = {p. unat (lf_tail s) \<le> p \<and> p < unat (lf_head s) + lf_cap s \<and>
     \<not> (lf_cap s \<le> p \<and> p - lf_cap s \<in> R)}"

abbreviation cell_at :: "'a lq_sys \<Rightarrow> nat \<Rightarrow> 'a lcell" where
  "cell_at s p \<equiv> lf_cells s ! (p mod lf_cap s)"

text \<open>The shared state, when the pushes in flight hold the positions \<open>W\<close> and the pops in flight the
  positions \<open>R\<close>.\<close>

definition lq_core :: "'a lq_sys \<Rightarrow> nat set \<Rightarrow> nat set \<Rightarrow> bool" where
  "lq_core s W R \<longleftrightarrow>
     lf_shape s \<and> 2 \<le> lf_cap s \<and>
     unat (lf_tail s) = length (lq_pushed s) \<and> unat (lf_tail s) + lf_cap s < 2 ^ 63 \<and>
     unat (lf_head s) \<le> unat (lf_tail s) \<and> unat (lf_tail s) \<le> unat (lf_head s) + lf_cap s \<and>
     W \<subseteq> {unat (lf_head s)..<unat (lf_tail s)} \<and>
     (\<forall>p\<in>R. p < unat (lf_head s) \<and> unat (lf_tail s) \<le> p + lf_cap s) \<and>
     (\<forall>p\<in>occupied s R. unat (c_seq (cell_at s p)) = (if p \<in> W then p else p + 1) \<and>
        (p \<notin> W \<longrightarrow> c_data (cell_at s p) = lq_pushed s ! p)) \<and>
     (\<forall>p\<in>claimable s R. unat (c_seq (cell_at s p)) = p)"

definition lq_outcome :: "'a lq_sys \<Rightarrow> nat set \<Rightarrow> bool" where
  "lq_outcome s R \<longleftrightarrow>
     distinct (map fst (lq_popped s)) \<and> set (map fst (lq_popped s)) \<inter> R = {} \<and>
     set (map fst (lq_popped s)) \<union> R = {..<unat (lf_head s)} \<and>
     (\<forall>(p, v)\<in>set (lq_popped s). v = lq_pushed s ! p)"

text \<open>What a thread knows about the position in its local variable.\<close>

fun pc_ok :: "'a lq_sys \<Rightarrow> nat set \<Rightarrow> nat set \<Rightarrow> 'a lq_pc \<Rightarrow> bool" where
  "pc_ok s W R (Push_seq x pos) = (unat pos \<le> unat (lf_tail s))"
| "pc_ok s W R (Push_cas x pos) =
     (unat pos \<le> unat (lf_tail s) \<and> (unat pos = unat (lf_tail s) \<longrightarrow> unat pos \<in> claimable s R))"
| "pc_ok s W R (Push_write x pos) = (lq_pushed s ! unat pos = x)"
| "pc_ok s W R (Push_publish x pos) =
     (lq_pushed s ! unat pos = x \<and> c_data (cell_at s (unat pos)) = x)"
| "pc_ok s W R (Pop_seq pos) = (unat pos \<le> unat (lf_head s))"
| "pc_ok s W R (Pop_cas pos) =
     (unat pos \<le> unat (lf_head s) \<and>
      (unat pos = unat (lf_head s) \<longrightarrow> unat pos < unat (lf_tail s) \<and> unat pos \<notin> W))"
| "pc_ok s W R (Pop_publish pos v) = (v = lq_pushed s ! unat pos)"
| "pc_ok s W R _ = True"

definition lq_good :: "'a lq_sys \<Rightarrow> bool" where
  "lq_good s \<longleftrightarrow>
     lq_core s (held push_held (lq_pc s)) (held pop_held (lq_pc s)) \<and>
     lq_outcome s (held pop_held (lq_pc s)) \<and>
     apart push_held (lq_pc s) \<and> apart pop_held (lq_pc s) \<and>
     (\<forall>t. pc_ok s (held push_held (lq_pc s)) (held pop_held (lq_pc s)) (lq_pc s t))"

lemma lq_frame [simp]:
  "lq_core (s\<lparr>lq_pc := f\<rparr>) = lq_core s" "lq_outcome (s\<lparr>lq_pc := f\<rparr>) = lq_outcome s"
  "lq_core (s\<lparr>lq_popped := l\<rparr>) = lq_core s" "lf_cap (s\<lparr>lq_pc := f\<rparr>) = lf_cap s"
  "lf_cap (s\<lparr>lq_popped := l\<rparr>) = lf_cap s" "lf_cap (s\<lparr>lq_pushed := xs\<rparr>) = lf_cap s"
proof -
  show "lf_cap (s\<lparr>lq_pc := f\<rparr>) = lf_cap s" "lf_cap (s\<lparr>lq_popped := l\<rparr>) = lf_cap s"
    "lf_cap (s\<lparr>lq_pushed := xs\<rparr>) = lf_cap s"
    by (simp_all add: lf_cap_def)
qed (intro ext; simp add: lq_core_def lq_outcome_def lf_shape_def lf_cap_def occupied_def claimable_def)+

lemma pc_ok_frame [simp]:
  "pc_ok (s\<lparr>lq_pc := f\<rparr>) = pc_ok s" "pc_ok (s\<lparr>lq_popped := l\<rparr>) = pc_ok s"
proof -
  show "pc_ok (s\<lparr>lq_pc := f\<rparr>) = pc_ok s"
    by (intro ext; rename_tac W R p; case_tac p; simp add: claimable_def lf_cap_def)
  show "pc_ok (s\<lparr>lq_popped := l\<rparr>) = pc_ok s"
    by (intro ext; rename_tac W R p; case_tac p; simp add: claimable_def lf_cap_def)
qed

lemma lf_cap_frame [simp]:
  "lf_cap (s\<lparr>lf_tail := a\<rparr>) = lf_cap s" "lf_cap (s\<lparr>lf_head := a\<rparr>) = lf_cap s"
  "lf_cap (s\<lparr>lf_cells := (lf_cells s)[i := c]\<rparr>) = lf_cap s"
  by (simp_all add: lf_cap_def)

lemma lf_shape_frame [simp]:
  "lf_shape (s\<lparr>lf_tail := a\<rparr>) = lf_shape s" "lf_shape (s\<lparr>lf_head := a\<rparr>) = lf_shape s"
  "lf_shape (s\<lparr>lf_cells := (lf_cells s)[i := c]\<rparr>) = lf_shape s"
  "lf_shape (s\<lparr>lq_pc := f\<rparr>) = lf_shape s" "lf_shape (s\<lparr>lq_popped := l\<rparr>) = lf_shape s"
  "lf_shape (s\<lparr>lq_pushed := xs\<rparr>) = lf_shape s"
  by (simp_all add: lf_cap_def lf_shape_def)

lemma lq_coreD:
  assumes "lq_core s W R"
  shows "lf_shape s" "2 \<le> lf_cap s" "unat (lf_tail s) = length (lq_pushed s)"
    "unat (lf_tail s) + lf_cap s < 2 ^ 63" "unat (lf_head s) \<le> unat (lf_tail s)"
    "unat (lf_tail s) \<le> unat (lf_head s) + lf_cap s"
    "p \<in> W \<Longrightarrow> unat (lf_head s) \<le> p \<and> p < unat (lf_tail s)"
    "p \<in> R \<Longrightarrow> p < unat (lf_head s) \<and> unat (lf_tail s) \<le> p + lf_cap s"
    "p \<in> occupied s R \<Longrightarrow> unat (c_seq (cell_at s p)) = (if p \<in> W then p else p + 1)"
    "p \<in> occupied s R \<Longrightarrow> p \<notin> W \<Longrightarrow> c_data (cell_at s p) = lq_pushed s ! p"
    "p \<in> claimable s R \<Longrightarrow> unat (c_seq (cell_at s p)) = p"
    "lf_cell s w = cell_at s (unat w)" "slot (lf_mask s) w = unat w mod lf_cap s"
    "p mod lf_cap s < length (lf_cells s)"
proof -
  have sh: "lf_shape s" and c: "2 \<le> lf_cap s" using assms by (simp_all add: lq_core_def)
  show "lf_shape s" "2 \<le> lf_cap s" by (fact sh, fact c)
  show "slot (lf_mask s) w = unat w mod lf_cap s" by (rule lf_shape_slot [OF sh])
  then show "lf_cell s w = cell_at s (unat w)" by (simp add: lf_cell_def)
  have "p mod lf_cap s < lf_cap s" using c by simp
  then show "p mod lf_cap s < length (lf_cells s)" unfolding lf_cap_def .
qed (use assms in \<open>auto simp: lq_core_def\<close>)

lemma lq_coreI:
  assumes "lf_shape s" "2 \<le> lf_cap s" "unat (lf_tail s) = length (lq_pushed s)"
    "unat (lf_tail s) + lf_cap s < 2 ^ 63" "unat (lf_head s) \<le> unat (lf_tail s)"
    "unat (lf_tail s) \<le> unat (lf_head s) + lf_cap s"
    "W \<subseteq> {unat (lf_head s)..<unat (lf_tail s)}"
    "\<forall>p\<in>R. p < unat (lf_head s) \<and> unat (lf_tail s) \<le> p + lf_cap s"
    "\<forall>p\<in>occupied s R. unat (c_seq (cell_at s p)) = (if p \<in> W then p else p + 1) \<and>
        (p \<notin> W \<longrightarrow> c_data (cell_at s p) = lq_pushed s ! p)"
    "\<forall>p\<in>claimable s R. unat (c_seq (cell_at s p)) = p"
  shows "lq_core s W R"
  unfolding lq_core_def by (intro conjI; (rule assms)?)

text \<open>Positions that matter at the same time have different cells.\<close>

lemma occupied_window:
  assumes "lq_core s W R" "p \<in> occupied s R"
  shows "p < unat (lf_tail s)" "unat (lf_tail s) \<le> p + lf_cap s"
  using assms lq_coreD(6) [OF assms(1)] lq_coreD(8) [OF assms(1), of p] by (auto simp: occupied_def)

lemma occupied_cells:
  assumes core: "lq_core s W R" and p: "p \<in> occupied s R" and q: "q \<in> occupied s R"
    and eq: "p mod lf_cap s = q mod lf_cap s"
  shows "p = q"
  using mod_round_inj [of "unat (lf_tail s) - lf_cap s" p "lf_cap s" q] eq
    occupied_window [OF core p] occupied_window [OF core q] by linarith

lemma claimable_cells:
  assumes "lq_core s W R" "p \<in> claimable s R" "q \<in> claimable s R" "p mod lf_cap s = q mod lf_cap s"
  shows "p = q"
  by (rule mod_round_inj [of "unat (lf_tail s)" p "lf_cap s" q])
    (use assms lq_coreD(5) [OF assms(1)] in \<open>auto simp: claimable_def\<close>)

lemma occupied_claimable_cells:
  assumes core: "lq_core s W R" and p: "p \<in> occupied s R" and q: "q \<in> claimable s R"
  shows "p mod lf_cap s \<noteq> q mod lf_cap s"
proof
  assume eq: "p mod lf_cap s = q mod lf_cap s"
  have w: "p < unat (lf_tail s)" "unat (lf_tail s) \<le> p + lf_cap s" by (rule occupied_window [OF core p])+
  have r: "unat (lf_tail s) \<le> q" "q < unat (lf_head s) + lf_cap s" "lf_cap s \<le> q \<Longrightarrow> q - lf_cap s \<notin> R"
    using q by (auto simp: claimable_def)
  have "p + lf_cap s = q"
    by (rule mod_round_inj [of "unat (lf_tail s)" _ "lf_cap s"])
      (use w r eq lq_coreD(5,6) [OF core] in auto)
  then have "p < unat (lf_head s)" "p \<notin> R" using r by auto
  then show False using p by (auto simp: occupied_def)
qed

lemma held_occupied:
  assumes "lq_core s W R"
  shows "p \<in> W \<Longrightarrow> p \<in> occupied s R" "p \<in> R \<Longrightarrow> p \<in> occupied s R"
  using lq_coreD(5) [OF assms] lq_coreD(7) [OF assms, of p] lq_coreD(8) [OF assms, of p] by (auto simp: occupied_def)

section \<open>The accesses that change the shared state\<close>

lemma cell_update:
  assumes "lq_core s W R"
  shows "cell_at (s\<lparr>lf_cells := (lf_cells s)[p mod lf_cap s := c]\<rparr>) q =
    (if p mod lf_cap s = q mod lf_cap s then c else cell_at s q)"
  using lq_coreD(14) [OF assms, of p] by (simp add: nth_list_update)

lemma positions_frame [simp]:
  "occupied (s\<lparr>lf_cells := (lf_cells s)[i := c]\<rparr>) R = occupied s R"
  "claimable (s\<lparr>lf_cells := (lf_cells s)[i := c]\<rparr>) R = claimable s R"
  "occupied (s\<lparr>lq_pushed := xs\<rparr>) R = occupied s R"
  "claimable (s\<lparr>lq_pushed := xs\<rparr>) R = claimable s R"
  by (simp_all add: occupied_def claimable_def)

lemma occupied_push:
  "unat (lf_head s) \<le> unat (lf_tail s) \<Longrightarrow> unat (lf_tail s) + 1 < 2 ^ 63 \<Longrightarrow>
    occupied (s\<lparr>lf_tail := lf_tail s + 1\<rparr>) R = insert (unat (lf_tail s)) (occupied s R)"
  by (auto simp: occupied_def unat_plus_1)

lemma claimable_push:
  "unat (lf_tail s) + 1 < 2 ^ 63 \<Longrightarrow>
    claimable (s\<lparr>lf_tail := lf_tail s + 1\<rparr>) R = claimable s R - {unat (lf_tail s)}"
  by (auto simp: claimable_def unat_plus_1)

lemma core_push_claim:
  assumes core: "lq_core s W R" and free: "unat (lf_tail s) \<in> claimable s R"
    and bound: "unat (lf_tail s) + 1 + lf_cap s < 2 ^ 63"
  shows "lq_core (s\<lparr>lf_tail := lf_tail s + 1, lq_pushed := lq_pushed s @ [x]\<rparr>) (insert (unat (lf_tail s)) W) R"
proof -
  let ?T = "unat (lf_tail s)"
  note d = lq_coreD [OF core]
  have T1: "unat (lf_tail s + 1) = ?T + 1" by (rule unat_plus_1) (use bound in simp)
  have occ: "occupied (s\<lparr>lf_tail := lf_tail s + 1\<rparr>) R = insert ?T (occupied s R)"
    by (rule occupied_push [OF d(5)]) (use bound in simp)
  have cl: "claimable (s\<lparr>lf_tail := lf_tail s + 1\<rparr>) R = claimable s R - {?T}"
    by (rule claimable_push) (use bound in simp)
  have R: "?T + 1 \<le> p + lf_cap s" if "p \<in> R" for p
  proof -
    have "p \<noteq> ?T - lf_cap s \<or> ?T < lf_cap s" using free that by (auto simp: claimable_def)
    then show ?thesis using d(8) [OF that] by linarith
  qed
  have lt: "p < length (lq_pushed s)" if "p \<in> occupied s R" for p
    using occupied_window(1) [OF core that] d(3) by simp
  have "?T < unat (lf_head s) + lf_cap s" using free by (simp add: claimable_def)
  moreover have "\<forall>p\<in>insert ?T (occupied s R). unat (c_seq (cell_at s p)) = (if p \<in> insert ?T W then p else p + 1) \<and>
      (p \<notin> insert ?T W \<longrightarrow> c_data (cell_at s p) = (lq_pushed s @ [x]) ! p)"
    using d(9,10) d(11) [OF free] lt by (auto simp: nth_append occupied_def)
  ultimately show ?thesis
    using d(1-6) d(7) d(8) d(11) R bound
    by (intro lq_coreI; simp add: T1 occ cl subset_iff less_Suc_eq le_Suc_eq; (blast | force)?)
qed

lemma core_write:
  assumes core: "lq_core s W R" and p: "p \<in> W"
  shows "lq_core (s\<lparr>lf_cells := (lf_cells s)[p mod lf_cap s := (cell_at s p)\<lparr>c_data := x\<rparr>]\<rparr>) W R"
    (is "lq_core ?s W R")
proof -
  note d = lq_coreD [OF core]
  have occ: "p \<in> occupied s R" by (rule held_occupied(1) [OF core p])
  have seq: "c_seq (cell_at ?s q) = c_seq (cell_at s q)" for q
    using cell_update [OF core, of p "(cell_at s p)\<lparr>c_data := x\<rparr>" q] by simp
  have dat: "c_data (cell_at ?s q) = c_data (cell_at s q)" if "q \<in> occupied s R" "q \<notin> W" for q
    using cell_update [OF core, of p "(cell_at s p)\<lparr>c_data := x\<rparr>" q]
      occupied_cells [OF core occ that(1)] p that(2) by auto
  show ?thesis
    unfolding lq_core_def using d(1-8) d(9-11) seq dat by (simp add: subset_iff)
qed

lemma core_push_publish:
  assumes core: "lq_core s W R" and p: "p \<in> W" and w: "unat w = p + 1"
    and dat: "c_data (cell_at s p) = lq_pushed s ! p"
  shows "lq_core (s\<lparr>lf_cells := (lf_cells s)[p mod lf_cap s := (cell_at s p)\<lparr>c_seq := w\<rparr>]\<rparr>) (W - {p}) R"
    (is "lq_core ?s _ R")
proof -
  note d = lq_coreD [OF core]
  have occ: "p \<in> occupied s R" by (rule held_occupied(1) [OF core p])
  have cell: "cell_at ?s q = (if p mod lf_cap s = q mod lf_cap s then (cell_at s p)\<lparr>c_seq := w\<rparr> else cell_at s q)"
    for q by (rule cell_update [OF core])
  have "cell_at ?s q = (if q = p then (cell_at s p)\<lparr>c_seq := w\<rparr> else cell_at s q)" if "q \<in> occupied s R" for q
    using cell [of q] occupied_cells [OF core occ that] by auto
  moreover have "cell_at ?s q = cell_at s q" if "q \<in> claimable s R" for q
    using cell [of q] occupied_claimable_cells [OF core occ that] by simp
  ultimately show ?thesis
    unfolding lq_core_def using d(1-8) d(9-11) dat w by (simp add: subset_iff)
qed

lemma positions_pop_claim:
  assumes core: "lq_core s W R" and H: "unat (lf_head s) < unat (lf_tail s)"
  shows "occupied (s\<lparr>lf_head := lf_head s + 1\<rparr>) (insert (unat (lf_head s)) R) = occupied s R"
    and "claimable (s\<lparr>lf_head := lf_head s + 1\<rparr>) (insert (unat (lf_head s)) R) = claimable s R"
proof -
  have H1: "unat (lf_head s + 1) = unat (lf_head s) + 1"
    by (rule unat_plus_1) (use lq_coreD(4) [OF core] H in simp)
  show "occupied (s\<lparr>lf_head := lf_head s + 1\<rparr>) (insert (unat (lf_head s)) R) = occupied s R"
    using H H1 by (auto simp: occupied_def)
  show "claimable (s\<lparr>lf_head := lf_head s + 1\<rparr>) (insert (unat (lf_head s)) R) = claimable s R"
    using lq_coreD(2) [OF core] lq_coreD(8) [OF core]
    by (simp add: claimable_def H1 set_eq_iff) (metis (no_types, opaque_lifting) add_diff_inverse_nat
        diff_add_inverse2 less_Suc_eq linorder_not_less add.commute less_imp_le_nat trans_le_add1 le_add2)
qed

lemma core_pop_claim:
  assumes core: "lq_core s W R" and H: "unat (lf_head s) < unat (lf_tail s)" "unat (lf_head s) \<notin> W"
  shows "lq_core (s\<lparr>lf_head := lf_head s + 1\<rparr>) W (insert (unat (lf_head s)) R)"
proof -
  note d = lq_coreD [OF core] and pos = positions_pop_claim [OF core H(1)]
  have H1: "unat (lf_head s + 1) = unat (lf_head s) + 1"
    by (rule unat_plus_1) (use d(4) H in simp)
  have W: "unat (lf_head s) + 1 \<le> p \<and> p < unat (lf_tail s)" if "p \<in> W" for p
    using d(7) [OF that] that H(2) by (cases "p = unat (lf_head s)") auto
  have R: "p < unat (lf_head s) + 1 \<and> unat (lf_tail s) \<le> p + lf_cap s" if "p \<in> insert (unat (lf_head s)) R" for p
    using d(6) d(8) [of p] that by auto
  show ?thesis
  proof (rule lq_coreI)
    show "W \<subseteq> {unat (lf_head (s\<lparr>lf_head := lf_head s + 1\<rparr>))..<unat (lf_tail (s\<lparr>lf_head := lf_head s + 1\<rparr>))}"
      using W by (auto simp: H1)
    show "\<forall>p\<in>insert (unat (lf_head s)) R. p < unat (lf_head (s\<lparr>lf_head := lf_head s + 1\<rparr>)) \<and>
        unat (lf_tail (s\<lparr>lf_head := lf_head s + 1\<rparr>)) \<le> p + lf_cap (s\<lparr>lf_head := lf_head s + 1\<rparr>)"
      using R by (simp add: H1)
  qed (use d(1-6,9-11) H in \<open>simp_all add: pos H1\<close>)
qed

lemma core_pop_publish:
  assumes core: "lq_core s W R" and p: "p \<in> R" and w: "unat w = p + lf_cap s"
  shows "lq_core (s\<lparr>lf_cells := (lf_cells s)[p mod lf_cap s := (cell_at s p)\<lparr>c_seq := w\<rparr>]\<rparr>) W (R - {p})"
    (is "lq_core ?s W _")
proof -
  note d = lq_coreD [OF core]
  have p': "p \<in> occupied s R" "p < unat (lf_head s)" "unat (lf_tail s) \<le> p + lf_cap s"
    using held_occupied(2) [OF core p] d(8) [OF p] by auto
  have cell: "cell_at ?s q = (if p mod lf_cap s = q mod lf_cap s then (cell_at s p)\<lparr>c_seq := w\<rparr> else cell_at s q)"
    for q by (rule cell_update [OF core])
  have occ: "q \<in> occupied s R \<and> q \<noteq> p" if "q \<in> occupied s (R - {p})" for q
    using that p'(2) by (auto simp: occupied_def)
  then have "cell_at ?s q = cell_at s q" if "q \<in> occupied s (R - {p})" for q
    using cell [of q] occupied_cells [OF core p'(1), of q] that by auto
  moreover have "unat (c_seq (cell_at ?s q)) = q" if q: "q \<in> claimable s (R - {p})" for q
  proof (cases "q = p + lf_cap s")
    case True
    then show ?thesis using cell [of q] w by simp
  next
    case False
    then have "q \<in> claimable s R" using q by (auto simp: claimable_def)
    then show ?thesis
      using cell [of q] occupied_claimable_cells [OF core p'(1)] d(11) by auto
  qed
  moreover have "\<forall>q\<in>R - {p}. q < unat (lf_head s) \<and> unat (lf_tail s) \<le> q + lf_cap s"
    using d(8) by blast
  moreover have "W \<subseteq> {unat (lf_head s)..<unat (lf_tail s)}" using d(7) by auto
  ultimately show ?thesis
    using d(1-6,9,10) occ by (intro lq_coreI) simp_all
qed

lemma outcome_pop_claim:
  assumes "lq_outcome s R" "unat (lf_head s) + 1 < 2 ^ 63"
  shows "lq_outcome (s\<lparr>lf_head := lf_head s + 1\<rparr>) (insert (unat (lf_head s)) R)"
proof -
  have "unat (lf_head s + 1) = unat (lf_head s) + 1"
    by (rule unat_plus_1) (use assms(2) in simp)
  moreover have "unat (lf_head s) \<notin> set (map fst (lq_popped s)) \<union> R"
    using assms(1) unfolding lq_outcome_def by (metis lessThan_iff less_irrefl)
  ultimately show ?thesis
    using assms(1) by (auto simp: lq_outcome_def lessThan_Suc)
qed

lemma outcome_pop_publish:
  assumes "lq_outcome s R" "p \<in> R" "v = lq_pushed s ! p"
  shows "lq_outcome (s\<lparr>lf_cells := cs, lq_popped := lq_popped s @ [(p, v)]\<rparr>) (R - {p})"
  using assms unfolding lq_outcome_def by auto

lemma outcome_push:
  assumes "lq_outcome s R" "unat (lf_head s) \<le> length (lq_pushed s)"
  shows "lq_outcome (s\<lparr>lf_tail := a, lq_pushed := lq_pushed s @ [x]\<rparr>) R"
proof -
  have "p < length (lq_pushed s)" if "(p, v) \<in> set (lq_popped s)" for p v
  proof -
    have "p \<in> set (map fst (lq_popped s)) \<union> R" using that by force
    then have "p < unat (lf_head s)" using assms(1) unfolding lq_outcome_def by blast
    then show ?thesis using assms(2) by simp
  qed
  then show ?thesis using assms(1) by (auto simp: lq_outcome_def nth_append)
qed

lemma outcome_cells [simp]: "lq_outcome (s\<lparr>lf_cells := cs\<rparr>) R = lq_outcome s R"
  by (simp add: lq_outcome_def)

section \<open>What the threads know is kept\<close>

lemma pc_ok_push_claim:
  assumes core: "lq_core s W R" and ok: "pc_ok s W R c" and bound: "unat (lf_tail s) + 1 + lf_cap s < 2 ^ 63"
    and sub: "push_held c \<subseteq> W" "pop_held c \<subseteq> R"
  shows "pc_ok (s\<lparr>lf_tail := lf_tail s + 1, lq_pushed := lq_pushed s @ [x]\<rparr>) (insert (unat (lf_tail s)) W) R c"
proof -
  note d = lq_coreD [OF core]
  have T1: "unat (lf_tail s + 1) = unat (lf_tail s) + 1" by (rule unat_plus_1) (use bound in simp)
  have cl: "claimable (s\<lparr>lf_tail := lf_tail s + 1\<rparr>) R = claimable s R - {unat (lf_tail s)}"
    by (rule claimable_push) (use bound in simp)
  have "unat pos < length (lq_pushed s)" if "unat pos \<in> W \<union> R" for pos :: size_t
    using that d(3,5) d(7) [of "unat pos"] d(8) [of "unat pos"] by auto
  then show ?thesis
    using ok sub d(5) by (cases c) (auto simp: T1 cl nth_append)
qed

lemma pc_ok_pop_claim:
  assumes core: "lq_core s W R" and ok: "pc_ok s W R c" and H: "unat (lf_head s) < unat (lf_tail s)"
  shows "pc_ok (s\<lparr>lf_head := lf_head s + 1\<rparr>) W (insert (unat (lf_head s)) R) c"
proof -
  have H1: "unat (lf_head s + 1) = unat (lf_head s) + 1"
    by (rule unat_plus_1) (use lq_coreD(4) [OF core] H in simp)
  show ?thesis
    using ok positions_pop_claim(2) [OF core H] by (cases c) (auto simp: H1)
qed

lemma pc_ok_cells:
  assumes "pc_ok s W R c" "W' \<subseteq> W" "R' \<subseteq> R"
    and "\<And>q. q \<in> push_held c \<Longrightarrow>
      c_data (cell_at (s\<lparr>lf_cells := (lf_cells s)[i := k]\<rparr>) q) = c_data (cell_at s q)"
  shows "pc_ok (s\<lparr>lf_cells := (lf_cells s)[i := k]\<rparr>) W' R' c"
  using assms by (cases c) (auto simp: claimable_def)

section \<open>Every step keeps the invariant\<close>

abbreviation pushing :: "'a lq_sys \<Rightarrow> nat set" where
  "pushing s \<equiv> held push_held (lq_pc s)"

abbreviation popping :: "'a lq_sys \<Rightarrow> nat set" where
  "popping s \<equiv> held pop_held (lq_pc s)"

lemma lq_goodD:
  assumes "lq_good s"
  shows "lq_core s (pushing s) (popping s)" "lq_outcome s (popping s)"
    "apart push_held (lq_pc s)" "apart pop_held (lq_pc s)"
    "pc_ok s (pushing s) (popping s) (lq_pc s t)"
    "push_held (lq_pc s t) \<subseteq> pushing s" "pop_held (lq_pc s t) \<subseteq> popping s"
  using assms by (auto simp: lq_good_def held_def)

lemma good_local:
  assumes good: "lq_good s" and held: "push_held c = push_held (lq_pc s t)" "pop_held c = pop_held (lq_pc s t)"
    and ok: "pc_ok s (pushing s) (popping s) c"
  shows "lq_good (s\<lparr>lq_pc := (lq_pc s)(t := c)\<rparr>)"
  using lq_goodD(1-5) [OF good] ok
  by (simp add: lq_good_def held_update_same held apart_update_same)

text \<open>A step of thread \<open>t\<close> that changes the shared state: the other threads keep what they know.\<close>

lemma good_shared:
  assumes core: "lq_core s' W R" and out: "lq_outcome s' R"
    and apart: "apart push_held ((lq_pc s)(t := c))" "apart pop_held ((lq_pc s)(t := c))"
    and W: "held push_held ((lq_pc s)(t := c)) = W" and R: "held pop_held ((lq_pc s)(t := c)) = R"
    and mine: "pc_ok s' W R c" and others: "\<And>u. u \<noteq> t \<Longrightarrow> pc_ok s' W R (lq_pc s u)"
  shows "lq_good (s'\<lparr>lq_pc := (lq_pc s)(t := c)\<rparr>)"
  unfolding lq_good_def using assms by simp

lemma good_push_claim:
  assumes good: "lq_good s" and pc: "lq_pc s t = Push_cas x (lf_tail s)"
    and bound: "unat (lf_tail s) + 1 + lf_cap s < 2 ^ 63"
  shows "lq_good (s\<lparr>lf_tail := lf_tail s + 1, lq_pushed := lq_pushed s @ [x],
    lq_pc := (lq_pc s)(t := Push_write x (lf_tail s))\<rparr>)"
proof -
  note g = lq_goodD [OF good] and d = lq_coreD [OF lq_goodD(1) [OF good]]
  let ?s = "s\<lparr>lf_tail := lf_tail s + 1, lq_pushed := lq_pushed s @ [x]\<rparr>"
  let ?c = "Push_write x (lf_tail s)"
  have free: "unat (lf_tail s) \<in> claimable s (popping s)" using g(5) [of t] pc by simp
  have new: "unat (lf_tail s) \<notin> pushing s" using d(7) [of "unat (lf_tail s)"] by auto
  have W: "held push_held ((lq_pc s)(t := ?c)) = insert (unat (lf_tail s)) (pushing s)"
    using held_update [OF g(3), of t ?c] pc by simp
  have R: "held pop_held ((lq_pc s)(t := ?c)) = popping s"
    by (rule held_update_same) (simp add: pc)
  have ok: "pc_ok ?s (insert (unat (lf_tail s)) (pushing s)) (popping s) (lq_pc s u)" for u
    by (rule pc_ok_push_claim [OF g(1) g(5) bound g(6,7)])
  show ?thesis
  proof (rule good_shared [OF core_push_claim [OF g(1) free bound, of x] _ _ _ W R _ ok])
    show "lq_outcome ?s (popping s)" by (rule outcome_push [OF g(2)]) (use d(3,5) in simp)
    show "apart push_held ((lq_pc s)(t := ?c))" by (rule apart_update [OF g(3)]) (use new pc in simp)
    show "apart pop_held ((lq_pc s)(t := ?c))" by (rule apart_update_same [OF g(4)]) simp
    show "pc_ok ?s (insert (unat (lf_tail s)) (pushing s)) (popping s) ?c" by (simp add: d(3) nth_append)
  qed
qed

lemma good_pop_claim:
  assumes good: "lq_good s" and pc: "lq_pc s t = Pop_cas (lf_head s)"
  shows "lq_good (s\<lparr>lf_head := lf_head s + 1, lq_pc := (lq_pc s)(t := Pop_read (lf_head s))\<rparr>)"
proof -
  note g = lq_goodD [OF good] and d = lq_coreD [OF lq_goodD(1) [OF good]]
  let ?s = "s\<lparr>lf_head := lf_head s + 1\<rparr>" and ?c = "Pop_read (lf_head s) :: 'a lq_pc"
  have H: "unat (lf_head s) < unat (lf_tail s)" "unat (lf_head s) \<notin> pushing s"
    using g(5) [of t] pc by simp_all
  have new: "unat (lf_head s) \<notin> popping s" using d(8) [of "unat (lf_head s)"] by auto
  have W: "held push_held ((lq_pc s)(t := ?c)) = pushing s"
    by (rule held_update_same) (simp add: pc)
  have R: "held pop_held ((lq_pc s)(t := ?c)) = insert (unat (lf_head s)) (popping s)"
    using held_update [OF g(4), of t ?c] pc by simp
  show ?thesis
  proof (rule good_shared [OF core_pop_claim [OF g(1) H] _ _ _ W R _ pc_ok_pop_claim [OF g(1,5) H(1)]])
    show "lq_outcome ?s (insert (unat (lf_head s)) (popping s))"
      by (rule outcome_pop_claim [OF g(2)]) (use d(4,5) H in simp)
    show "apart push_held ((lq_pc s)(t := ?c))" by (rule apart_update_same [OF g(3)]) simp
    show "apart pop_held ((lq_pc s)(t := ?c))" by (rule apart_update [OF g(4)]) (use new pc in simp)
  qed simp
qed

text \<open>Writing the claimed cell, or its sequence number, does not touch the data another thread is
  about to publish.\<close>

lemma others_data:
  assumes good: "lq_good s" and p: "p \<in> occupied s (popping s)" and t: "push_held (lq_pc s u) \<inter> {p} = {}"
    and q: "q \<in> push_held (lq_pc s u)"
  shows "cell_at (s\<lparr>lf_cells := (lf_cells s)[p mod lf_cap s := c]\<rparr>) q = cell_at s q"
proof -
  note g = lq_goodD [OF good]
  have "q \<in> occupied s (popping s)" by (rule held_occupied(1) [OF g(1)]) (use g(6) q in blast)
  then have "p mod lf_cap s \<noteq> q mod lf_cap s" using occupied_cells [OF g(1) p] t q by auto
  then show ?thesis using cell_update [OF g(1), of p c q] by simp
qed

lemma good_push_write:
  assumes good: "lq_good s" and pc: "lq_pc s t = Push_write x pos"
  shows "lq_good (s\<lparr>lf_cells := (lf_cells s)[slot (lf_mask s) pos := (lf_cell s pos)\<lparr>c_data := x\<rparr>],
    lq_pc := (lq_pc s)(t := Push_publish x pos)\<rparr>)"
proof -
  note g = lq_goodD [OF good] and d = lq_coreD [OF lq_goodD(1) [OF good]]
  let ?p = "unat pos" and ?c = "Push_publish x pos"
  let ?s = "s\<lparr>lf_cells := (lf_cells s)[?p mod lf_cap s := (cell_at s ?p)\<lparr>c_data := x\<rparr>]\<rparr>"
  have p: "?p \<in> pushing s" using g(6) [of t] pc by auto
  have W: "held push_held ((lq_pc s)(t := ?c)) = pushing s" by (rule held_update_same) (simp add: pc)
  have R: "held pop_held ((lq_pc s)(t := ?c)) = popping s" by (rule held_update_same) (simp add: pc)
  have ok: "pc_ok ?s (pushing s) (popping s) (lq_pc s u)" if "u \<noteq> t" for u
  proof (rule pc_ok_cells [OF g(5)])
    have "push_held (lq_pc s u) \<inter> {?p} = {}" using apartD [OF g(3), of ?p t u] pc that by auto
    then show "c_data (cell_at ?s q) = c_data (cell_at s q)" if "q \<in> push_held (lq_pc s u)" for q
      using others_data [OF good held_occupied(1) [OF g(1) p], of u q] that by simp
  qed simp_all
  show ?thesis
    unfolding d(12,13)
  proof (rule good_shared [OF core_write [OF g(1) p] _ _ _ W R _ ok])
    show "lq_outcome ?s (popping s)" using g(2) by simp
    show "apart push_held ((lq_pc s)(t := ?c))" by (rule apart_update_same [OF g(3)]) (simp add: pc)
    show "apart pop_held ((lq_pc s)(t := ?c))" by (rule apart_update_same [OF g(4)]) simp
    have "lq_pushed s ! ?p = x" using g(5) [of t] pc by simp
    then show "pc_ok ?s (pushing s) (popping s) ?c" using cell_update [OF g(1), of ?p _ ?p] by simp
  qed
qed

lemma good_push_publish:
  assumes good: "lq_good s" and pc: "lq_pc s t = Push_publish x pos"
  shows "lq_good (s\<lparr>lf_cells := (lf_cells s)[slot (lf_mask s) pos := (lf_cell s pos)\<lparr>c_seq := pos + 1\<rparr>],
    lq_pc := (lq_pc s)(t := Q_idle)\<rparr>)"
proof -
  note g = lq_goodD [OF good] and d = lq_coreD [OF lq_goodD(1) [OF good]]
  let ?p = "unat pos"
  let ?s = "s\<lparr>lf_cells := (lf_cells s)[?p mod lf_cap s := (cell_at s ?p)\<lparr>c_seq := pos + 1\<rparr>]\<rparr>"
  have p: "?p \<in> pushing s" using g(6) [of t] pc by auto
  have w: "unat (pos + 1) = ?p + 1" by (rule unat_plus_1) (use d(4) d(7) [OF p] in simp)
  have dat: "c_data (cell_at s ?p) = lq_pushed s ! ?p" using g(5) [of t] pc by simp
  have W: "held push_held ((lq_pc s)(t := Q_idle)) = pushing s - {?p}"
    using held_update [OF g(3), of t Q_idle] pc by simp
  have R: "held pop_held ((lq_pc s)(t := Q_idle)) = popping s" by (rule held_update_same) (simp add: pc)
  have ok: "pc_ok ?s (pushing s - {?p}) (popping s) (lq_pc s u)" if "u \<noteq> t" for u
  proof (rule pc_ok_cells [OF g(5)])
    have "push_held (lq_pc s u) \<inter> {?p} = {}" using apartD [OF g(3), of ?p t u] pc that by auto
    then show "c_data (cell_at ?s q) = c_data (cell_at s q)" if "q \<in> push_held (lq_pc s u)" for q
      using others_data [OF good held_occupied(1) [OF g(1) p], of u q] that by simp
  qed auto
  show ?thesis
    unfolding d(12,13)
  proof (rule good_shared [OF core_push_publish [OF g(1) p w dat] _ _ _ W R _ ok])
    show "lq_outcome ?s (popping s)" using g(2) by simp
    show "apart push_held ((lq_pc s)(t := Q_idle))" by (rule apart_update_same [OF g(3)]) simp
    show "apart pop_held ((lq_pc s)(t := Q_idle))" by (rule apart_update_same [OF g(4)]) simp
  qed simp
qed

lemma good_pop_read:
  assumes good: "lq_good s" and pc: "lq_pc s t = Pop_read pos"
  shows "lq_good (s\<lparr>lq_pc := (lq_pc s)(t := Pop_publish pos (c_data (lf_cell s pos)))\<rparr>)"
proof (rule good_local [OF good])
  note g = lq_goodD [OF good] and d = lq_coreD [OF lq_goodD(1) [OF good]]
  have p: "unat pos \<in> popping s" using g(7) [of t] pc by auto
  then have "unat pos \<notin> pushing s" using d(7) [of "unat pos"] d(8) [of "unat pos"] by auto
  then show "pc_ok s (pushing s) (popping s) (Pop_publish pos (c_data (lf_cell s pos)))"
    using d(10) [OF held_occupied(2) [OF g(1) p]] by (simp add: d(12))
qed (simp_all add: pc)

lemma good_pop_publish:
  assumes good: "lq_good s" and pc: "lq_pc s t = Pop_publish pos v"
  shows "lq_good (s\<lparr>lf_cells := (lf_cells s)[slot (lf_mask s) pos :=
      (lf_cell s pos)\<lparr>c_seq := pos + of_nat (length (lf_cells s))\<rparr>],
    lq_popped := lq_popped s @ [(unat pos, v)], lq_pc := (lq_pc s)(t := Q_idle)\<rparr>)"
proof -
  note g = lq_goodD [OF good] and d = lq_coreD [OF lq_goodD(1) [OF good]]
  let ?p = "unat pos" and ?w = "pos + of_nat (length (lf_cells s))"
  let ?s = "s\<lparr>lf_cells := (lf_cells s)[?p mod lf_cap s := (cell_at s ?p)\<lparr>c_seq := ?w\<rparr>]\<rparr>"
  let ?s' = "?s\<lparr>lq_popped := lq_popped s @ [(?p, v)]\<rparr>"
  have p: "?p \<in> popping s" using g(7) [of t] pc by auto
  have w: "unat ?w = ?p + lf_cap s"
    unfolding lf_cap_def by (rule unat_plus_nat) (use d(4,5) d(8) [OF p] in \<open>simp add: lf_cap_def\<close>)
  have v: "v = lq_pushed s ! ?p" using g(5) [of t] pc by simp
  have W: "held push_held ((lq_pc s)(t := Q_idle)) = pushing s" by (rule held_update_same) (simp add: pc)
  have R: "held pop_held ((lq_pc s)(t := Q_idle)) = popping s - {?p}"
    using held_update [OF g(4), of t Q_idle] pc by simp
  have ok: "pc_ok ?s' (pushing s) (popping s - {?p}) (lq_pc s u)" if "u \<noteq> t" for u
    unfolding pc_ok_frame
  proof (rule pc_ok_cells [OF g(5)])
    have "?p \<notin> pushing s" using d(7) [of ?p] d(8) [OF p] by auto
    then have "push_held (lq_pc s u) \<inter> {?p} = {}" using g(6) by auto
    then show "c_data (cell_at ?s q) = c_data (cell_at s q)" if "q \<in> push_held (lq_pc s u)" for q
      using others_data [OF good held_occupied(2) [OF g(1) p], of u q] that by simp
  qed auto
  have core: "lq_core ?s' (pushing s) (popping s - {?p})"
    using core_pop_publish [OF g(1) p w] by simp
  show ?thesis
    unfolding d(12,13)
  proof (rule good_shared [OF core _ _ _ W R _ ok])
    show "lq_outcome ?s' (popping s - {?p})" by (rule outcome_pop_publish [OF g(2) p v])
    show "apart push_held ((lq_pc s)(t := Q_idle))" by (rule apart_update_same [OF g(3)]) simp
    show "apart pop_held ((lq_pc s)(t := Q_idle))" by (rule apart_update_same [OF g(4)]) simp
  qed simp
qed

section \<open>What a loaded sequence number says\<close>

text \<open>Every cell belongs to one position of the current round: free for it, or still holding the
  position one round before.\<close>

lemma cell_round:
  assumes core: "lq_core s W R"
  obtains q where "q mod lf_cap s = p mod lf_cap s" "unat (lf_tail s) \<le> q" "q \<in> claimable s R"
      "unat (c_seq (cell_at s p)) = q"
    | r where "r mod lf_cap s = p mod lf_cap s" "r \<in> occupied s R" "p < unat (lf_tail s) \<Longrightarrow> p \<le> r"
      "unat (c_seq (cell_at s p)) = (if r \<in> W then r else r + 1)"
proof -
  note d = lq_coreD [OF core]
  obtain q where q: "unat (lf_tail s) \<le> q" "q < unat (lf_tail s) + lf_cap s" "q mod lf_cap s = p mod lf_cap s"
    using next_round [of "lf_cap s" "unat (lf_tail s)" p] d(2) by auto
  show thesis
  proof (cases "q \<in> claimable s R")
    case True
    then show thesis using that(1) [of q] q d(11) [of q] by simp
  next
    case False
    then have r: "lf_cap s \<le> q" "unat (lf_head s) \<le> q - lf_cap s \<or> q - lf_cap s \<in> R"
      using q d(5,6) by (auto simp: claimable_def)
    then have mod: "(q - lf_cap s) mod lf_cap s = p mod lf_cap s" using q(3) by (simp add: le_mod_geq)
    have occ: "q - lf_cap s \<in> occupied s R" using r q(2) by (auto simp: occupied_def)
    have "p \<le> q - lf_cap s" if "p < unat (lf_tail s)"
    proof (rule ccontr)
      assume "\<not> p \<le> q - lf_cap s"
      then have "p = q"
        using that q r by (intro mod_round_inj [of "q - lf_cap s + 1" p "lf_cap s" q]) auto
      then show False using that q(1) by simp
    qed
    then show thesis using that(2) [OF mod occ] d(9) [OF occ] mod by simp
  qed
qed

lemma no_neighbour_cell:
  fixes h p c :: nat
  assumes "h < p" "p < h + c" shows "p mod c \<noteq> h mod c"
  using mod_round_inj [of h p c h] assms by auto

lemma seq_small:
  assumes core: "lq_core s W R"
  shows "unat (c_seq (cell_at s p)) < 2 ^ 63"
proof (cases rule: cell_round [OF core, of p])
  case (1 q)
  then show ?thesis using lq_coreD(4,5) [OF core] by (simp add: claimable_def)
next
  case (2 r)
  then show ?thesis using occupied_window(1) [OF core 2(2)] lq_coreD(2,4) [OF core] by auto
qed

lemma push_dif:
  assumes core: "lq_core s W R" and pos: "unat pos \<le> unat (lf_tail s)"
  shows "seq_dif (c_seq (lf_cell s pos)) pos = int (unat (c_seq (cell_at s (unat pos)))) - int (unat pos)"
  using seq_dif_nat [of "c_seq (lf_cell s pos)" pos] seq_small [OF core, of "unat pos"]
    lq_coreD(4,12) [OF core] pos by simp

lemma pop_dif:
  assumes core: "lq_core s W R" and pos: "unat pos \<le> unat (lf_head s)"
  shows "seq_dif (c_seq (lf_cell s pos)) (pos + 1) = int (unat (c_seq (cell_at s (unat pos)))) - int (unat pos) - 1"
proof -
  have "unat (pos + 1) = unat pos + 1" "unat pos + 1 < 2 ^ 63"
    using unat_plus_1 [of pos] lq_coreD(2,4,5) [OF core] pos by simp_all
  then show ?thesis
    using seq_dif_nat [of "c_seq (lf_cell s pos)" "pos + 1"] seq_small [OF core, of "unat pos"]
      lq_coreD(12) [OF core] by simp
qed

lemma push_seq_says:
  assumes core: "lq_core s W R" and pos: "p \<le> unat (lf_tail s)" and q: "q = unat (c_seq (cell_at s p))"
  shows "q = p \<Longrightarrow> p = unat (lf_tail s) \<Longrightarrow> p \<in> claimable s R"
    and "q < p \<Longrightarrow> p = unat (lf_tail s) \<and> lf_cap s \<le> p \<and> (unat (lf_head s) \<le> p - lf_cap s \<or> p - lf_cap s \<in> R)"
    and "p < q \<Longrightarrow> p \<noteq> unat (lf_tail s)"
proof -
  note d = lq_coreD [OF core]
  have free: "q = p" if "p = unat (lf_tail s)" "p \<in> claimable s R" using d(11) [OF that(2)] q by simp
  have taken: "q < p \<and> lf_cap s \<le> p \<and> (unat (lf_head s) \<le> p - lf_cap s \<or> p - lf_cap s \<in> R)"
    if T: "p = unat (lf_tail s)" "p \<notin> claimable s R"
  proof -
    have r: "lf_cap s \<le> p" "unat (lf_head s) \<le> p - lf_cap s \<or> p - lf_cap s \<in> R"
      using T d(6) by (auto simp: claimable_def)
    then have "p - lf_cap s \<in> occupied s R" using T d(2) by (auto simp: occupied_def)
    from d(9) [OF this] have "q \<le> p - lf_cap s + 1"
      using r q by (simp add: le_mod_geq split: if_splits)
    then show ?thesis using r d(2) by linarith
  qed
  have "p \<le> q" if "p < unat (lf_tail s)"
  proof (cases rule: cell_round [OF core, of p])
    case (1 q')
    then show ?thesis using that q by linarith
  next
    case (2 r)
    then show ?thesis using that q by (auto split: if_splits)
  qed
  then show "q = p \<Longrightarrow> p = unat (lf_tail s) \<Longrightarrow> p \<in> claimable s R"
    "q < p \<Longrightarrow> p = unat (lf_tail s) \<and> lf_cap s \<le> p \<and> (unat (lf_head s) \<le> p - lf_cap s \<or> p - lf_cap s \<in> R)"
    "p < q \<Longrightarrow> p \<noteq> unat (lf_tail s)"
    using pos free taken by (metis less_irrefl, metis le_neq_implies_less not_less less_irrefl, metis less_asym less_irrefl)
qed

lemma pop_seq_says:
  assumes core: "lq_core s W R" and pos: "p \<le> unat (lf_head s)" and q: "q = unat (c_seq (cell_at s p))"
  shows "q = p + 1 \<Longrightarrow> p = unat (lf_head s) \<Longrightarrow> p < unat (lf_tail s) \<and> p \<notin> W"
    and "q < p + 1 \<Longrightarrow> (p = unat (lf_head s) \<and> unat (lf_head s) = unat (lf_tail s)) \<or> p \<in> W"
    and "p + 1 < q \<Longrightarrow> p \<noteq> unat (lf_head s)"
proof -
  note d = lq_coreD [OF core]
  have all: "(q = p + 1 \<longrightarrow> p = unat (lf_head s) \<longrightarrow> p < unat (lf_tail s) \<and> p \<notin> W) \<and>
    (q < p + 1 \<longrightarrow> (p = unat (lf_head s) \<and> unat (lf_head s) = unat (lf_tail s)) \<or> p \<in> W) \<and>
    (p + 1 < q \<longrightarrow> p \<noteq> unat (lf_head s))"
  proof (cases rule: cell_round [OF core, of p])
    case (1 r)
    then have r: "q = r" "unat (lf_tail s) \<le> r" "r < unat (lf_head s) + lf_cap s" using q by (simp_all add: claimable_def)
    then have "\<not> (p = unat (lf_head s) \<and> p < r)" using no_neighbour_cell [of p r "lf_cap s"] 1(1) by auto
    then show ?thesis using r pos d(5) by auto
  next
    case (2 r)
    have w: "r < unat (lf_tail s)" "unat (lf_tail s) \<le> r + lf_cap s" by (rule occupied_window [OF core 2(2)])+
    have gap: "\<not> (p = unat (lf_head s) \<and> p < r)"
      using no_neighbour_cell [of p r "lf_cap s"] 2(1) w d(6) by auto
    have qr: "r \<in> W \<and> q = r \<or> r \<notin> W \<and> q = r + 1" using 2(4) q by auto
    show ?thesis
    proof (cases "p < unat (lf_tail s)")
      case True
      then have "p = r \<or> p < r" using 2(3) by linarith
      then show ?thesis using qr gap True by (elim disjE conjE; auto)
    next
      case False
      then have "p = unat (lf_head s)" "unat (lf_head s) = unat (lf_tail s)" using pos d(5) by linarith+
      moreover have "q \<le> unat (lf_tail s)" using qr w by linarith
      ultimately show ?thesis by simp
    qed
  qed
  then show "q = p + 1 \<Longrightarrow> p = unat (lf_head s) \<Longrightarrow> p < unat (lf_tail s) \<and> p \<notin> W"
    "q < p + 1 \<Longrightarrow> (p = unat (lf_head s) \<and> unat (lf_head s) = unat (lf_tail s)) \<or> p \<in> W"
    "p + 1 < q \<Longrightarrow> p \<noteq> unat (lf_head s)" by blast+
qed

section \<open>The invariant\<close>

definition lq_bound :: "'a lq_sys \<Rightarrow> bool" where
  "lq_bound s \<longleftrightarrow> length (lq_pushed s) + lf_cap s < 2 ^ 63"

definition lq_inv :: "'a lq_sys \<Rightarrow> bool" where
  "lq_inv s \<longleftrightarrow> (lq_bound s \<longrightarrow> lq_good s)"

lemma lq_bound_back: "lq_step s s' \<Longrightarrow> lq_bound s' \<Longrightarrow> lq_bound s"
  by (induction rule: lq_step.induct) (simp_all add: lq_bound_def)

lemma push_dif_sign:
  assumes good: "lq_good s" and pc: "lq_pc s t = Push_seq x pos"
  defines "q \<equiv> unat (c_seq (cell_at s (unat pos)))"
  shows "seq_dif (c_seq (lf_cell s pos)) pos = 0 \<longleftrightarrow> q = unat pos"
    "seq_dif (c_seq (lf_cell s pos)) pos < 0 \<longleftrightarrow> q < unat pos"
    "seq_dif (c_seq (lf_cell s pos)) pos > 0 \<longleftrightarrow> unat pos < q"
    "unat pos \<le> unat (lf_tail s)"
proof -
  show le: "unat pos \<le> unat (lf_tail s)" using lq_goodD(5) [OF good, of t] pc by simp
  show "seq_dif (c_seq (lf_cell s pos)) pos = 0 \<longleftrightarrow> q = unat pos"
    "seq_dif (c_seq (lf_cell s pos)) pos < 0 \<longleftrightarrow> q < unat pos"
    "seq_dif (c_seq (lf_cell s pos)) pos > 0 \<longleftrightarrow> unat pos < q"
    unfolding push_dif [OF lq_goodD(1) [OF good] le] q_def by linarith+
qed

lemma pop_dif_sign:
  assumes good: "lq_good s" and pc: "lq_pc s t = Pop_seq pos"
  defines "q \<equiv> unat (c_seq (cell_at s (unat pos)))"
  shows "seq_dif (c_seq (lf_cell s pos)) (pos + 1) = 0 \<longleftrightarrow> q = unat pos + 1"
    "seq_dif (c_seq (lf_cell s pos)) (pos + 1) < 0 \<longleftrightarrow> q < unat pos + 1"
    "seq_dif (c_seq (lf_cell s pos)) (pos + 1) > 0 \<longleftrightarrow> unat pos + 1 < q"
    "unat pos \<le> unat (lf_head s)"
proof -
  show le: "unat pos \<le> unat (lf_head s)" using lq_goodD(5) [OF good, of t] pc by simp
  show "seq_dif (c_seq (lf_cell s pos)) (pos + 1) = 0 \<longleftrightarrow> q = unat pos + 1"
    "seq_dif (c_seq (lf_cell s pos)) (pos + 1) < 0 \<longleftrightarrow> q < unat pos + 1"
    "seq_dif (c_seq (lf_cell s pos)) (pos + 1) > 0 \<longleftrightarrow> unat pos + 1 < q"
    unfolding pop_dif [OF lq_goodD(1) [OF good] le] q_def by linarith+
qed

lemma lq_good_step:
  assumes step: "lq_step s s'" and good: "lq_good s" and bound: "lq_bound s'"
  shows "lq_good s'"
  using step
proof cases
  case (push_free t x pos)
  show ?thesis
    unfolding push_free(1)
    using push_dif_sign(1,4) [OF good push_free(2)] push_free(2,3)
      push_seq_says(1) [OF lq_goodD(1) [OF good] _ refl, of "unat pos"]
    by (intro good_local [OF good]) auto
next
  case (pop_ready t pos)
  show ?thesis
    unfolding pop_ready(1)
    using pop_dif_sign(1,4) [OF good pop_ready(2)] pop_ready(2,3)
      pop_seq_says(1) [OF lq_goodD(1) [OF good] _ refl, of "unat pos"]
    by (intro good_local [OF good]) auto
next
  case (push_claim t x pos)
  have "unat (lf_tail s) + 1 + lf_cap s < 2 ^ 63"
    using bound lq_coreD(3) [OF lq_goodD(1) [OF good]] by (simp add: push_claim(1) lq_bound_def)
  then show ?thesis
    using good_push_claim [OF good, of t x] push_claim by simp
next
  case (pop_claim t pos)
  then show ?thesis using good_pop_claim [OF good, of t] by simp
next
  case (push_write t x pos)
  then show ?thesis using good_push_write [OF good] by simp
next
  case (push_publish t x pos)
  then show ?thesis using good_push_publish [OF good] by simp
next
  case (pop_read t pos)
  then show ?thesis using good_pop_read [OF good] by simp
next
  case (pop_publish t pos v)
  then show ?thesis using good_pop_publish [OF good] by simp
qed (use good_local [OF good] in simp_all)

lemma lq_good_init:
  assumes init: "lq_init d n s" and n: "2 \<le> unat n" and bound: "lq_bound s"
  shows "lq_good s"
proof -
  obtain q where q: "lf_new d n = Inr q" and s: "s = \<lparr>lf_tail = lf_tail q, lf_head = lf_head q,
      lf_cells = lf_cells q, lf_mask = lf_mask q, lq_pc = (\<lambda>_. Q_idle), lq_pushed = [], lq_popped = []\<rparr>"
    using init by (auto simp: lq_init_def)
  have cap: "lf_cap s = lf_cap q" by (simp add: s lf_cap_def)
  obtain c where c: "nextPowerOfTwoChecked n = Inr c"
    and q': "q = \<lparr>lf_tail = 0, lf_head = 0, lf_cells = map (\<lambda>i. \<lparr>c_seq = of_nat i, c_data = d\<rparr>) [0..<unat c],
      lf_mask = c - 1\<rparr>"
    using q by (auto simp: lf_new_def split: sum.splits)
  note cc = checked_is_cap [OF c]
  have lc: "lf_cap s = unat c" by (simp add: s q' lf_cap_def)
  have "lf_shape s" using cc lc by (simp add: lf_shape_def s q')
  moreover have "unat (c_seq (lf_cells s ! p)) = p" if "p < unat c" for p
    using that is_cap_lt [OF cc(1)] by (simp add: s q' unat_of_nat)
  ultimately have "lq_core s {} {}"
    using n cc bound lc
    by (intro lq_coreI) (auto simp: lq_bound_def occupied_def claimable_def s q')
  then show ?thesis
    by (simp add: lq_good_def lq_outcome_def apart_def held_def s q')
qed

definition lq_start :: "'a \<Rightarrow> size_t \<Rightarrow> 'a lq_sys \<Rightarrow> bool" where
  "lq_start d n s \<longleftrightarrow> lq_init d n s \<and> 2 \<le> unat n"

interpretation lq: inductive_invariant "lq_start d n" lq_step lq_inv for d :: 'a and n
proof unfold_locales
  fix s :: "'a lq_sys"
  show "lq_start d n s \<Longrightarrow> lq_inv s" using lq_good_init by (auto simp: lq_inv_def lq_start_def)
next
  fix s s' :: "'a lq_sys"
  assume "lq_inv s" "lq_step s s'"
  then show "lq_inv s'" using lq_good_step lq_bound_back unfolding lq_inv_def by blast
qed

lemma lq_reach_good: "reach (lq_start d n) lq_step s \<Longrightarrow> lq_bound s \<Longrightarrow> lq_good s"
  using lq.inv_reach [of d n s] by (auto simp: lq_inv_def)

section \<open>Properties\<close>

text \<open>C11: in every interleaving of any number of pushing and popping threads, elements leave a
  \<open>LockFreeQueue\<close> of requested capacity at least 2 in the order of their claimed positions,
  each exactly once: every position below \<open>head_\<close> has been returned by exactly one pop, with the item
  pushed at that position, or is in the hands of a pop in flight; every position from \<open>head_\<close>
  to \<open>tail_\<close> holds its item or is in the hands of a push in flight. At most \<open>capacity\<close> positions are in
  use.\<close>

theorem lfq_concurrent_fifo:
  assumes "reach (lq_start d n) lq_step s" and "lq_bound s"
  shows "distinct (map fst (lq_popped s)) \<and>
    (\<forall>(p, v)\<in>set (lq_popped s). p < unat (lf_head s) \<and> v = lq_pushed s ! p) \<and>
    (\<forall>p<unat (lf_head s). (p \<in> fst ` set (lq_popped s)) \<noteq> (\<exists>t. p \<in> pop_held (lq_pc s t))) \<and>
    (\<forall>p. unat (lf_head s) \<le> p \<and> p < length (lq_pushed s) \<longrightarrow>
       c_data (lf_cell s (of_nat p)) = lq_pushed s ! p \<or> (\<exists>t. p \<in> push_held (lq_pc s t))) \<and>
    unat (lf_head s) \<le> length (lq_pushed s) \<and> length (lq_pushed s) \<le> unat (lf_head s) + lf_cap s"
proof -
  note g = lq_goodD [OF lq_reach_good [OF assms]]
  note d = lq_coreD [OF g(1)]
  have out: "set (map fst (lq_popped s)) \<inter> popping s = {}"
      "set (map fst (lq_popped s)) \<union> popping s = {..<unat (lf_head s)}"
    using g(2) by (auto simp: lq_outcome_def)
  have "(p \<in> fst ` set (lq_popped s)) \<noteq> (p \<in> popping s)" if "p < unat (lf_head s)" for p
    using out that by (metis IntI UnE empty_iff lessThan_iff list.set_map)
  moreover have "c_data (lf_cell s (of_nat p)) = lq_pushed s ! p \<or> p \<in> pushing s"
    if p: "unat (lf_head s) \<le> p" "p < length (lq_pushed s)" for p
  proof -
    have "p < 2 ^ 64" using p d(3,4) by simp
    then have "unat (of_nat p :: size_t) = p" by (simp add: unat_of_nat)
    then show ?thesis using d(10) [of p] p d(3) by (auto simp: occupied_def d(12))
  qed
  moreover have "p < unat (lf_head s)" if "(p, v) \<in> set (lq_popped s)" for p v
    using out(2) that by force
  ultimately show ?thesis
    using g(2) d(3,5,6) by (auto simp: lq_outcome_def held_def)
qed

text \<open>The cell whose (non-atomic) data a thread is about to write or to move out.\<close>

fun data_access :: "size_t \<Rightarrow> 'a lq_pc \<Rightarrow> nat option" where
  "data_access m (Push_write x pos) = Some (slot m pos)"
| "data_access m (Pop_read pos) = Some (slot m pos)"
| "data_access m _ = None"

lemma data_access_held:
  "data_access m c = Some i \<Longrightarrow> \<exists>w. i = slot m w \<and> unat w \<in> push_held c \<union> pop_held c"
  by (cases "(m, c)" rule: data_access.cases) auto

lemma push_pop_apart:
  assumes "lq_good s" shows "pushing s \<inter> popping s = {}"
  using lq_coreD(7,8) [OF lq_goodD(1) [OF assms]] by fastforce

text \<open>C12: no two threads access the data of the same cell at the same time, although the data is
  not atomic.\<close>

theorem lfq_no_data_race:
  assumes "reach (lq_start d n) lq_step s" and "lq_bound s" and "t \<noteq> u"
    and "data_access (lf_mask s) (lq_pc s t) = Some i" and "data_access (lf_mask s) (lq_pc s u) = Some j"
  shows "i \<noteq> j"
proof
  assume "i = j"
  note good = lq_reach_good [OF assms(1,2)]
  note g = lq_goodD [OF good]
  obtain v w where vw: "i = slot (lf_mask s) v" "unat v \<in> push_held (lq_pc s t) \<union> pop_held (lq_pc s t)"
      "j = slot (lf_mask s) w" "unat w \<in> push_held (lq_pc s u) \<union> pop_held (lq_pc s u)"
    using data_access_held [OF assms(4)] data_access_held [OF assms(5)] by blast
  have "unat v \<in> occupied s (popping s)" "unat w \<in> occupied s (popping s)"
    using vw g(6,7) held_occupied [OF g(1)] by blast+
  then have "unat v = unat w"
    using occupied_cells [OF g(1)] vw(1,3) \<open>i = j\<close> lq_coreD(13) [OF g(1)] by metis
  moreover have "push_held (lq_pc s a) \<inter> pop_held (lq_pc s b) = {}" for a b
    using push_pop_apart [OF good] g(6,7) by blast
  ultimately show False
    using vw(2,4) assms(3) apartD [OF g(3), of "unat v" t u] apartD [OF g(4), of "unat v" t u]
    by (metis IntI UnE empty_iff)
qed

text \<open>What \<open>push\<close> and \<open>pop\<close> answer is justified when they load the sequence number. \<open>push\<close>
  reports a full queue only if the position \<open>capacity\<close> before \<open>tail_\<close> is not yet released, \<open>pop\<close> an
  empty one only if \<open>head_\<close> has reached \<open>tail_\<close> or the push that claimed the position is not
  finished; and each retries only if another thread has moved \<open>tail_\<close> (or \<open>head_\<close>) since it
  read it, so some thread makes progress.\<close>

theorem lfq_answers:
  assumes "reach (lq_start d n) lq_step s" and "lq_bound s"
  shows "(lq_pc s t = Push_seq x pos \<longrightarrow> seq_dif (c_seq (lf_cell s pos)) pos < 0 \<longrightarrow>
      pos = lf_tail s \<and> lf_cap s \<le> unat pos \<and>
      (unat (lf_head s) \<le> unat pos - lf_cap s \<or> (\<exists>u. unat pos - lf_cap s \<in> pop_held (lq_pc s u)))) \<and>
    (lq_pc s t = Push_seq x pos \<longrightarrow> 0 < seq_dif (c_seq (lf_cell s pos)) pos \<longrightarrow> pos \<noteq> lf_tail s) \<and>
    (lq_pc s t = Pop_seq pos \<longrightarrow> seq_dif (c_seq (lf_cell s pos)) (pos + 1) < 0 \<longrightarrow>
      (pos = lf_head s \<and> lf_head s = lf_tail s) \<or> (\<exists>u. unat pos \<in> push_held (lq_pc s u))) \<and>
    (lq_pc s t = Pop_seq pos \<longrightarrow> 0 < seq_dif (c_seq (lf_cell s pos)) (pos + 1) \<longrightarrow> pos \<noteq> lf_head s)"
proof (intro conjI impI)
  note good = lq_reach_good [OF assms]
  note core = lq_goodD(1) [OF good]
  note pu = push_dif_sign [OF good, of t x pos] push_seq_says [OF core _ refl, of "unat pos"]
  note po = pop_dif_sign [OF good, of t pos] pop_seq_says [OF core _ refl, of "unat pos"]
  {
    assume pc: "lq_pc s t = Push_seq x pos" and neg: "seq_dif (c_seq (lf_cell s pos)) pos < 0"
    then have a: "unat pos = unat (lf_tail s)" "lf_cap s \<le> unat pos"
        "unat (lf_head s) \<le> unat pos - lf_cap s \<or> unat pos - lf_cap s \<in> popping s"
      using pu by blast+
    then show "pos = lf_tail s" "lf_cap s \<le> unat pos"
        "unat (lf_head s) \<le> unat pos - lf_cap s \<or> (\<exists>u. unat pos - lf_cap s \<in> pop_held (lq_pc s u))"
      by (simp_all add: held_def word_unat_eq_iff)
  next
    assume "lq_pc s t = Push_seq x pos" and "0 < seq_dif (c_seq (lf_cell s pos)) pos"
    then show "pos \<noteq> lf_tail s" using pu by blast
  next
    assume "lq_pc s t = Pop_seq pos" and "seq_dif (c_seq (lf_cell s pos)) (pos + 1) < 0"
    then have "(unat pos = unat (lf_head s) \<and> unat (lf_head s) = unat (lf_tail s)) \<or> unat pos \<in> pushing s"
      using po by blast
    then show "(pos = lf_head s \<and> lf_head s = lf_tail s) \<or> (\<exists>u. unat pos \<in> push_held (lq_pc s u))"
      by (simp add: held_def word_unat_eq_iff)
  next
    assume "lq_pc s t = Pop_seq pos" and "0 < seq_dif (c_seq (lf_cell s pos)) (pos + 1)"
    then show "pos \<noteq> lf_head s" using po by blast
  }
qed

text \<open>The witnesses: thread 0 has pushed 7, thread 1 has claimed it, thread 2 has claimed the next
  position for 8 and is about to write it.\<close>

lemma lq_example:
  "\<exists>s :: nat lq_sys. reach (lq_start 0 2) lq_step s \<and> lq_bound s \<and> lq_pushed s = [7, 8] \<and>
     lf_mask s = 1 \<and> lq_pc s 1 = Pop_read 0 \<and> lq_pc s 2 = Push_write 8 1 \<and> lf_head s = 1 \<and> lq_popped s = [] \<and>
     lf_tail s = 2 \<and> lf_cells s = [\<lparr>c_seq = 1, c_data = 7\<rparr>, \<lparr>c_seq = 1, c_data = 0\<rparr>] \<and> lq_pc s 3 = Q_idle"
proof -
  let ?c = "\<lambda>a x b y. [\<lparr>c_seq = a, c_data = x\<rparr>, \<lparr>c_seq = b, c_data = y\<rparr>] :: nat lcell list"
  let ?s = "\<lambda>t h cs pc l. \<lparr>lf_tail = t, lf_head = h, lf_cells = cs, lf_mask = 1,
      lq_pc = pc, lq_pushed = l, lq_popped = []\<rparr> :: nat lq_sys"
  let ?i = "\<lambda>_. Q_idle"
  have "nextPowerOfTwoChecked 2 = Inr 2" by code_simp
  moreover have "[0..<2] = [0, 1::nat]" by code_simp
  ultimately have "lq_init 0 2 (?s 0 0 (?c 0 0 1 0) ?i [])" by (simp add: lq_init_def lf_new_def)
  then have "reach (lq_start 0 2) lq_step (?s 0 0 (?c 0 0 1 0) ?i [])"
    by (intro reach_init) (simp add: lq_start_def)
  from reach_step [OF this lq_step.push_call [of _ 0 7]]
  have "reach (lq_start 0 2) lq_step (?s 0 0 (?c 0 0 1 0) (?i(0 := Push_seq 7 0)) [])" by simp
  from reach_step [OF this lq_step.push_free [of _ 0 7 0]]
  have "reach (lq_start 0 2) lq_step (?s 0 0 (?c 0 0 1 0) (?i(0 := Push_cas 7 0)) [])"
    by (simp add: seq_dif_def lf_cell_def slot_def)
  from reach_step [OF this lq_step.push_claim [of _ 0 7 0]]
  have "reach (lq_start 0 2) lq_step (?s 1 0 (?c 0 0 1 0) (?i(0 := Push_write 7 0)) [7])" by simp
  from reach_step [OF this lq_step.push_write [of _ 0 7 0]]
  have "reach (lq_start 0 2) lq_step (?s 1 0 (?c 0 7 1 0) (?i(0 := Push_publish 7 0)) [7])"
    by (simp add: slot_def lf_cell_def)
  from reach_step [OF this lq_step.push_publish [of _ 0 7 0]]
  have "reach (lq_start 0 2) lq_step (?s 1 0 (?c 1 7 1 0) (?i(0 := Q_idle)) [7])"
    by (simp add: slot_def lf_cell_def)
  from reach_step [OF this lq_step.pop_call [of _ 1]]
  have "reach (lq_start 0 2) lq_step (?s 1 0 (?c 1 7 1 0) (?i(0 := Q_idle, 1 := Pop_seq 0)) [7])" by simp
  from reach_step [OF this lq_step.pop_ready [of _ 1 0]]
  have "reach (lq_start 0 2) lq_step (?s 1 0 (?c 1 7 1 0) (?i(0 := Q_idle, 1 := Pop_cas 0)) [7])"
    by (simp add: seq_dif_def lf_cell_def slot_def)
  from reach_step [OF this lq_step.pop_claim [of _ 1 0]]
  have "reach (lq_start 0 2) lq_step (?s 1 1 (?c 1 7 1 0) (?i(0 := Q_idle, 1 := Pop_read 0)) [7])" by simp
  from reach_step [OF this lq_step.push_call [of _ 2 8]]
  have "reach (lq_start 0 2) lq_step
      (?s 1 1 (?c 1 7 1 0) (?i(0 := Q_idle, 1 := Pop_read 0, 2 := Push_seq 8 1)) [7])" by simp
  from reach_step [OF this lq_step.push_free [of _ 2 8 1]]
  have "reach (lq_start 0 2) lq_step
      (?s 1 1 (?c 1 7 1 0) (?i(0 := Q_idle, 1 := Pop_read 0, 2 := Push_cas 8 1)) [7])"
    by (simp add: seq_dif_def lf_cell_def slot_def)
  from reach_step [OF this lq_step.push_claim [of _ 2 8 1]]
  have "reach (lq_start 0 2) lq_step
      (?s 2 1 (?c 1 7 1 0) (?i(0 := Q_idle, 1 := Pop_read 0, 2 := Push_write 8 1)) [7, 8])" by simp
  then show ?thesis by (intro exI conjI) (assumption, simp_all add: lq_bound_def lf_cap_def)
qed

theorem lfq_concurrent_fifo_witness:
  "\<exists>s :: nat lq_sys. reach (lq_start 0 2) lq_step s \<and> lq_pushed s = [7, 8] \<and>
     0 \<notin> fst ` set (lq_popped s) \<and> (\<exists>t. 0 \<in> pop_held (lq_pc s t))"
proof -
  obtain s :: "nat lq_sys" where s: "reach (lq_start 0 2) lq_step s" "lq_bound s" "lq_pushed s = [7, 8]"
      "lf_head s = 1" "lq_popped s = []"
    using lq_example by blast
  then show ?thesis
    using lfq_concurrent_fifo [OF s(1,2)] by (intro exI [of _ s]) auto
qed

theorem lfq_no_data_race_witness:
  "\<exists>s :: nat lq_sys. reach (lq_start 0 2) lq_step s \<and>
     (\<exists>i j. data_access (lf_mask s) (lq_pc s 1) = Some i \<and> data_access (lf_mask s) (lq_pc s 2) = Some j \<and> i \<noteq> j)"
proof -
  obtain s :: "nat lq_sys" where s: "reach (lq_start 0 2) lq_step s" "lq_bound s"
      "lq_pc s 1 = Pop_read 0" "lq_pc s 2 = Push_write 8 1"
    using lq_example by blast
  have "data_access (lf_mask s) (lq_pc s 1) \<noteq> None" "data_access (lf_mask s) (lq_pc s 2) \<noteq> None"
    using s by simp_all
  moreover have "(1::nat) \<noteq> 2" by simp
  ultimately show ?thesis using lfq_no_data_race [OF s(1,2), of 1 2] s(1) by blast
qed

theorem lfq_answers_witness:
  "\<exists>s :: nat lq_sys. reach (lq_start 0 2) lq_step s \<and> lq_pc s 3 = Push_seq 9 2 \<and>
     seq_dif (c_seq (lf_cell s 2)) 2 < 0 \<and> lf_tail s = 2"
proof -
  obtain s0 :: "nat lq_sys" where s0: "reach (lq_start 0 2) lq_step s0" "lq_bound s0" "lq_pushed s0 = [7, 8]"
      "lf_mask s0 = 1" "lf_tail s0 = 2" "lf_cells s0 = [\<lparr>c_seq = 1, c_data = 7\<rparr>, \<lparr>c_seq = 1, c_data = 0\<rparr>]"
      "lq_pc s0 3 = Q_idle"
    using lq_example by blast
  let ?s = "s0\<lparr>lq_pc := (lq_pc s0)(3 := Push_seq 9 2)\<rparr>"
  have r: "reach (lq_start 0 2) lq_step ?s"
    using reach_step [OF s0(1) lq_step.push_call [OF s0(7), of 9]] s0(5) by simp
  have b: "lq_bound ?s" using s0(2) by (simp add: lq_bound_def)
  have n: "seq_dif (c_seq (lf_cell ?s 2)) 2 < 0"
    by (simp add: lf_cell_def slot_def s0 seq_dif_def)
  have "lq_pc ?s 3 = Push_seq 9 2" by simp
  with n have "2 = lf_tail ?s" using lfq_answers [OF r b, of 3 9 2] by blast
  then show ?thesis using r n by (intro exI [of _ ?s]) simp
qed

end
