(* ===== verification/LFQ_Refinement.thy ===== *)
theory LFQ_Refinement
  imports LFQ_Concurrent Interfaces
begin

text \<open>
  \<open>LockFreeQueue\<close> used by any number of threads is an atomic bounded FIFO queue: every step that changes the
  queue is one operation of \<open>fifo_step\<close>, done by the compare-exchange of the thread that runs it, and what
  the thread later returns is that operation's result. The answers \<open>full\<close> and \<open>empty\<close> are the
  specification's too, unless another thread is in the middle of an operation on the cell looked at. This
  is the contract \<open>WS_Thread_Pool\<close> uses for the entry queue, with the deviations its \<open>_race\<close> rules allow.
\<close>

section \<open>The abstract queue\<close>

definition lq_abs :: "'a lq_sys \<Rightarrow> nat \<times> 'a list" where
  "lq_abs s = (lf_cap s, drop (unat (lf_head s)) (lq_pushed s))"

text \<open>The operation that takes effect in a step: at the compare-exchange on \<open>tail_\<close> or \<open>head_\<close>.\<close>

definition lq_effect :: "'a lq_sys \<Rightarrow> 'a lq_sys \<Rightarrow> ('a qop \<times> 'a qres) option" where
  "lq_effect s s' =
     (if lf_tail s' \<noteq> lf_tail s then Some (Enq (last (lq_pushed s')), Accepted True)
      else if lf_head s' \<noteq> lf_head s then Some (Deq, Got (Some (lq_pushed s ! unat (lf_head s))))
      else None)"

lemma lq_good_window:
  assumes "lq_good s"
  shows "unat (lf_head s) \<le> length (lq_pushed s)" "length (lq_pushed s) \<le> unat (lf_head s) + lf_cap s"
    "unat (lf_tail s) = length (lq_pushed s)" "unat (lf_head s + 1) = unat (lf_head s) + 1"
    "unat (lf_tail s + 1) = unat (lf_tail s) + 1"
proof -
  note d = lq_coreD [OF lq_goodD(1) [OF assms]]
  show "unat (lf_head s) \<le> length (lq_pushed s)" "length (lq_pushed s) \<le> unat (lf_head s) + lf_cap s"
    "unat (lf_tail s) = length (lq_pushed s)" using d(3,5,6) by simp_all
  have "unat (lf_head s) < 2 ^ 63" "unat (lf_tail s) < 2 ^ 63" using d(4,5) by linarith+
  then show "unat (lf_head s + 1) = unat (lf_head s) + 1" "unat (lf_tail s + 1) = unat (lf_tail s) + 1"
    using unat_plus_1 by blast+
qed

lemma lq_push_effect:
  assumes good: "lq_good s" and pc: "lq_pc s t = Push_cas x (lf_tail s)"
  shows "fifo_step (Enq x) (lq_abs s) = (Accepted True, (lf_cap s, drop (unat (lf_head s)) (lq_pushed s @ [x])))"
proof -
  note w = lq_good_window [OF good]
  have "unat (lf_tail s) \<in> claimable s (popping s)" using lq_goodD(5) [OF good, of t] pc by simp
  then have "length (lq_pushed s) < unat (lf_head s) + lf_cap s" using w(3) by (simp add: claimable_def)
  then show ?thesis using w(1) by (simp add: lq_abs_def)
qed

lemma lq_pop_effect:
  assumes good: "lq_good s" and pc: "lq_pc s t = Pop_cas (lf_head s)"
  shows "fifo_step Deq (lq_abs s) =
    (Got (Some (lq_pushed s ! unat (lf_head s))), (lf_cap s, drop (unat (lf_head s) + 1) (lq_pushed s)))"
proof -
  note w = lq_good_window [OF good]
  have "unat (lf_head s) < length (lq_pushed s)" using lq_goodD(5) [OF good, of t] pc w(3) by simp
  then show ?thesis by (simp add: lq_abs_def Cons_nth_drop_Suc [symmetric])
qed

lemma lq_full_means:
  assumes good: "lq_good s" and pc: "lq_pc s t = Push_seq x pos" and neg: "seq_dif (c_seq (lf_cell s pos)) pos < 0"
  shows "fst (fifo_step (Enq x) (lq_abs s)) = Accepted False \<or> (\<exists>u. pop_held (lq_pc s u) \<noteq> {})"
proof -
  note w = lq_good_window [OF good]
  have "unat pos = unat (lf_tail s) \<and> lf_cap s \<le> unat pos \<and>
      (unat (lf_head s) \<le> unat pos - lf_cap s \<or> unat pos - lf_cap s \<in> popping s)"
    using push_dif_sign(2,4) [OF good pc] neg
      push_seq_says(2) [OF lq_goodD(1) [OF good] _ refl, of "unat pos"] by blast
  then have "length (lq_pushed s) - unat (lf_head s) \<ge> lf_cap s \<or> popping s \<noteq> {}" using w by auto
  then show ?thesis by (auto simp: lq_abs_def held_def)
qed

lemma lq_empty_means:
  assumes good: "lq_good s" and pc: "lq_pc s t = Pop_seq pos" and neg: "seq_dif (c_seq (lf_cell s pos)) (pos + 1) < 0"
  shows "fst (fifo_step Deq (lq_abs s)) = Got None \<or> (\<exists>u. push_held (lq_pc s u) \<noteq> {})"
proof -
  note w = lq_good_window [OF good]
  have "(unat pos = unat (lf_head s) \<and> unat (lf_head s) = unat (lf_tail s)) \<or> unat pos \<in> pushing s"
    using pop_dif_sign(2,4) [OF good pc] neg
      pop_seq_says(2) [OF lq_goodD(1) [OF good] _ refl, of "unat pos"] by blast
  then have "drop (unat (lf_head s)) (lq_pushed s) = [] \<or> pushing s \<noteq> {}" using w by auto
  then show ?thesis by (auto simp: lq_abs_def held_def)
qed

lemma lq_step_effect:
  assumes good: "lq_good s" and st: "lq_step s s'"
  shows "case lq_effect s s' of None \<Rightarrow> lq_abs s' = lq_abs s | Some (x, r) \<Rightarrow> fifo_step x (lq_abs s) = (r, lq_abs s')"
  using st
proof cases
  case (push_claim t x pos)
  have "lf_tail s + 1 \<noteq> lf_tail s" by simp
  then show ?thesis
    using lq_push_effect [OF good, of t x] push_claim by (simp add: lq_effect_def lq_abs_def)
next
  case (pop_claim t pos)
  have "lf_head s + 1 \<noteq> lf_head s" by simp
  then show ?thesis
    using lq_pop_effect [OF good, of t] pop_claim lq_good_window(4) [OF good] by (simp add: lq_effect_def lq_abs_def)
qed (simp_all add: lq_effect_def lq_abs_def)

definition lq_fresh :: "'a \<Rightarrow> size_t \<Rightarrow> 'a lq_sys \<Rightarrow> bool" where
  "lq_fresh d n s \<longleftrightarrow> lq_start d n s \<and> lq_bound s"

definition lq_counted :: "'a lq_sys \<Rightarrow> 'a lq_sys \<Rightarrow> bool" where
  "lq_counted s s' \<longleftrightarrow> lq_step s s' \<and> lq_bound s'"

interpretation lfq: atomic_object "lq_fresh d n" lq_counted lq_good lq_abs fifo_step lq_effect for d :: 'a and n
proof unfold_locales
  show "lq_fresh d n s \<Longrightarrow> lq_good s" for s :: "'a lq_sys"
    using lq_good_init by (auto simp: lq_fresh_def lq_start_def)
  show "lq_good s \<Longrightarrow> lq_counted s t \<Longrightarrow> lq_good t" for s t :: "'a lq_sys"
    using lq_good_step by (auto simp: lq_counted_def)
  show "lq_abs t = lq_abs s" if "lq_good s" "lq_counted s t" "lq_effect s t = None" for s t :: "'a lq_sys"
    using lq_step_effect [OF that(1), of t] that(2,3) by (simp add: lq_counted_def)
  show "fifo_step x (lq_abs s) = (r, lq_abs t)" if "lq_good s" "lq_counted s t" "lq_effect s t = Some (x, r)"
    for s t :: "'a lq_sys" and x r
    using lq_step_effect [OF that(1), of t] that(2,3) by (simp add: lq_counted_def)
qed

lemma lq_reach_counted: "reach (lq_start d n) lq_step s \<Longrightarrow> lq_bound s \<Longrightarrow> reach (lq_fresh d n) lq_counted s"
proof (induction rule: reach.induct)
  case (reach_init s)
  then show ?case by (simp add: reach.reach_init lq_fresh_def)
next
  case (reach_step s t)
  then have "lq_bound s" using lq_bound_back by blast
  then show ?case using reach_step by (auto simp: lq_counted_def intro: reach.reach_step)
qed

section \<open>The property\<close>

text \<open>C13: \<open>LockFreeQueue\<close> (requested capacity at least 2, fewer than \<open>2 ^ 63\<close> pushes) refines an atomic
  bounded FIFO queue. In every reachable state, the queue is what some sequence of atomic operations makes
  of the empty queue. A step either leaves the queue alone or is one such operation: the compare-exchange
  of a \<open>push\<close> of \<open>x\<close> appends \<open>x\<close> and that of a \<open>pop\<close> takes the first element, which is what the \<open>pop\<close>
  returns. When \<open>push\<close> answers that the queue is full, it is, unless a \<open>pop\<close> has not yet released
  its cell; when \<open>pop\<close> answers that it is empty, it is, unless a \<open>push\<close> has not yet published its
  element.\<close>

theorem lfq_refines_fifo:
  assumes "reach (lq_start d n) lq_step s" "lq_step s s'" "lq_bound s'"
  shows "(\<exists>ops rs. run_spec fifo_step ops (lf_cap s, []) = (rs, lq_abs s)) \<and>
    (case lq_effect s s' of None \<Rightarrow> lq_abs s' = lq_abs s | Some (x, r) \<Rightarrow> fifo_step x (lq_abs s) = (r, lq_abs s')) \<and>
    (lq_pc s t = Push_cas x pos \<and> lq_pc s' t = Push_write x pos \<longrightarrow> lq_effect s s' = Some (Enq x, Accepted True)) \<and>
    (lq_pc s t = Pop_cas pos \<and> lq_pc s' t = Pop_read pos \<longrightarrow>
       lq_effect s s' = Some (Deq, Got (Some (lq_pushed s ! unat pos)))) \<and>
    (lq_pc s t = Pop_publish pos v \<longrightarrow> v = lq_pushed s ! unat pos) \<and>
    (lq_pc s t = Push_seq x pos \<and> lq_pc s' t = Q_idle \<longrightarrow>
       fst (fifo_step (Enq x) (lq_abs s)) = Accepted False \<or> (\<exists>u. pop_held (lq_pc s u) \<noteq> {})) \<and>
    (lq_pc s t = Pop_seq pos \<and> lq_pc s' t = Q_idle \<longrightarrow>
       fst (fifo_step Deq (lq_abs s)) = Got None \<or> (\<exists>u. push_held (lq_pc s u) \<noteq> {}))"
proof (intro conjI impI)
  have b: "lq_bound s" by (rule lq_bound_back [OF assms(2,3)])
  note good = lq_reach_good [OF assms(1) b]
  show "case lq_effect s s' of None \<Rightarrow> lq_abs s' = lq_abs s | Some (x, r) \<Rightarrow> fifo_step x (lq_abs s) = (r, lq_abs s')"
    by (rule lq_step_effect [OF good assms(2)])
  show "v = lq_pushed s ! unat pos" if "lq_pc s t = Pop_publish pos v"
    using lq_goodD(5) [OF good, of t] that by simp
  show "lq_effect s s' = Some (Enq x, Accepted True)" if "lq_pc s t = Push_cas x pos \<and> lq_pc s' t = Push_write x pos"
    using assms(2) by cases (use that in \<open>auto simp: lq_effect_def split: if_splits\<close>)
  show "lq_effect s s' = Some (Deq, Got (Some (lq_pushed s ! unat pos)))"
    if "lq_pc s t = Pop_cas pos \<and> lq_pc s' t = Pop_read pos"
    using assms(2) by cases (use that in \<open>auto simp: lq_effect_def split: if_splits\<close>)
  show "fst (fifo_step (Enq x) (lq_abs s)) = Accepted False \<or> (\<exists>u. pop_held (lq_pc s u) \<noteq> {})"
    if "lq_pc s t = Push_seq x pos \<and> lq_pc s' t = Q_idle"
  proof -
    have "seq_dif (c_seq (lf_cell s pos)) pos < 0"
      using assms(2) by cases (use that in \<open>auto split: if_splits\<close>)
    then show ?thesis
      using lq_full_means [OF good] that by blast
  qed
  show "fst (fifo_step Deq (lq_abs s)) = Got None \<or> (\<exists>u. push_held (lq_pc s u) \<noteq> {})"
    if "lq_pc s t = Pop_seq pos \<and> lq_pc s' t = Q_idle"
  proof -
    have "seq_dif (c_seq (lf_cell s pos)) (pos + 1) < 0"
      using assms(2) by cases (use that in \<open>auto split: if_splits\<close>)
    then show ?thesis
      using lq_empty_means [OF good] that by blast
  qed
  obtain s0 ops rs where run: "lq_fresh d n s0" "run_spec fifo_step ops (lq_abs s0) = (rs, lq_abs s)"
    using lfq.linearization [OF lq_reach_counted [OF assms(1) b]] by blast
  have "lq_abs s0 = (lf_cap s0, [])"
    using run(1) by (auto simp: lq_fresh_def lq_start_def lq_init_def lq_abs_def)
  moreover have "fst (lq_abs s0) = fst (lq_abs s)"
    using run_spec_fifo_capacity [of ops "lq_abs s0"] run(2) by simp
  ultimately show "\<exists>ops rs. run_spec fifo_step ops (lf_cap s, []) = (rs, lq_abs s)"
    using run(2) by (auto simp: lq_abs_def)
qed

theorem lfq_refines_fifo_witness:
  "\<exists>s s' :: nat lq_sys. reach (lq_start 0 2) lq_step s \<and> lq_step s s' \<and> lq_pc s 3 = Push_seq 9 2 \<and>
     lq_pc s' 3 = Q_idle \<and> lq_abs s = (2, [8]) \<and> lq_abs s' = lq_abs s \<and> (\<exists>u. pop_held (lq_pc s u) \<noteq> {})"
proof -
  obtain s0 :: "nat lq_sys" where s0: "reach (lq_start 0 2) lq_step s0" "lq_bound s0" "lq_pushed s0 = [7, 8]"
      "lf_mask s0 = 1" "lf_tail s0 = 2" "lf_cells s0 = [\<lparr>c_seq = 1, c_data = 7\<rparr>, \<lparr>c_seq = 1, c_data = 0\<rparr>]"
      "lq_pc s0 3 = Q_idle" "lf_head s0 = 1"
    using lq_example by blast
  let ?s = "s0\<lparr>lq_pc := (lq_pc s0)(3 := Push_seq 9 2)\<rparr>"
  let ?t = "?s\<lparr>lq_pc := (lq_pc ?s)(3 := Q_idle)\<rparr>"
  have r: "reach (lq_start 0 2) lq_step ?s"
    using reach_step [OF s0(1) lq_step.push_call [OF s0(7), of 9]] s0(5) by simp
  have st: "lq_step ?s ?t"
    by (rule lq_step.push_full [of _ 3 9 2]) (simp_all add: lf_cell_def slot_def s0 seq_dif_def)
  have b: "lq_bound ?t" using s0(2) by (simp add: lq_bound_def)
  have abs: "lq_abs ?s = (2, [8])" "lq_abs ?t = lq_abs ?s" by (simp_all add: lq_abs_def lf_cap_def s0)
  have "fst (fifo_step (Enq 9) (lq_abs ?s)) = Accepted False \<or> (\<exists>u. pop_held (lq_pc ?s u) \<noteq> {})"
    using lfq_refines_fifo [OF r st b, of 3 9 2] by simp
  then have "\<exists>u. pop_held (lq_pc ?s u) \<noteq> {}" by (simp add: abs(1))
  then show ?thesis using r st abs by (intro exI [of _ ?s] exI [of _ ?t]) simp
qed

end
