(* ===== verification/Light_Epoch.thy ===== *)
theory Light_Epoch
  imports Prelude
begin

text \<open>
  \<open>include/LightEpoch.h\<close>: the gate with which the owner of a work-stealing queue keeps thieves out
  while it replaces the array. The comment in the code explains the
  \<open>atomic_thread_fence(seq_cst)\<close> with the x86 store buffer, so the model is total store order: a
  store of the owner to \<open>gate_\<close> goes to its store buffer, from which it reaches the memory at any
  later time, in order; the fence waits until the buffer is empty; the thieves' accesses to \<open>active_\<close>
  are atomic read-modify-writes and they store nothing else, so they need no buffer. The steps take
  the number of thieves and whether the fence is there, so that both programs can be compared.
\<close>

section \<open>State and steps\<close>

datatype owner_pc =
    O_out
  | O_fence        \<comment> \<open>\<open>gate_\<close> stored, the fence not yet passed\<close>
  | O_spin         \<comment> \<open>waiting for \<open>active_ == 0\<close>\<close>
  | O_window       \<comment> \<open>\<open>QuiesceWindow\<close> constructed\<close>

datatype thief_pc =
    T_out
  | T_check        \<comment> \<open>top of the loop of \<open>enter\<close>\<close>
  | T_register     \<comment> \<open>gate seen open, about to increment\<close>
  | T_recheck      \<comment> \<open>registered, gate not yet read again\<close>
  | T_undo         \<comment> \<open>gate seen closed, about to decrement\<close>
  | T_inside       \<comment> \<open>\<open>enter\<close> has returned\<close>

record epoch =
  ep_gate :: bool
  ep_buffer :: "bool list"
  ep_active :: u32
  ep_owner :: owner_pc
  ep_thief :: "nat \<Rightarrow> thief_pc"

definition ep_init :: "epoch \<Rightarrow> bool" where
  "ep_init s \<longleftrightarrow> s = \<lparr>ep_gate = False, ep_buffer = [], ep_active = 0, ep_owner = O_out,
     ep_thief = (\<lambda>_. T_out)\<rparr>"

inductive ep_thief_step :: "nat \<Rightarrow> epoch \<Rightarrow> epoch \<Rightarrow> bool" for n :: nat where
  enter_call: "t < n \<Longrightarrow> ep_thief s t = T_out \<Longrightarrow>
    ep_thief_step n s (s\<lparr>ep_thief := (ep_thief s)(t := T_check)\<rparr>)"
| enter_open: "t < n \<Longrightarrow> ep_thief s t = T_check \<Longrightarrow> \<not> ep_gate s \<Longrightarrow>
    ep_thief_step n s (s\<lparr>ep_thief := (ep_thief s)(t := T_register)\<rparr>)"
| enter_closed: "t < n \<Longrightarrow> ep_thief s t = T_check \<Longrightarrow> ep_gate s \<Longrightarrow>
    ep_thief_step n s (s\<lparr>ep_thief := (ep_thief s)(t := T_check)\<rparr>)"
| enter_add: "t < n \<Longrightarrow> ep_thief s t = T_register \<Longrightarrow>
    ep_thief_step n s (s\<lparr>ep_active := ep_active s + 1, ep_thief := (ep_thief s)(t := T_recheck)\<rparr>)"
| enter_ok: "t < n \<Longrightarrow> ep_thief s t = T_recheck \<Longrightarrow> \<not> ep_gate s \<Longrightarrow>
    ep_thief_step n s (s\<lparr>ep_thief := (ep_thief s)(t := T_inside)\<rparr>)"
| enter_retry: "t < n \<Longrightarrow> ep_thief s t = T_recheck \<Longrightarrow> ep_gate s \<Longrightarrow>
    ep_thief_step n s (s\<lparr>ep_thief := (ep_thief s)(t := T_undo)\<rparr>)"
| enter_sub: "t < n \<Longrightarrow> ep_thief s t = T_undo \<Longrightarrow>
    ep_thief_step n s (s\<lparr>ep_active := ep_active s - 1, ep_thief := (ep_thief s)(t := T_check)\<rparr>)"
| exit_sub: "t < n \<Longrightarrow> ep_thief s t = T_inside \<Longrightarrow>
    ep_thief_step n s (s\<lparr>ep_active := ep_active s - 1, ep_thief := (ep_thief s)(t := T_out)\<rparr>)"

inductive ep_owner_step :: "bool \<Rightarrow> epoch \<Rightarrow> epoch \<Rightarrow> bool" for fence :: bool where
  window_close: "ep_owner s = O_out \<Longrightarrow>
    ep_owner_step fence s (s\<lparr>ep_buffer := ep_buffer s @ [True], ep_owner := O_fence\<rparr>)"
| window_fence: "ep_owner s = O_fence \<Longrightarrow> (fence \<Longrightarrow> ep_buffer s = []) \<Longrightarrow>
    ep_owner_step fence s (s\<lparr>ep_owner := O_spin\<rparr>)"
| window_wait: "ep_owner s = O_spin \<Longrightarrow> ep_active s \<noteq> 0 \<Longrightarrow> ep_owner_step fence s s"
| window_open: "ep_owner s = O_spin \<Longrightarrow> ep_active s = 0 \<Longrightarrow>
    ep_owner_step fence s (s\<lparr>ep_owner := O_window\<rparr>)"
| window_end: "ep_owner s = O_window \<Longrightarrow>
    ep_owner_step fence s (s\<lparr>ep_buffer := ep_buffer s @ [False], ep_owner := O_out\<rparr>)"

inductive ep_drain :: "epoch \<Rightarrow> epoch \<Rightarrow> bool" where
  drain: "ep_buffer s = b # bs \<Longrightarrow> ep_drain s (s\<lparr>ep_gate := b, ep_buffer := bs\<rparr>)"

definition ep_step :: "bool \<Rightarrow> nat \<Rightarrow> epoch \<Rightarrow> epoch \<Rightarrow> bool" where
  "ep_step fence n s s' \<longleftrightarrow> ep_owner_step fence s s' \<or> ep_drain s s' \<or> ep_thief_step n s s'"

section \<open>The invariant\<close>

fun registered :: "thief_pc \<Rightarrow> nat" where
  "registered T_recheck = 1"
| "registered T_undo = 1"
| "registered T_inside = 1"
| "registered _ = 0"

definition ep_count :: "nat \<Rightarrow> epoch \<Rightarrow> nat" where
  "ep_count n s = (\<Sum>t<n. registered (ep_thief s t))"

text \<open>\<open>ep_closed\<close> is what the fence buys: while the owner waits or works, its closing store has
  reached the memory.\<close>

definition ep_closed :: "epoch \<Rightarrow> bool" where
  "ep_closed s \<longleftrightarrow>
     (ep_owner s = O_spin \<or> ep_owner s = O_window \<longrightarrow> ep_gate s \<and> ep_buffer s = []) \<and>
     (ep_owner s = O_fence \<longrightarrow> (if ep_buffer s = [] then ep_gate s else last (ep_buffer s)))"

definition ep_inv :: "nat \<Rightarrow> epoch \<Rightarrow> bool" where
  "ep_inv n s \<longleftrightarrow>
     unat (ep_active s) = ep_count n s \<and> ep_closed s \<and>
     (\<forall>t. n \<le> t \<longrightarrow> ep_thief s t = T_out) \<and>
     (ep_owner s = O_window \<longrightarrow> (\<forall>t. ep_thief s t \<noteq> T_inside))"

lemma registered_le: "registered p \<le> 1"
  by (cases p) auto

lemma ep_count_le: "ep_count n s \<le> n"
  unfolding ep_count_def using sum_thread_le [of registered "ep_thief s" 1 n] registered_le by simp

lemma ep_count_update:
  "t < n \<Longrightarrow> ep_count n (s\<lparr>ep_active := a, ep_thief := (ep_thief s)(t := p)\<rparr>) + registered (ep_thief s t)
    = ep_count n s + registered p"
  by (simp add: ep_count_def sum_thread_update del: fun_upd_apply)

lemma ep_count_member: "t < n \<Longrightarrow> registered (ep_thief s t) \<le> ep_count n s"
  unfolding ep_count_def by (rule sum_thread_member)

lemma unat32_inc: "unat (w :: u32) < 2 ^ 32 - 1 \<Longrightarrow> unat (w + 1) = unat w + 1"
  by (simp add: unat_word_ariths)

lemma unat32_dec: "0 < unat (w :: u32) \<Longrightarrow> unat (w - 1) = unat w - 1"
  by (simp add: unat_sub word_le_nat_alt)

lemma ep_invD:
  assumes "ep_inv n s"
  shows "unat (ep_active s) = ep_count n s" "ep_closed s" "n \<le> t \<Longrightarrow> ep_thief s t = T_out"
    "ep_owner s = O_window \<Longrightarrow> ep_thief s t \<noteq> T_inside"
  using assms by (auto simp: ep_inv_def)

text \<open>A thief moves on; \<open>active_\<close> keeps counting the registered thieves.\<close>

lemma ep_inv_thief:
  assumes inv: "ep_inv n s" and t: "t < n"
    and act: "unat a + registered (ep_thief s t) = unat (ep_active s) + registered p"
    and ins: "p = T_inside \<Longrightarrow> ep_owner s \<noteq> O_window"
  shows "ep_inv n (s\<lparr>ep_active := a, ep_thief := (ep_thief s)(t := p)\<rparr>)"
proof -
  have "unat a = ep_count n (s\<lparr>ep_active := a, ep_thief := (ep_thief s)(t := p)\<rparr>)"
    using ep_count_update [OF t, of s p a] act ep_invD(1) [OF inv] by linarith
  then show ?thesis
    using inv t ins by (auto simp: ep_inv_def ep_closed_def)
qed

lemma ep_inv_thief_step:
  assumes inv: "ep_inv n s" and n: "n < 2 ^ 32" and step: "ep_thief_step n s s'"
  shows "ep_inv n s'"
proof -
  have same: "ep_inv n (s\<lparr>ep_thief := (ep_thief s)(t := p)\<rparr>)"
    if "t < n" "registered p = registered (ep_thief s t)" "p = T_inside \<Longrightarrow> ep_owner s \<noteq> O_window" for t p
    using ep_inv_thief [OF inv that(1), of "ep_active s" p] that(2,3) by simp
  have dec: "unat (ep_active s - 1) + 1 = unat (ep_active s)" if "t < n" "registered (ep_thief s t) = 1" for t
    using unat32_dec [of "ep_active s"] ep_count_member [OF that(1), of s] ep_invD(1) [OF inv] that(2) by simp
  have inc: "unat (ep_active s + 1) = unat (ep_active s) + 1" if t: "t < n" "ep_thief s t = T_register" for t
  proof (rule unat32_inc)
    have "ep_count n (s\<lparr>ep_active := 0, ep_thief := (ep_thief s)(t := T_recheck)\<rparr>) = ep_count n s + 1"
      using ep_count_update [OF t(1), of s T_recheck 0] t(2) by simp
    then have "ep_count n s + 1 \<le> n" by (metis ep_count_le)
    then show "unat (ep_active s) < 2 ^ 32 - 1" using ep_invD(1) [OF inv] n by simp
  qed
  from step show ?thesis
  proof cases
    case (enter_add t)
    then show ?thesis using ep_inv_thief [OF inv, of t _ T_recheck] inc by simp
  next
    case (enter_sub t)
    then show ?thesis using ep_inv_thief [OF inv, of t _ T_check] dec [of t] by simp
  next
    case (exit_sub t)
    then show ?thesis using ep_inv_thief [OF inv, of t _ T_out] dec [of t] by simp
  next
    case (enter_ok t)
    have "ep_owner s \<noteq> O_window" using ep_invD(2) [OF inv] enter_ok(4) by (auto simp: ep_closed_def)
    then show ?thesis using same [of t T_inside] enter_ok by simp
  qed (auto intro!: same)
qed

lemma count_0_outside:
  assumes "ep_inv n s" "ep_count n s = 0"
  shows "registered (ep_thief s t) = 0"
  using ep_count_member [of t n s] ep_invD(3) [OF assms(1), of t] assms(2) by (cases "t < n") auto

lemma ep_count_frame [simp]:
  "ep_count n (s\<lparr>ep_gate := g\<rparr>) = ep_count n s" "ep_count n (s\<lparr>ep_buffer := b\<rparr>) = ep_count n s"
  "ep_count n (s\<lparr>ep_owner := o'\<rparr>) = ep_count n s"
  by (simp_all add: ep_count_def)

lemma ep_inv_owner_step:
  assumes inv: "ep_inv n s" and step: "ep_owner_step True s s'"
  shows "ep_inv n s'"
  using step
proof cases
  case window_open
  have "ep_count n s = 0" using ep_invD(1) [OF inv] window_open(3) by simp
  then have "ep_thief s t \<noteq> T_inside" for t using count_0_outside [OF inv, of t] by auto
  then show ?thesis using inv window_open(1,2) by (simp add: ep_inv_def ep_closed_def)
qed (use inv in \<open>auto simp: ep_inv_def ep_closed_def\<close>)

lemma ep_inv_drain:
  assumes "ep_inv n s" "ep_drain s s'" shows "ep_inv n s'"
  using assms(2)
proof cases
  case (drain b bs)
  then show ?thesis using assms(1) by (auto simp: ep_inv_def ep_closed_def)
qed

text \<open>\<open>active_\<close> has 32 bits: the steps of fewer than \<open>2 ^ 32\<close> thieves.\<close>

definition ep_run :: "nat \<Rightarrow> epoch \<Rightarrow> epoch \<Rightarrow> bool" where
  "ep_run n s s' \<longleftrightarrow> n < 2 ^ 32 \<and> ep_step True n s s'"

interpretation ep: inductive_invariant ep_init "ep_run n" "ep_inv n" for n
proof unfold_locales
  show "ep_init s \<Longrightarrow> ep_inv n s" for s
    by (simp add: ep_init_def ep_inv_def ep_closed_def ep_count_def)
  show "ep_inv n s \<Longrightarrow> ep_run n s s' \<Longrightarrow> ep_inv n s'" for s s'
    unfolding ep_run_def ep_step_def
    using ep_inv_owner_step ep_inv_drain ep_inv_thief_step by blast
qed

lemma ep_reach_run:
  assumes "n < 2 ^ 32" "reach ep_init (ep_step True n) s"
  shows "reach ep_init (ep_run n) s"
  using assms(2)
proof (induction rule: reach.induct)
  case (reach_step s s')
  then show ?case by (metis assms(1) ep_run_def reach.reach_step)
qed (rule reach.reach_init)

lemma ep_reach_inv: "n < 2 ^ 32 \<Longrightarrow> reach ep_init (ep_step True n) s \<Longrightarrow> ep_inv n s"
  by (rule ep.inv_reach [OF ep_reach_run])

section \<open>The wait ends\<close>

text \<open>While the gate is closed, a thief has at most three steps left before it is back outside or at the
  top of its loop, and none of those steps can be repeated.\<close>

fun way_out :: "thief_pc \<Rightarrow> nat" where
  "way_out T_register = 3"
| "way_out T_recheck = 2"
| "way_out T_undo = 1"
| "way_out T_inside = 1"
| "way_out _ = 0"

definition ep_left :: "nat \<Rightarrow> epoch \<Rightarrow> nat" where
  "ep_left n s = (\<Sum>t<n. way_out (ep_thief s t))"

lemma ep_left_update:
  "t < n \<Longrightarrow> ep_left n (s\<lparr>ep_active := a, ep_thief := (ep_thief s)(t := p)\<rparr>) + way_out (ep_thief s t)
    = ep_left n s + way_out p"
  by (simp add: ep_left_def sum_thread_update del: fun_upd_apply)

lemma closed_thief_step:
  assumes step: "ep_thief_step n s s'" and gate: "ep_gate s"
  shows "ep_left n s' < ep_left n s \<or> (ep_left n s' = ep_left n s \<and> ep_active s' = ep_active s)"
proof -
  have upd: "ep_left n (s\<lparr>ep_thief := (ep_thief s)(t := p)\<rparr>) + way_out (ep_thief s t) = ep_left n s + way_out p"
    if "t < n" for t p
    using ep_left_update [OF that, of s p "ep_active s"] by simp
  from step show ?thesis
  proof cases
    case (enter_add t)
    then show ?thesis using ep_left_update [of t n s T_recheck "ep_active s + 1"] by simp
  next
    case (enter_sub t)
    then show ?thesis using ep_left_update [of t n s T_check "ep_active s - 1"] by simp
  next
    case (exit_sub t)
    then show ?thesis using ep_left_update [of t n s T_out "ep_active s - 1"] by simp
  next
    case (enter_call t)
    then show ?thesis using upd [of t T_check] by simp
  next
    case (enter_closed t)
    then show ?thesis using upd [of t T_check] by simp
  next
    case (enter_retry t)
    then show ?thesis using upd [of t T_undo] by simp
  qed (use gate in auto)
qed

lemma registered_way_out: "registered p \<le> way_out p"
  by (cases p) auto

lemma ep_count_left: "ep_count n s \<le> ep_left n s"
  unfolding ep_count_def ep_left_def by (rule sum_mono) (rule registered_way_out)

section \<open>Properties\<close>

text \<open>C14: with the fence, no thief is between \<open>enter\<close> and \<open>exit\<close> while the owner's \<open>QuiesceWindow\<close>
  exists, for any number of thieves below \<open>2 ^ 32\<close>, although the owner's stores to \<open>gate_\<close> may
  stay in its store buffer.\<close>

theorem epoch_window_exclusive:
  assumes "n < 2 ^ 32" and "reach ep_init (ep_step True n) s" and "ep_owner s = O_window"
  shows "ep_thief s t \<noteq> T_inside"
  using ep_invD(4) [OF ep_reach_inv [OF assms(1,2)]] assms(3) by simp

text \<open>The fence is needed: without it a thief can be inside while the window exists, as the
  comment in the constructor says.\<close>

theorem epoch_fence_needed:
  "\<exists>s. reach ep_init (ep_step False 1) s \<and> ep_owner s = O_window \<and> ep_thief s 0 = T_inside"
proof -
  let ?s = "\<lambda>b a own p. \<lparr>ep_gate = False, ep_buffer = b, ep_active = a, ep_owner = own,
    ep_thief = (\<lambda>_. T_out)(0 := p)\<rparr>"
  have own: "reach ep_init (ep_step False 1) s'"
    if "reach ep_init (ep_step False 1) s" "ep_owner_step False s s'" for s s'
    using reach_step [OF that(1)] that(2) by (simp add: ep_step_def)
  have thf: "reach ep_init (ep_step False 1) s'"
    if "reach ep_init (ep_step False 1) s" "ep_thief_step 1 s s'" for s s'
    using reach_step [OF that(1)] that(2) by (simp add: ep_step_def)
  have "reach ep_init (ep_step False 1) (?s [] 0 O_out T_out)"
    by (rule reach_init) (simp add: ep_init_def fun_eq_iff)
  from own [OF this window_close]
  have "reach ep_init (ep_step False 1) (?s [True] 0 O_fence T_out)" by simp
  from own [OF this window_fence]
  have "reach ep_init (ep_step False 1) (?s [True] 0 O_spin T_out)" by simp
  from own [OF this window_open]
  have "reach ep_init (ep_step False 1) (?s [True] 0 O_window T_out)" by simp
  from thf [OF this enter_call [of 0]]
  have "reach ep_init (ep_step False 1) (?s [True] 0 O_window T_check)" by simp
  from thf [OF this enter_open [of 0]]
  have "reach ep_init (ep_step False 1) (?s [True] 0 O_window T_register)" by simp
  from thf [OF this enter_add [of 0]]
  have "reach ep_init (ep_step False 1) (?s [True] 1 O_window T_recheck)" by simp
  from thf [OF this enter_ok [of 0]]
  have "reach ep_init (ep_step False 1) (?s [True] 1 O_window T_inside)" by simp
  then show ?thesis by (intro exI [of _ "?s [True] 1 O_window T_inside"]) simp
qed

text \<open>The owner's wait ends. While it spins, every step of a thief that touches \<open>active_\<close> brings
  the thieves closer to a bound of three steps each, and nothing sets them back, so no thief keeps
  the owner waiting by retrying; and when no thief has steps left, \<open>active_\<close> is 0 and the window opens.\<close>

theorem epoch_wait_ends:
  assumes "n < 2 ^ 32" and "reach ep_init (ep_step True n) s" and "ep_owner s = O_spin"
  shows "ep_left n s \<le> 3 * n \<and>
    (\<forall>s'. ep_step True n s s' \<longrightarrow> ep_owner s' = O_spin \<longrightarrow>
       ep_left n s' < ep_left n s \<or> (ep_left n s' = ep_left n s \<and> ep_active s' = ep_active s)) \<and>
    (ep_left n s = 0 \<longrightarrow> (\<exists>s'. ep_step True n s s' \<and> ep_owner s' = O_window))"
proof (intro conjI allI impI)
  note inv = ep_reach_inv [OF assms(1,2)]
  have closed: "ep_gate s" "ep_buffer s = []" using ep_invD(2) [OF inv] assms(3) by (simp_all add: ep_closed_def)
  have "way_out p \<le> 3" for p by (cases p) auto
  then show "ep_left n s \<le> 3 * n"
    unfolding ep_left_def using sum_thread_le [of way_out "ep_thief s" 3 n] by simp
  show "ep_left n s' < ep_left n s \<or> (ep_left n s' = ep_left n s \<and> ep_active s' = ep_active s)"
    if step: "ep_step True n s s'" and own: "ep_owner s' = O_spin" for s'
  proof -
    have "\<not> ep_drain s s'" using closed by (auto elim: ep_drain.cases)
    moreover have "s' = s" if "ep_owner_step True s s'"
      using that assms(3) own by cases auto
    ultimately show ?thesis
      using step closed_thief_step [OF _ closed(1), of n s'] unfolding ep_step_def by blast
  qed
  assume "ep_left n s = 0"
  then have "ep_active s = 0"
    using ep_count_left [of n s] ep_invD(1) [OF inv] by (simp add: unat_eq_0)
  then have "ep_step True n s (s\<lparr>ep_owner := O_window\<rparr>)"
    using window_open [OF assms(3)] by (simp add: ep_step_def)
  then show "\<exists>s'. ep_step True n s s' \<and> ep_owner s' = O_window" by (intro exI conjI) (assumption, simp)
qed

text \<open>The witnesses: one thief has just registered when the owner closes the gate; it leaves again.\<close>

lemma ep_example:
  "\<exists>s s'. reach ep_init (ep_step True 1) s \<and> ep_owner s = O_spin \<and> ep_thief s 0 = T_recheck \<and>
     reach ep_init (ep_step True 1) s' \<and> ep_owner s' = O_window \<and> ep_thief s' 0 = T_check"
proof -
  let ?s = "\<lambda>g b a own p. \<lparr>ep_gate = g, ep_buffer = b, ep_active = a, ep_owner = own,
    ep_thief = (\<lambda>_. T_out)(0 := p)\<rparr>"
  have own: "reach ep_init (ep_step True 1) s'"
    if "reach ep_init (ep_step True 1) s" "ep_owner_step True s s'" for s s'
    using reach_step [OF that(1)] that(2) by (simp add: ep_step_def)
  have thf: "reach ep_init (ep_step True 1) s'"
    if "reach ep_init (ep_step True 1) s" "ep_thief_step 1 s s'" for s s'
    using reach_step [OF that(1)] that(2) by (simp add: ep_step_def)
  have drn: "reach ep_init (ep_step True 1) s'"
    if "reach ep_init (ep_step True 1) s" "ep_drain s s'" for s s'
    using reach_step [OF that(1)] that(2) by (simp add: ep_step_def)
  have "reach ep_init (ep_step True 1) (?s False [] 0 O_out T_out)"
    by (rule reach_init) (simp add: ep_init_def fun_eq_iff)
  from thf [OF this enter_call [of 0]]
  have "reach ep_init (ep_step True 1) (?s False [] 0 O_out T_check)" by simp
  from thf [OF this enter_open [of 0]]
  have "reach ep_init (ep_step True 1) (?s False [] 0 O_out T_register)" by simp
  from thf [OF this enter_add [of 0]]
  have "reach ep_init (ep_step True 1) (?s False [] 1 O_out T_recheck)" by simp
  from own [OF this window_close]
  have "reach ep_init (ep_step True 1) (?s False [True] 1 O_fence T_recheck)" by simp
  from drn [OF this drain [of _ True "[]"]]
  have "reach ep_init (ep_step True 1) (?s True [] 1 O_fence T_recheck)" by simp
  from own [OF this window_fence]
  have a: "reach ep_init (ep_step True 1) (?s True [] 1 O_spin T_recheck)" by simp
  from thf [OF this enter_retry [of 0]]
  have "reach ep_init (ep_step True 1) (?s True [] 1 O_spin T_undo)" by simp
  from thf [OF this enter_sub [of 0]]
  have "reach ep_init (ep_step True 1) (?s True [] 0 O_spin T_check)" by simp
  from own [OF this window_open]
  have "reach ep_init (ep_step True 1) (?s True [] 0 O_window T_check)" by simp
  with a show ?thesis by (intro exI conjI) (assumption, simp, simp, assumption, simp_all)
qed

theorem epoch_window_exclusive_witness:
  "\<exists>s. reach ep_init (ep_step True 1) s \<and> ep_owner s = O_window \<and> ep_thief s 0 = T_check \<and>
     (\<forall>t. ep_thief s t \<noteq> T_inside)"
proof -
  obtain s where s: "reach ep_init (ep_step True 1) s" "ep_owner s = O_window" "ep_thief s 0 = T_check"
    using ep_example by blast
  have "(1::nat) < 2 ^ 32" by simp
  then show ?thesis using epoch_window_exclusive [OF _ s(1,2)] s by blast
qed

theorem epoch_wait_ends_witness:
  "\<exists>s. reach ep_init (ep_step True 1) s \<and> ep_owner s = O_spin \<and> ep_thief s 0 = T_recheck \<and>
     ep_left 1 s \<le> 3"
proof -
  obtain s where s: "reach ep_init (ep_step True 1) s" "ep_owner s = O_spin" "ep_thief s 0 = T_recheck"
    using ep_example by blast
  have "(1::nat) < 2 ^ 32" by simp
  then show ?thesis using epoch_wait_ends [OF _ s(1,2)] s by auto
qed

end
