(* ===== verification/Steal_Cells.thy ===== *)
theory Steal_Cells
  imports Next_Power_Of_Two Interfaces
begin

text \<open>
  The cells of the two work-stealing deques (\<open>WorkStealingDeque\<close> and \<open>WorkStealingQueue\<close> declare
  the same \<open>Cell\<close>): an owned pointer to the element, and the round number a thief compares. A
  pointer is the element it owns or \<open>None\<close> for \<open>nullptr\<close>: \<open>new T(item)\<close> makes the element, the
  thread whose \<open>exchange(nullptr)\<close> gets it deletes it.

  The lemmas describe a ring of cells that holds the positions from \<open>t\<close> to \<open>b\<close>.
\<close>

record 'a scell =
  sc_data :: "'a option"
  sc_round :: u64

definition empty_cell :: "'a scell" where
  "empty_cell = \<lparr>sc_data = None, sc_round = 0\<rparr>"

text \<open>\<open>round.compare_exchange_weak(expected_round, 0)\<close> when it does not fail spuriously.\<close>

definition clear_round :: "u64 \<Rightarrow> 'a scell \<Rightarrow> 'a scell" where
  "clear_round r c = (if sc_round c = r then c\<lparr>sc_round := 0\<rparr> else c)"

lemma clear_round_data [simp]: "sc_data (clear_round r c) = sc_data c"
  by (simp add: clear_round_def)

section \<open>A ring holding positions\<close>

definition cell_of :: "'a scell list \<Rightarrow> nat \<Rightarrow> 'a scell" where
  "cell_of cs p = cs ! (p mod length cs)"

definition holds :: "'a scell list \<Rightarrow> nat \<Rightarrow> nat \<Rightarrow> bool" where
  "holds cs t b \<longleftrightarrow>
     cs \<noteq> [] \<and> t \<le> b \<and> b \<le> t + length cs \<and>
     (\<forall>p. t \<le> p \<and> p < b \<longrightarrow> sc_data (cell_of cs p) \<noteq> None \<and> unat (sc_round (cell_of cs p)) = p + 1) \<and>
     (\<forall>p. b \<le> p \<and> p < t + length cs \<longrightarrow> sc_data (cell_of cs p) = None)"

definition held_list :: "'a scell list \<Rightarrow> nat \<Rightarrow> nat \<Rightarrow> 'a list" where
  "held_list cs t b = map (\<lambda>p. the (sc_data (cell_of cs p))) [t..<b]"

lemma round_cells:
  fixes p q c h :: nat
  assumes "h \<le> p" "p < h + c" "h \<le> q" "q < h + c" "p \<noteq> q"
  shows "p mod c \<noteq> q mod c"
proof
  assume "p mod c = q mod c"
  then have "p - h = q - h"
    using mod_window_inj [of "p - h" c "q - h" h] assms by auto
  then show False using assms by linarith
qed

lemma cell_of_update:
  "cs \<noteq> [] \<Longrightarrow> cell_of (cs[p mod length cs := c]) q = (if p mod length cs = q mod length cs then c else cell_of cs q)"
  by (simp add: cell_of_def nth_list_update)

lemma cell_of_other:
  assumes "cs \<noteq> []" "h \<le> p" "p < h + length cs" "h \<le> q" "q < h + length cs" "p \<noteq> q"
  shows "cell_of (cs[p mod length cs := c]) q = cell_of cs q"
  using cell_of_update [OF assms(1), of p c q] round_cells [OF assms(2-6)] by simp

lemma cell_of_same: "cs \<noteq> [] \<Longrightarrow> cell_of (cs[p mod length cs := c]) p = c"
  by (simp add: cell_of_update)

lemma length_held_list [simp]: "length (held_list cs t b) = b - t"
  by (simp add: held_list_def)

lemma held_list_empty [simp]: "held_list cs t t = []"
  by (simp add: held_list_def)

lemma held_list_last: "t < b \<Longrightarrow> held_list cs t b = held_list cs t (b - 1) @ [the (sc_data (cell_of cs (b - 1)))]"
  using upt_Suc_append [of t "b - 1"] by (simp add: held_list_def)

lemma held_list_hd: "t < b \<Longrightarrow> held_list cs t b = the (sc_data (cell_of cs t)) # held_list cs (t + 1) b"
  by (simp add: held_list_def upt_conv_Cons)

lemma held_list_cong:
  "(\<And>p. t \<le> p \<Longrightarrow> p < b \<Longrightarrow> sc_data (cell_of cs p) = sc_data (cell_of cs' p)) \<Longrightarrow>
    held_list cs t b = held_list cs' t b"
  by (simp add: held_list_def)

lemma holdsD:
  assumes "holds cs t b"
  shows "cs \<noteq> []" "t \<le> b" "b \<le> t + length cs"
    "t \<le> p \<Longrightarrow> p < b \<Longrightarrow> sc_data (cell_of cs p) \<noteq> None"
    "t \<le> p \<Longrightarrow> p < b \<Longrightarrow> unat (sc_round (cell_of cs p)) = p + 1"
    "b \<le> p \<Longrightarrow> p < t + length cs \<Longrightarrow> sc_data (cell_of cs p) = None"
  using assms unfolding holds_def by blast+

text \<open>Putting an element at the bottom, taking the one at the bottom, taking the one at the top.\<close>

lemma holds_put:
  fixes x :: 'a
  assumes h: "holds cs t b" and room: "b < t + length cs" and r: "unat r = b + 1"
  defines "cs' \<equiv> cs[b mod length cs := \<lparr>sc_data = Some x, sc_round = r\<rparr>]"
  shows "holds cs' t (b + 1)" "held_list cs' t (b + 1) = held_list cs t b @ [x]"
proof -
  note d = holdsD [OF h]
  have other: "cell_of cs' p = cell_of cs p" if "t \<le> p" "p < t + length cs" "p \<noteq> b" for p
    unfolding cs'_def by (rule cell_of_other [OF d(1), of t]) (use that d(2) room in auto)
  have same: "cell_of cs' b = \<lparr>sc_data = Some x, sc_round = r\<rparr>"
    unfolding cs'_def by (rule cell_of_same [OF d(1)])
  show "holds cs' t (b + 1)"
    unfolding holds_def
  proof (intro conjI allI impI)
    show "sc_data (cell_of cs' p) \<noteq> None" "unat (sc_round (cell_of cs' p)) = p + 1" if "t \<le> p \<and> p < b + 1" for p
      using that same other [of p] d(4,5) [of p] room r by (cases "p = b"; simp)+
    show "sc_data (cell_of cs' p) = None" if "b + 1 \<le> p \<and> p < t + length cs'" for p
      using that other [of p] d(2) d(6) [of p] by (simp add: cs'_def)
  qed (use d(1-3) room in \<open>simp_all add: cs'_def\<close>)
  have "held_list cs' t b = held_list cs t b"
    by (rule held_list_cong) (use other room in simp)
  then show "held_list cs' t (b + 1) = held_list cs t b @ [x]"
    using held_list_last [of t "b + 1" cs'] d(2) same by simp
qed

lemma holds_take_bottom:
  assumes h: "holds cs t b" and some: "t < b" and c: "sc_data c = None"
  defines "cs' \<equiv> cs[(b - 1) mod length cs := c]"
  shows "holds cs' t (b - 1)" "held_list cs' t (b - 1) = butlast (held_list cs t b)"
    "last (held_list cs t b) = the (sc_data (cell_of cs (b - 1)))"
proof -
  note d = holdsD [OF h]
  have other: "cell_of cs' p = cell_of cs p" if "t \<le> p" "p < t + length cs" "p \<noteq> b - 1" for p
    unfolding cs'_def by (rule cell_of_other [OF d(1), of t]) (use that d(3) some in auto)
  have same: "cell_of cs' (b - 1) = c"
    unfolding cs'_def by (rule cell_of_same [OF d(1)])
  show "holds cs' t (b - 1)"
    unfolding holds_def
  proof (intro conjI allI impI)
    show "sc_data (cell_of cs' p) \<noteq> None" "unat (sc_round (cell_of cs' p)) = p + 1" if p: "t \<le> p \<and> p < b - 1" for p
    proof -
      have "t \<le> p" "p < b" "p < t + length cs" "p \<noteq> b - 1" using p d(3) by linarith+
      then show "sc_data (cell_of cs' p) \<noteq> None" "unat (sc_round (cell_of cs' p)) = p + 1"
        using other [of p] d(4,5) [of p] by simp_all
    qed
    show "sc_data (cell_of cs' p) = None" if p: "b - 1 \<le> p \<and> p < t + length cs'" for p
    proof (cases "p = b - 1")
      case True
      then show ?thesis using same c by simp
    next
      case False
      then have "t \<le> p" "b \<le> p" using p some by linarith+
      moreover have "p < t + length cs" using p by (simp add: cs'_def)
      ultimately have "t \<le> p" "b \<le> p" "p < t + length cs" by blast+
      then show ?thesis using other [of p] d(6) [of p] False by simp
    qed
  qed (use d(1-3) some in \<open>simp_all add: cs'_def\<close>)
  have "held_list cs' t (b - 1) = held_list cs t (b - 1)"
    by (rule held_list_cong) (use other d(3) in simp)
  then show "held_list cs' t (b - 1) = butlast (held_list cs t b)"
      "last (held_list cs t b) = the (sc_data (cell_of cs (b - 1)))"
    using held_list_last [OF some, of cs] by simp_all
qed

lemma holds_take_top:
  assumes h: "holds cs t b" and some: "t < b" and c: "sc_data c = None"
  defines "cs' \<equiv> cs[t mod length cs := c]"
  shows "holds cs' (t + 1) b" "held_list cs' (t + 1) b = tl (held_list cs t b)"
    "hd (held_list cs t b) = the (sc_data (cell_of cs t))"
proof -
  note d = holdsD [OF h]
  have other: "cell_of cs' p = cell_of cs p" if "t \<le> p" "p < t + length cs" "p \<noteq> t" for p
    unfolding cs'_def by (rule cell_of_other [OF d(1), of t]) (use that in auto)
  have wrap: "cell_of cs' (t + length cs) = c"
    unfolding cs'_def using cell_of_update [OF d(1), of t c "t + length cs"] by simp
  show "holds cs' (t + 1) b"
    unfolding holds_def
  proof (intro conjI allI impI)
    show "sc_data (cell_of cs' p) \<noteq> None" "unat (sc_round (cell_of cs' p)) = p + 1" if "t + 1 \<le> p \<and> p < b" for p
      using that other [of p] d(3) d(4,5) [of p] by simp_all
    show "sc_data (cell_of cs' p) = None" if "b \<le> p \<and> p < t + 1 + length cs'" for p
      using that wrap other [of p] some d(6) [of p] c
      by (cases "p = t + length cs") (simp_all add: cs'_def)
  qed (use d(1-3) some in \<open>simp_all add: cs'_def\<close>)
  have "held_list cs' (t + 1) b = held_list cs (t + 1) b"
    by (rule held_list_cong) (use other d(3) in simp)
  then show "held_list cs' (t + 1) b = tl (held_list cs t b)"
      "hd (held_list cs t b) = the (sc_data (cell_of cs t))"
    using held_list_hd [OF some, of cs] by simp_all
qed

lemma holds_new:
  assumes "0 < n"
  shows "holds (replicate n empty_cell) t t"
  using assms by (auto simp: holds_def cell_of_def empty_cell_def)

lemma cells_slot: "is_cap (of_nat (length cs)) \<Longrightarrow> length cs = unat (of_nat (length cs) :: size_t) \<Longrightarrow>
    cs ! slot (of_nat (length cs) - 1) w = cell_of cs (unat w)"
  by (simp add: slot_mod cell_of_def)

section \<open>The elements in the cells\<close>

text \<open>The elements a list of cells owns, wherever they are.\<close>

definition cell_bag :: "'a scell list \<Rightarrow> 'a multiset" where
  "cell_bag cs = mset (concat (map (\<lambda>c. case sc_data c of None \<Rightarrow> [] | Some v \<Rightarrow> [v]) cs))"

lemma cell_bag_update:
  assumes "j < length cs"
  shows "cell_bag (cs[j := c]) + (case sc_data (cs ! j) of None \<Rightarrow> {#} | Some v \<Rightarrow> {#v#}) =
    cell_bag cs + (case sc_data c of None \<Rightarrow> {#} | Some v \<Rightarrow> {#v#})"
  using assms
proof (induction cs arbitrary: j)
  case Nil
  then show ?case by simp
next
  case (Cons a cs)
  then show ?case
    by (cases j) (auto simp: cell_bag_def ac_simps split: option.splits)
qed

lemma cell_bag_empty: "(\<And>j. j < length cs \<Longrightarrow> sc_data (cs ! j) = None) \<Longrightarrow> cell_bag cs = {#}"
proof -
  assume "\<And>j. j < length cs \<Longrightarrow> sc_data (cs ! j) = None"
  then have "\<forall>c\<in>set cs. sc_data c = None" by (auto simp: in_set_conv_nth)
  then show ?thesis by (auto simp: cell_bag_def)
qed

lemma cell_bag_put:
  "j < length cs \<Longrightarrow> sc_data (cs ! j) = None \<Longrightarrow> sc_data c = Some x \<Longrightarrow>
    cell_bag (cs[j := c]) = add_mset x (cell_bag cs)"
  using cell_bag_update [of j cs c] by simp

lemma cell_bag_take:
  "j < length cs \<Longrightarrow> sc_data (cs ! j) = Some x \<Longrightarrow> sc_data c = None \<Longrightarrow>
    add_mset x (cell_bag (cs[j := c])) = cell_bag cs"
  using cell_bag_update [of j cs c] by simp

lemma cell_bag_same:
  "j < length cs \<Longrightarrow> sc_data (cs ! j) = sc_data c \<Longrightarrow> cell_bag (cs[j := c]) = cell_bag cs"
  using cell_bag_update [of j cs c] by (simp split: option.splits)

lemma cell_bag_held:
  "holds cs t b \<Longrightarrow> cell_bag cs = mset (held_list cs t b)"
proof (induction "b - t" arbitrary: cs t)
  case 0
  note d = holdsD [OF 0(2)]
  have b: "b = t" using 0(1) d(2) by simp
  have "cell_bag cs = {#}"
  proof (rule cell_bag_empty)
    fix j assume j: "j < length cs"
    obtain p where p: "t \<le> p" "p < t + length cs" "p mod length cs = j mod length cs"
      using next_round [of "length cs" t j] j by (metis gr_zeroI not_less_zero)
    then show "sc_data (cs ! j) = None" using d(6) [of p] b j by (simp add: cell_of_def)
  qed
  then show ?case using b by simp
next
  case (Suc n)
  note d = holdsD [OF Suc.prems]
  have lt: "t < b" using Suc.hyps(2) by linarith
  obtain v where v: "sc_data (cell_of cs t) = Some v" using d(4) [of t] lt by auto
  let ?cs = "cs[t mod length cs := empty_cell]"
  have e: "sc_data (empty_cell :: 'a scell) = None" by (simp add: empty_cell_def)
  note top = holds_take_top [OF Suc.prems lt e]
  have "cell_bag ?cs = mset (held_list ?cs (t + 1) b)"
    by (rule Suc.hyps(1) [OF _ top(1)]) (use Suc.hyps(2) in simp)
  moreover have "t mod length cs < length cs" using d(1) by simp
  then have "add_mset v (cell_bag ?cs) = cell_bag cs"
    by (rule cell_bag_take) (use v e in \<open>simp_all add: cell_of_def\<close>)
  moreover have "held_list cs t b = v # held_list ?cs (t + 1) b"
    using top(2) held_list_hd [OF lt, of cs] v by simp
  ultimately show ?case by simp
qed

end
