(* ===== verification/WS_Deque.thy ===== *)
theory WS_Deque
  imports Steal_Cells
begin

text \<open>
  \<open>include/WorkStealingDeque.h\<close>, the fixed-capacity deque of each worker of
  \<open>WorkStealingThreadPool\<close>: the data and the member functions as one thread executes them, and the
  deque contract. \<open>WS_Deque_Concurrent\<close> runs the owner and the thieves at once.

  The wait of \<open>push\<close> for the slot to become empty takes fuel; alone, the first look decides.
\<close>

section \<open>State and operations\<close>

record 'a deque =
  dq_top :: size_t
  dq_bottom :: size_t
  dq_capacity :: size_t
  dq_mask :: size_t
  dq_cells :: "'a scell list"

definition dq_new :: "size_t \<Rightarrow> exn + 'a deque" where
  "dq_new capacity =
     (case nextPowerOfTwoChecked capacity of
        Inl e \<Rightarrow> Inl e
      | Inr c \<Rightarrow> Inr \<lparr>dq_top = 0, dq_bottom = 0, dq_capacity = c, dq_mask = c - 1,
                     dq_cells = replicate (unat c) empty_cell\<rparr>)"

definition dq_cell :: "('a, 'z) deque_scheme \<Rightarrow> size_t \<Rightarrow> 'a scell" where
  "dq_cell d i = dq_cells d ! slot (dq_mask d) i"

fun dq_slot_free :: "nat \<Rightarrow> size_t \<Rightarrow> 'a deque \<Rightarrow> bool" where
  "dq_slot_free 0 b d = False"
| "dq_slot_free (Suc n) b d = (if sc_data (dq_cell d b) \<noteq> None then dq_slot_free n b d else True)"

definition dq_push :: "nat \<Rightarrow> 'a \<Rightarrow> 'a deque \<Rightarrow> (bool \<times> 'a deque) option" where
  "dq_push fuel item d =
     (let b = dq_bottom d; t = dq_top d in
      if sint (dq_capacity d) \<le> sint b - sint t then Some (False, d)
      else if dq_slot_free fuel b d then
        Some (True, d\<lparr>dq_cells := (dq_cells d)[slot (dq_mask d) b := \<lparr>sc_data = Some item, sc_round = b + 1\<rparr>],
                     dq_bottom := b + 1\<rparr>)
      else None)"

text \<open>\<open>exchange(nullptr)\<close> on the claimed slot and what follows it.\<close>

definition dq_take :: "size_t \<Rightarrow> 'a deque \<Rightarrow> 'a option \<times> 'a deque" where
  "dq_take p d =
     (case sc_data (dq_cell d p) of
        None \<Rightarrow> (None, d)
      | Some v \<Rightarrow> (Some v, d\<lparr>dq_cells := (dq_cells d)[slot (dq_mask d) p :=
                     clear_round (p + 1) ((dq_cell d p)\<lparr>sc_data := None\<rparr>)]\<rparr>))"

definition dq_pop :: "'a deque \<Rightarrow> 'a option \<times> 'a deque" where
  "dq_pop d =
     (if dq_bottom d = 0 then (None, d)
      else
        let b = dq_bottom d - 1; d = d\<lparr>dq_bottom := b\<rparr>; t = dq_top d in
        if sint b < sint t then (None, d\<lparr>dq_bottom := t\<rparr>)
        else if sint t < sint b then dq_take b d
        else if dq_top d = t then dq_take b (d\<lparr>dq_top := t + 1, dq_bottom := t + 1\<rparr>)
        else (None, d\<lparr>dq_bottom := dq_top d + 1\<rparr>))"

definition dq_steal :: "'a deque \<Rightarrow> 'a option \<times> 'a deque" where
  "dq_steal d =
     (let t = dq_top d; b = dq_bottom d in
      if sint b \<le> sint t then (None, d)
      else if sc_round (dq_cell d t) \<noteq> t + 1 then (None, d)
      else if dq_top d = t then dq_take t (d\<lparr>dq_top := t + 1\<rparr>)
      else (None, d))"

definition dq_size :: "('a, 'z) deque_scheme \<Rightarrow> size_t" where
  "dq_size d = (let t = dq_top d; b = dq_bottom d in if t < b then b - t else 0)"

definition dq_empty :: "('a, 'z) deque_scheme \<Rightarrow> bool" where
  "dq_empty d \<longleftrightarrow> dq_size d = 0"

text \<open>The elements the destructor deletes.\<close>

definition dq_destroy :: "'a deque \<Rightarrow> 'a option list" where
  "dq_destroy d = map (\<lambda>i. sc_data (dq_cell d (of_nat i))) [unat (dq_top d)..<unat (dq_bottom d)]"

section \<open>Invariant\<close>

text \<open>With \<open>k\<close> more operations to come, no counter reaches \<open>2 ^ 63\<close>.\<close>

definition dq_ok :: "nat \<Rightarrow> 'a deque \<Rightarrow> bool" where
  "dq_ok k d \<longleftrightarrow>
     is_cap (dq_capacity d) \<and> length (dq_cells d) = unat (dq_capacity d) \<and> dq_mask d = dq_capacity d - 1 \<and>
     unat (dq_bottom d) + unat (dq_capacity d) + k < 2 ^ 63 \<and>
     holds (dq_cells d) (unat (dq_top d)) (unat (dq_bottom d))"

definition dq_list :: "'a deque \<Rightarrow> 'a list" where
  "dq_list d = held_list (dq_cells d) (unat (dq_top d)) (unat (dq_bottom d))"

lemma dq_okD:
  assumes "dq_ok k d"
  shows "is_cap (dq_capacity d)" "length (dq_cells d) = unat (dq_capacity d)" "dq_mask d = dq_capacity d - 1"
    "unat (dq_bottom d) + unat (dq_capacity d) + k < 2 ^ 63"
    "holds (dq_cells d) (unat (dq_top d)) (unat (dq_bottom d))"
    "unat (dq_top d) \<le> unat (dq_bottom d)" "0 < unat (dq_capacity d)"
    "slot (dq_mask d) w = unat w mod length (dq_cells d)" "dq_cell d w = cell_of (dq_cells d) (unat w)"
  using assms by (auto simp: dq_ok_def dq_cell_def cell_of_def slot_mod holds_def is_cap_nonzero)

lemma dq_sint:
  assumes "dq_ok k d"
  shows "sint (dq_capacity d) \<le> sint (dq_bottom d) - sint (dq_top d) \<longleftrightarrow>
      unat (dq_capacity d) \<le> unat (dq_bottom d) - unat (dq_top d)"
    "sint (dq_bottom d) \<le> sint (dq_top d) \<longleftrightarrow> unat (dq_bottom d) \<le> unat (dq_top d)"
    "0 < unat (dq_bottom d) \<Longrightarrow> sint (dq_bottom d - 1) < sint (dq_top d) \<longleftrightarrow> unat (dq_bottom d) - 1 < unat (dq_top d)"
    "0 < unat (dq_bottom d) \<Longrightarrow> sint (dq_top d) < sint (dq_bottom d - 1) \<longleftrightarrow> unat (dq_top d) < unat (dq_bottom d) - 1"
proof -
  note d = dq_okD [OF assms]
  have s: "unat (dq_top d) < 2 ^ 63" "unat (dq_bottom d) < 2 ^ 63" "unat (dq_capacity d) < 2 ^ 63"
    using d(4,6) by linarith+
  then show "sint (dq_capacity d) \<le> sint (dq_bottom d) - sint (dq_top d) \<longleftrightarrow>
      unat (dq_capacity d) \<le> unat (dq_bottom d) - unat (dq_top d)"
    "sint (dq_bottom d) \<le> sint (dq_top d) \<longleftrightarrow> unat (dq_bottom d) \<le> unat (dq_top d)"
    using d(7) by (simp_all only: sint_diff_nat sint_le_nat)
  assume "0 < unat (dq_bottom d)"
  then have u: "unat (dq_bottom d - 1) = unat (dq_bottom d) - 1" by (rule unat_minus_1)
  then have "unat (dq_bottom d - 1) < 2 ^ 63" using s(2) by linarith
  then show "sint (dq_bottom d - 1) < sint (dq_top d) \<longleftrightarrow> unat (dq_bottom d) - 1 < unat (dq_top d)"
    "sint (dq_top d) < sint (dq_bottom d - 1) \<longleftrightarrow> unat (dq_top d) < unat (dq_bottom d) - 1"
    using s(1) u by (simp_all only: sint_less_nat)
qed

lemma dq_list_length: "length (dq_list d) = unat (dq_bottom d) - unat (dq_top d)"
  by (simp add: dq_list_def)

lemma dq_ok_less: "dq_ok (Suc k) d \<Longrightarrow> dq_ok k d"
  by (simp add: dq_ok_def)

lemma dq_new_ok:
  assumes "dq_new n = Inr d" "unat (dq_capacity d) + k < 2 ^ 63"
  shows "dq_ok k d" "dq_list d = []" "unat n \<le> unat (dq_capacity d)"
proof -
  obtain c where c: "nextPowerOfTwoChecked n = Inr c"
    and d: "d = \<lparr>dq_top = 0, dq_bottom = 0, dq_capacity = c, dq_mask = c - 1,
                 dq_cells = replicate (unat c) empty_cell\<rparr>"
    using assms(1) by (auto simp: dq_new_def split: sum.splits)
  note cap = checked_is_cap [OF c]
  show "dq_ok k d" "dq_list d = []" "unat n \<le> unat (dq_capacity d)"
    using cap assms(2) is_cap_nonzero [OF cap(1)] holds_new [of "unat c" 0]
    by (simp_all add: d dq_ok_def dq_list_def)
qed

section \<open>The operations on the contents\<close>

lemma dq_push_full:
  "dq_ok k d \<Longrightarrow> length (dq_list d) = unat (dq_capacity d) \<Longrightarrow> dq_push n x d = Some (False, d)"
  using dq_okD(6,7) [of k d] by (simp add: dq_push_def Let_def dq_sint dq_list_length)

lemma dq_push_room:
  assumes ok: "dq_ok (Suc k) d" and room: "length (dq_list d) < unat (dq_capacity d)"
  shows "\<exists>d'. dq_push (Suc n) x d = Some (True, d') \<and> dq_ok k d' \<and> dq_list d' = dq_list d @ [x] \<and>
    dq_capacity d' = dq_capacity d"
proof -
  note o = dq_okD [OF ok]
  let ?b = "unat (dq_bottom d)" and ?cs = "dq_cells d"
  let ?c = "\<lparr>sc_data = Some x, sc_round = dq_bottom d + 1\<rparr>"
  have b: "?b < unat (dq_top d) + length ?cs" using room o(2,6) by (simp add: dq_list_length)
  have free: "sc_data (cell_of ?cs ?b) = None" by (rule holdsD(6) [OF o(5) _ b]) simp
  have b1: "unat (dq_bottom d + 1) = ?b + 1" by (rule unat_plus_1) (use o(4) in simp)
  have "dq_push (Suc n) x d = Some (True, d\<lparr>dq_cells := ?cs[?b mod length ?cs := ?c], dq_bottom := dq_bottom d + 1\<rparr>)"
    using free b o(2,6,9) by (simp add: dq_push_def Let_def dq_sint [OF ok] o(8))
  then show ?thesis
    using holds_put [OF o(5) b b1, of x] o(1-4)
    by (intro exI conjI) (assumption, simp_all add: dq_ok_def dq_list_def b1)
qed

lemma dq_take_some:
  assumes "dq_ok k d" "sc_data (cell_of (dq_cells d) (unat p)) = Some v"
    and e: "dq_cells e = dq_cells d" "dq_mask e = dq_mask d"
  shows "dq_take p e = (Some v, e\<lparr>dq_cells := (dq_cells d)[unat p mod length (dq_cells d) :=
    clear_round (p + 1) ((cell_of (dq_cells d) (unat p))\<lparr>sc_data := None\<rparr>)]\<rparr>)"
proof -
  have "dq_cell e p = cell_of (dq_cells d) (unat p)"
    using dq_okD(9) [OF assms(1), of p] e by (simp add: dq_cell_def)
  then show ?thesis using assms dq_okD(8) [OF assms(1), of p] by (simp add: dq_take_def)
qed

lemma dq_pop_empty:
  assumes ok: "dq_ok k d" and "dq_list d = []"
  shows "dq_pop d = (None, d)"
proof -
  note o = dq_okD [OF ok]
  have "unat (dq_bottom d) \<le> unat (dq_top d)" using assms(2) dq_list_length [of d] by simp
  then have e: "dq_bottom d = dq_top d" using o(6) by (metis order_antisym word_le_nat_alt)
  show ?thesis
  proof (cases "dq_bottom d = 0")
    case True
    then show ?thesis by (simp add: dq_pop_def)
  next
    case False
    then have "0 < unat (dq_bottom d)" by (simp add: unat_gt_0)
    then have "sint (dq_bottom d - 1) < sint (dq_top d)"
      using dq_sint(3) [OF ok] e by simp
    then show ?thesis using False e by (simp add: dq_pop_def Let_def)
  qed
qed

lemma dq_pop_some:
  assumes ok: "dq_ok (Suc k) d" and ne: "dq_list d \<noteq> []"
  shows "\<exists>d'. dq_pop d = (Some (last (dq_list d)), d') \<and> dq_ok k d' \<and> dq_list d' = butlast (dq_list d) \<and>
    dq_capacity d' = dq_capacity d"
proof -
  note o = dq_okD [OF ok]
  let ?b = "unat (dq_bottom d)" and ?t = "unat (dq_top d)" and ?cs = "dq_cells d" and ?w = "dq_bottom d - 1"
  let ?c = "clear_round (?w + 1) ((cell_of ?cs (?b - 1))\<lparr>sc_data := None\<rparr>)"
  have lt: "?t < ?b" using ne o(6) by (metis dq_list_length length_greater_0_conv zero_less_diff)
  then have nz: "dq_bottom d \<noteq> 0" "0 < ?b" by auto
  have w: "unat ?w = ?b - 1" by (rule unat_minus_1 [OF nz(2)])
  have len: "?b \<le> ?t + length ?cs" by (rule holdsD(3) [OF o(5)])
  obtain v where v: "sc_data (cell_of ?cs (unat ?w)) = Some v"
    using holdsD(4) [OF o(5), of "?b - 1"] lt w by fastforce
  note take = dq_take_some [OF ok v]
  note bot = holds_take_bottom [OF o(5) lt, of ?c]
  have last: "last (dq_list d) = v" using bot(3) v w by (simp add: dq_list_def)
  show ?thesis
  proof (cases "?t < ?b - 1")
    case True
    then have "dq_pop d = (Some v, d\<lparr>dq_bottom := ?w, dq_cells := ?cs[(?b - 1) mod length ?cs := ?c]\<rparr>)"
      using nz take [of "d\<lparr>dq_bottom := ?w\<rparr>"] by (simp add: dq_pop_def Let_def dq_sint [OF ok] w)
    then show ?thesis
      unfolding last using bot(1,2) o(1-4) by (intro exI conjI) (assumption, simp_all add: dq_ok_def dq_list_def w)
  next
    case False
    then have e: "?t = ?b - 1" using lt by linarith
    have t1: "unat (dq_top d + 1) = ?b" using unat_plus_1 [of "dq_top d"] e o(4) lt by simp
    have "dq_pop d = (Some v, d\<lparr>dq_top := dq_top d + 1, dq_bottom := dq_top d + 1,
        dq_cells := ?cs[(?b - 1) mod length ?cs := ?c]\<rparr>)"
      using nz e take [of "d\<lparr>dq_top := dq_top d + 1, dq_bottom := dq_top d + 1\<rparr>"]
      by (simp add: dq_pop_def Let_def dq_sint [OF ok] w)
    moreover have "holds (?cs[(?b - 1) mod length ?cs := ?c]) ?b ?b"
      using holds_take_top(1) [OF o(5) lt, of ?c] e lt by simp
    moreover have "butlast (dq_list d) = []" using dq_list_length [of d] e by (simp add: butlast_conv_take)
    ultimately show ?thesis
      unfolding last using o(1-4) t1 by (intro exI conjI) (assumption, simp_all add: dq_ok_def dq_list_def)
  qed
qed

lemma dq_steal_empty: "dq_ok k d \<Longrightarrow> dq_list d = [] \<Longrightarrow> dq_steal d = (None, d)"
  using dq_list_length [of d] by (simp add: dq_steal_def Let_def dq_sint)

lemma dq_steal_some:
  assumes ok: "dq_ok (Suc k) d" and ne: "dq_list d \<noteq> []"
  shows "\<exists>d'. dq_steal d = (Some (hd (dq_list d)), d') \<and> dq_ok k d' \<and> dq_list d' = tl (dq_list d) \<and>
    dq_capacity d' = dq_capacity d"
proof -
  note o = dq_okD [OF ok]
  let ?b = "unat (dq_bottom d)" and ?t = "unat (dq_top d)" and ?cs = "dq_cells d"
  let ?c = "clear_round (dq_top d + 1) ((cell_of ?cs ?t)\<lparr>sc_data := None\<rparr>)"
  have lt: "?t < ?b" using ne o(6) by (metis dq_list_length length_greater_0_conv zero_less_diff)
  have t1: "unat (dq_top d + 1) = ?t + 1" by (rule unat_plus_1) (use lt o(4) in simp)
  obtain v where v: "sc_data (cell_of ?cs ?t) = Some v" using holdsD(4) [OF o(5), of ?t] lt by auto
  have r: "sc_round (dq_cell d (dq_top d)) = dq_top d + 1"
    using holdsD(5) [OF o(5), of ?t] lt o(9) t1 by (simp add: word_unat_eq_iff)
  note top = holds_take_top [OF o(5) lt, of ?c]
  have hd: "hd (dq_list d) = v" using top(3) v by (simp add: dq_list_def)
  have "dq_steal d = (Some v, d\<lparr>dq_top := dq_top d + 1, dq_cells := ?cs[?t mod length ?cs := ?c]\<rparr>)"
    using lt r dq_take_some [OF ok v, of "d\<lparr>dq_top := dq_top d + 1\<rparr>"]
    by (simp add: dq_steal_def Let_def dq_sint [OF ok])
  then show ?thesis
    unfolding hd using top(1,2) o(1-4) t1 by (intro exI conjI) (assumption, simp_all add: dq_ok_def dq_list_def)
qed

section \<open>The deque contract\<close>

fun dq_apply :: "'a dop \<Rightarrow> 'a deque \<Rightarrow> ('a dres \<times> 'a deque) option" where
  "dq_apply (Push x) d = map_option (map_prod Pushed id) (dq_push 1 x d)"
| "dq_apply Pop d = Some (map_prod Taken id (dq_pop d))"
| "dq_apply Steal d = Some (map_prod Taken id (dq_steal d))"

definition dq_abs :: "'a deque \<Rightarrow> nat option \<times> 'a list" where
  "dq_abs d = (Some (unat (dq_capacity d)), dq_list d)"

lemma dq_simulation:
  assumes ok: "dq_ok (Suc k) d"
  shows "\<exists>d'. dq_apply x d = Some (fst (deque_step x (dq_abs d)), d') \<and>
    dq_abs d' = snd (deque_step x (dq_abs d)) \<and> dq_ok k d'"
proof (cases x)
  case (Push a)
  show ?thesis
  proof (cases "length (dq_list d) < unat (dq_capacity d)")
    case True
    then show ?thesis using dq_push_room [OF ok True, of 0 a] Push by (auto simp: dq_abs_def)
  next
    case False
    then have "length (dq_list d) = unat (dq_capacity d)"
      using dq_list_length [of d] holdsD(3) [OF dq_okD(5) [OF ok]] dq_okD(2) [OF ok] by linarith
    then show ?thesis using dq_push_full [OF ok] dq_ok_less [OF ok] Push by (simp add: dq_abs_def)
  qed
next
  case Pop
  then show ?thesis
    using dq_pop_empty [OF ok] dq_pop_some [OF ok] dq_ok_less [OF ok]
    by (cases "dq_list d = []") (auto simp: dq_abs_def)
next
  case Steal
  then show ?thesis
    using dq_steal_empty [OF ok] dq_steal_some [OF ok] dq_ok_less [OF ok]
    by (cases "dq_list d = []") (auto simp: dq_abs_def)
qed

interpretation dq: stealing_deque dq_apply dq_abs dq_ok
  by unfold_locales (rule dq_simulation)

section \<open>Properties\<close>

text \<open>C15: used by one thread at a time, a new \<open>WorkStealingDeque\<close> answers every sequence of \<open>push\<close>,
  \<open>pop\<close> and \<open>steal\<close> as a bounded deque whose owner works at the back and whose thieves take from the
  front, as long as no counter reaches \<open>2 ^ 63\<close>; elements accepted are those handed out plus
  those the destructor deletes.\<close>

theorem deque_is_stealing_deque:
  assumes "dq_new n = Inr d" and "unat (dq_capacity d) + length ops < 2 ^ 63"
  shows "unat n \<le> unat (dq_capacity d) \<and>
    (\<exists>rs d'. run_ops dq_apply ops d = Some (rs, d') \<and>
       rs = fst (run_spec deque_step ops (Some (unat (dq_capacity d)), [])) \<and>
       pushed_in ops rs = taken_out rs + mset (map the (dq_destroy d')) \<and>
       (\<forall>p\<in>set (dq_destroy d'). p \<noteq> None) \<and> dq_size d' = of_nat (length (dq_destroy d')))"
proof -
  note new = dq_new_ok [OF assms]
  obtain d' where d': "run_ops dq_apply ops d = Some (fst (run_spec deque_step ops (dq_abs d)), d')" "dq_ok 0 d'"
    using dq.run_simulation [of ops 0 d] new(1) by auto
  note o = dq_okD [OF d'(2)]
  have small: "i < 2 ^ 64" if "i < unat (dq_bottom d')" for i using that o(4) by simp
  have cell: "dq_cell d' (of_nat i) = cell_of (dq_cells d') i" if "i < unat (dq_bottom d')" for i
    using o(9) [of "of_nat i"] small [OF that] by (simp add: unat_of_nat)
  have freed: "map the (dq_destroy d') = dq_list d'"
    by (simp add: dq_destroy_def dq_list_def held_list_def cell)
  have some: "\<forall>p\<in>set (dq_destroy d'). p \<noteq> None"
    using holdsD(4) [OF o(5)] cell by (simp add: dq_destroy_def)
  have "unat (of_nat (length (dq_destroy d')) :: size_t) = unat (dq_bottom d') - unat (dq_top d')"
    using small [of "unat (dq_bottom d') - 1"] unsigned_less [of "dq_bottom d'", where 'a = nat]
    by (simp add: dq_destroy_def unat_of_nat)
  then have "dq_size d' = of_nat (length (dq_destroy d'))"
    using o(6) by (simp add: dq_size_def Let_def word_unat_eq_iff word_less_nat_alt unat_sub word_le_nat_alt)
  moreover have "pushed_in ops rs = taken_out rs + mset (map the (dq_destroy d'))"
    if "run_ops dq_apply ops d = Some (rs, d')" for rs
    using dq.deque_conserves [OF _ that] new(1,2) unfolding freed by (simp add: dq_abs_def)
  ultimately show ?thesis
    using new(2,3) d'(1) some by (simp add: dq_abs_def)
qed

theorem deque_is_stealing_deque_witness:
  "\<exists>d. dq_new 2 = Inr (d :: nat deque) \<and>
     map_option fst (run_ops dq_apply [Push 1, Push 2, Push 3, Steal, Push 4, Pop, Pop, Pop] d) =
       Some [Pushed True, Pushed True, Pushed False, Taken (Some 1), Pushed True, Taken (Some 4),
             Taken (Some 2), Taken None]"
proof -
  have "nextPowerOfTwoChecked 2 = Inr 2" by code_simp
  then obtain d :: "nat deque" where d: "dq_new 2 = Inr d" "unat (dq_capacity d) = 2"
    by (auto simp: dq_new_def)
  let ?ops = "[Push 1, Push 2, Push 3, Steal, Push 4, Pop, Pop, Pop] :: nat dop list"
  have "unat (dq_capacity d) + length ?ops < 2 ^ 63" using d(2) by simp
  from deque_is_stealing_deque [OF d(1) this]
  obtain rs d' where r: "run_ops dq_apply ?ops d = Some (rs, d')"
      "rs = fst (run_spec deque_step ?ops (Some (unat (dq_capacity d)), []))" by blast
  have "rs = [Pushed True, Pushed True, Pushed False, Taken (Some 1), Pushed True, Taken (Some 4),
      Taken (Some 2), Taken None]"
    unfolding r(2) d(2) by simp
  with r(1) have "map_option fst (run_ops dq_apply ?ops d) = Some [Pushed True, Pushed True, Pushed False,
      Taken (Some 1), Pushed True, Taken (Some 4), Taken (Some 2), Taken None]"
    by (simp only: option.map fst_conv)
  then show ?thesis by (intro exI conjI) (rule d(1))
qed

end
