(* ===== verification/WS_Deque_Concurrent.thy ===== *)
theory WS_Deque_Concurrent
  imports WS_Deque
begin

text \<open>
  \<open>WorkStealingDeque\<close> with its owner, who runs \<open>push\<close> and \<open>pop\<close>, and any number of thieves, who run
  \<open>steal\<close>. A step is one atomic access of one thread. Every \<open>compare_exchange_weak\<close> may fail
  spuriously.

  The safety results are for sequentially consistent memory. The code has no fence between the
  store of \<open>bottom_\<close> and the load of \<open>top_\<close> in \<open>pop\<close>, so the steps take a flag: with \<open>tso\<close>, this one store
  may stay in the owner's store buffer until the owner's next store or read-modify-write, as on
  x86; an element can then be lost, which is proved at the end.
\<close>

section \<open>Threads and steps\<close>

datatype 'a dq_owner =
    O_idle
  | O_push_top 'a size_t       \<comment> \<open>\<open>bottom_\<close> loaded\<close>
  | O_push_wait 'a size_t      \<comment> \<open>not full\<close>
  | O_push_data 'a size_t      \<comment> \<open>slot seen empty\<close>
  | O_push_round size_t        \<comment> \<open>pointer stored\<close>
  | O_push_bottom size_t       \<comment> \<open>round stored\<close>
  | O_pop_store size_t         \<comment> \<open>about to store the decremented \<open>bottom_\<close>\<close>
  | O_pop_top size_t
  | O_pop_restore size_t       \<comment> \<open>\<open>b < t\<close>\<close>
  | O_pop_take size_t          \<comment> \<open>\<open>b > t\<close>\<close>
  | O_pop_cas size_t           \<comment> \<open>\<open>b == t\<close>\<close>
  | O_pop_lost size_t          \<comment> \<open>CAS failed and has loaded \<open>top_\<close> into \<open>t\<close>\<close>
  | O_pop_won size_t
  | O_pop_last size_t
  | O_pop_clear size_t 'a      \<comment> \<open>element taken, round not yet cleared\<close>

datatype 'a dq_thief =
    S_idle
  | S_bottom size_t            \<comment> \<open>\<open>top_\<close> loaded\<close>
  | S_round size_t
  | S_cas size_t
  | S_take size_t              \<comment> \<open>position claimed\<close>
  | S_clear size_t 'a

text \<open>\<open>dc_pushed\<close>, \<open>dc_taken\<close> and \<open>dc_claims\<close> record the elements stored by \<open>push\<close>, those a thread has
  got out of a slot and returns, and the successful increments of \<open>top_\<close>; no step reads them.\<close>

record 'a deque_sys = "'a deque" +
  dc_owner :: "'a dq_owner"
  dc_thief :: "nat \<Rightarrow> 'a dq_thief"
  dc_pending :: "size_t option"
  dc_pushed :: "'a multiset"
  dc_taken :: "'a multiset"
  dc_claims :: nat

definition dqc_init :: "size_t \<Rightarrow> 'a deque_sys \<Rightarrow> bool" where
  "dqc_init capacity s \<longleftrightarrow>
     (\<exists>c. nextPowerOfTwoChecked capacity = Inr c \<and>
       s = \<lparr>dq_top = 0, dq_bottom = 0, dq_capacity = c, dq_mask = c - 1,
            dq_cells = replicate (unat c) empty_cell, dc_owner = O_idle, dc_thief = (\<lambda>_. S_idle),
            dc_pending = None, dc_pushed = {#}, dc_taken = {#}, dc_claims = 0\<rparr>)"

definition set_cell :: "size_t \<Rightarrow> 'a scell \<Rightarrow> 'a deque_sys \<Rightarrow> 'a deque_sys" where
  "set_cell p c s = s\<lparr>dq_cells := (dq_cells s)[slot (dq_mask s) p := c]\<rparr>"

inductive owner_step :: "bool \<Rightarrow> 'a deque_sys \<Rightarrow> 'a deque_sys \<Rightarrow> bool" for tso :: bool where
  push_call: "dc_owner s = O_idle \<Longrightarrow> owner_step tso s (s\<lparr>dc_owner := O_push_top x (dq_bottom s)\<rparr>)"
| push_full: "dc_owner s = O_push_top x b \<Longrightarrow> sint (dq_capacity s) \<le> sint b - sint (dq_top s) \<Longrightarrow>
    owner_step tso s (s\<lparr>dc_owner := O_idle\<rparr>)"
| push_room: "dc_owner s = O_push_top x b \<Longrightarrow> \<not> sint (dq_capacity s) \<le> sint b - sint (dq_top s) \<Longrightarrow>
    owner_step tso s (s\<lparr>dc_owner := O_push_wait x b\<rparr>)"
| push_wait: "dc_owner s = O_push_wait x b \<Longrightarrow> sc_data (dq_cell s b) \<noteq> None \<Longrightarrow> owner_step tso s s"
| push_free: "dc_owner s = O_push_wait x b \<Longrightarrow> sc_data (dq_cell s b) = None \<Longrightarrow>
    owner_step tso s (s\<lparr>dc_owner := O_push_data x b\<rparr>)"
| push_data: "dc_owner s = O_push_data x b \<Longrightarrow>
    owner_step tso s ((set_cell b ((dq_cell s b)\<lparr>sc_data := Some x\<rparr>) s)
      \<lparr>dc_pushed := add_mset x (dc_pushed s), dc_owner := O_push_round b\<rparr>)"
| push_round: "dc_owner s = O_push_round b \<Longrightarrow>
    owner_step tso s ((set_cell b ((dq_cell s b)\<lparr>sc_round := b + 1\<rparr>) s)\<lparr>dc_owner := O_push_bottom b\<rparr>)"
| push_bottom: "dc_owner s = O_push_bottom b \<Longrightarrow>
    owner_step tso s (s\<lparr>dq_bottom := b + 1, dc_owner := O_idle\<rparr>)"
| pop_call_0: "dc_owner s = O_idle \<Longrightarrow> dq_bottom s = 0 \<Longrightarrow> owner_step tso s s"
| pop_call: "dc_owner s = O_idle \<Longrightarrow> dq_bottom s \<noteq> 0 \<Longrightarrow>
    owner_step tso s (s\<lparr>dc_owner := O_pop_store (dq_bottom s - 1)\<rparr>)"
| pop_store: "dc_owner s = O_pop_store b \<Longrightarrow>
    owner_step tso s (s\<lparr>dq_bottom := b, dc_owner := O_pop_top b\<rparr>)"
| pop_store_buffered: "tso \<Longrightarrow> dc_owner s = O_pop_store b \<Longrightarrow>
    owner_step tso s (s\<lparr>dc_pending := Some b, dc_owner := O_pop_top b\<rparr>)"
| store_drains: "dc_pending s = Some b \<Longrightarrow>
    owner_step tso s (s\<lparr>dq_bottom := b, dc_pending := None\<rparr>)"
| pop_stolen: "dc_owner s = O_pop_top b \<Longrightarrow> sint b < sint (dq_top s) \<Longrightarrow>
    owner_step tso s (s\<lparr>dc_owner := O_pop_restore (dq_top s)\<rparr>)"
| pop_normal: "dc_owner s = O_pop_top b \<Longrightarrow> sint (dq_top s) < sint b \<Longrightarrow>
    owner_step tso s (s\<lparr>dc_owner := O_pop_take b\<rparr>)"
| pop_last: "dc_owner s = O_pop_top b \<Longrightarrow> sint b = sint (dq_top s) \<Longrightarrow>
    owner_step tso s (s\<lparr>dc_owner := O_pop_cas (dq_top s)\<rparr>)"
| pop_restore: "dc_owner s = O_pop_restore t \<Longrightarrow> dc_pending s = None \<Longrightarrow>
    owner_step tso s (s\<lparr>dq_bottom := t, dc_owner := O_idle\<rparr>)"
| pop_take_none: "dc_owner s = O_pop_take b \<or> dc_owner s = O_pop_last b \<Longrightarrow> dc_pending s = None \<Longrightarrow>
    sc_data (dq_cell s b) = None \<Longrightarrow> owner_step tso s (s\<lparr>dc_owner := O_idle\<rparr>)"
| pop_take: "dc_owner s = O_pop_take b \<or> dc_owner s = O_pop_last b \<Longrightarrow> dc_pending s = None \<Longrightarrow>
    sc_data (dq_cell s b) = Some v \<Longrightarrow>
    owner_step tso s ((set_cell b ((dq_cell s b)\<lparr>sc_data := None\<rparr>) s)
      \<lparr>dc_taken := add_mset v (dc_taken s), dc_owner := O_pop_clear b v\<rparr>)"
| pop_clear: "dc_owner s = O_pop_clear b v \<Longrightarrow>
    owner_step tso s ((set_cell b (clear_round (b + 1) (dq_cell s b)) s)\<lparr>dc_owner := O_idle\<rparr>)"
| pop_clear_fails: "dc_owner s = O_pop_clear b v \<Longrightarrow> owner_step tso s (s\<lparr>dc_owner := O_idle\<rparr>)"
| pop_cas: "dc_owner s = O_pop_cas t \<Longrightarrow> dc_pending s = None \<Longrightarrow> dq_top s = t \<Longrightarrow>
    owner_step tso s (s\<lparr>dq_top := t + 1, dc_claims := dc_claims s + 1, dc_owner := O_pop_won t\<rparr>)"
| pop_cas_fails: "dc_owner s = O_pop_cas t \<Longrightarrow> dc_pending s = None \<Longrightarrow>
    owner_step tso s (s\<lparr>dc_owner := O_pop_lost (dq_top s)\<rparr>)"
| pop_lost: "dc_owner s = O_pop_lost t \<Longrightarrow>
    owner_step tso s (s\<lparr>dq_bottom := t + 1, dc_owner := O_idle\<rparr>)"
| pop_won: "dc_owner s = O_pop_won t \<Longrightarrow>
    owner_step tso s (s\<lparr>dq_bottom := t + 1, dc_owner := O_pop_last t\<rparr>)"

inductive thief_step :: "'a deque_sys \<Rightarrow> 'a deque_sys \<Rightarrow> bool" where
  steal_call: "dc_thief s i = S_idle \<Longrightarrow>
    thief_step s (s\<lparr>dc_thief := (dc_thief s)(i := S_bottom (dq_top s))\<rparr>)"
| steal_empty: "dc_thief s i = S_bottom t \<Longrightarrow> sint (dq_bottom s) \<le> sint t \<Longrightarrow>
    thief_step s (s\<lparr>dc_thief := (dc_thief s)(i := S_idle)\<rparr>)"
| steal_some: "dc_thief s i = S_bottom t \<Longrightarrow> \<not> sint (dq_bottom s) \<le> sint t \<Longrightarrow>
    thief_step s (s\<lparr>dc_thief := (dc_thief s)(i := S_round t)\<rparr>)"
| steal_stale: "dc_thief s i = S_round t \<Longrightarrow> sc_round (dq_cell s t) \<noteq> t + 1 \<Longrightarrow>
    thief_step s (s\<lparr>dc_thief := (dc_thief s)(i := S_idle)\<rparr>)"
| steal_round: "dc_thief s i = S_round t \<Longrightarrow> sc_round (dq_cell s t) = t + 1 \<Longrightarrow>
    thief_step s (s\<lparr>dc_thief := (dc_thief s)(i := S_cas t)\<rparr>)"
| steal_cas: "dc_thief s i = S_cas t \<Longrightarrow> dq_top s = t \<Longrightarrow>
    thief_step s (s\<lparr>dq_top := t + 1, dc_claims := dc_claims s + 1, dc_thief := (dc_thief s)(i := S_take t)\<rparr>)"
| steal_cas_fails: "dc_thief s i = S_cas t \<Longrightarrow>
    thief_step s (s\<lparr>dc_thief := (dc_thief s)(i := S_idle)\<rparr>)"
| steal_take_none: "dc_thief s i = S_take t \<Longrightarrow> sc_data (dq_cell s t) = None \<Longrightarrow>
    thief_step s (s\<lparr>dc_thief := (dc_thief s)(i := S_idle)\<rparr>)"
| steal_take: "dc_thief s i = S_take t \<Longrightarrow> sc_data (dq_cell s t) = Some v \<Longrightarrow>
    thief_step s ((set_cell t ((dq_cell s t)\<lparr>sc_data := None\<rparr>) s)
      \<lparr>dc_taken := add_mset v (dc_taken s), dc_thief := (dc_thief s)(i := S_clear t v)\<rparr>)"
| steal_clear: "dc_thief s i = S_clear t v \<Longrightarrow>
    thief_step s ((set_cell t (clear_round (t + 1) (dq_cell s t)) s)\<lparr>dc_thief := (dc_thief s)(i := S_idle)\<rparr>)"
| steal_clear_fails: "dc_thief s i = S_clear t v \<Longrightarrow>
    thief_step s (s\<lparr>dc_thief := (dc_thief s)(i := S_idle)\<rparr>)"

definition dqc_step :: "bool \<Rightarrow> 'a deque_sys \<Rightarrow> 'a deque_sys \<Rightarrow> bool" where
  "dqc_step tso s s' \<longleftrightarrow> owner_step tso s s' \<or> thief_step s s'"

section \<open>The invariant\<close>

text \<open>
  \<open>owner_top\<close> is the position after the last one that may hold an element: \<open>bottom_\<close>, except where
  the owner is between changing a slot and changing \<open>bottom_\<close>. A thief that has seen the deque not
  empty may claim \<open>top_\<close> only below \<open>steal_limit\<close>; the two differ while the owner takes the last
  element without contention.
\<close>

fun owner_top :: "'a dq_owner \<Rightarrow> nat \<Rightarrow> nat" where
  "owner_top (O_push_round b) n = unat b + 1"
| "owner_top (O_push_bottom b) n = unat b + 1"
| "owner_top (O_pop_top b) n = unat b + 1"
| "owner_top (O_pop_restore t) n = unat t"
| "owner_top (O_pop_take b) n = unat b + 1"
| "owner_top (O_pop_cas b) n = unat b + 1"
| "owner_top (O_pop_lost t) n = unat t + 1"
| "owner_top (O_pop_won t) n = unat t + 1"
| "owner_top _ n = n"

fun steal_limit :: "'a dq_owner \<Rightarrow> nat \<Rightarrow> nat" where
  "steal_limit (O_pop_take b) n = unat b"
| "steal_limit pc n = owner_top pc n"

fun owner_claim :: "'a dq_owner \<Rightarrow> nat set" where
  "owner_claim (O_pop_won t) = {unat t}"
| "owner_claim (O_pop_last t) = {unat t}"
| "owner_claim _ = {}"

fun thief_claim :: "'a dq_thief \<Rightarrow> nat set" where
  "thief_claim (S_take t) = {unat t}"
| "thief_claim _ = {}"

fun thief_ok :: "nat \<Rightarrow> nat \<Rightarrow> 'a dq_thief \<Rightarrow> bool" where
  "thief_ok h m (S_bottom t) = (unat t \<le> h)"
| "thief_ok h m (S_round t) = (unat t \<le> h \<and> (unat t = h \<longrightarrow> h < m))"
| "thief_ok h m (S_cas t) = (unat t \<le> h \<and> (unat t = h \<longrightarrow> h < m))"
| "thief_ok h m _ = True"

definition claimed :: "'a deque_sys \<Rightarrow> nat set" where
  "claimed s = held thief_claim (dc_thief s) \<union> owner_claim (dc_owner s)"

text \<open>The shared state: every element in a slot is at a position the owner or the thieves will
  still come to (from \<open>top_\<close> to \<open>l\<close>), or at one a thread has claimed (\<open>K\<close>).\<close>

definition dqc_core :: "'a deque_sys \<Rightarrow> nat \<Rightarrow> nat \<Rightarrow> nat set \<Rightarrow> bool" where
  "dqc_core s l m K \<longleftrightarrow>
     is_cap (dq_capacity s) \<and> length (dq_cells s) = unat (dq_capacity s) \<and> dq_mask s = dq_capacity s - 1 \<and>
     dc_claims s = unat (dq_top s) \<and> unat (dq_top s) + unat (dq_capacity s) + 1 < 2 ^ 63 \<and>
     unat (dq_top s) \<le> l \<and> l \<le> unat (dq_top s) + unat (dq_capacity s) \<and>
     (\<forall>i. thief_ok (unat (dq_top s)) m (dc_thief s i)) \<and>
     (\<forall>j<length (dq_cells s). sc_data (dq_cells s ! j) \<noteq> None \<longrightarrow>
        (\<exists>p. p mod length (dq_cells s) = j \<and> (unat (dq_top s) \<le> p \<and> p < l \<or> p \<in> K))) \<and>
     dc_pushed s = dc_taken s + cell_bag (dq_cells s) \<and> dc_pending s = None"

fun owner_ok :: "nat \<Rightarrow> nat \<Rightarrow> nat \<Rightarrow> 'a scell list \<Rightarrow> 'a dq_owner \<Rightarrow> bool" where
  "owner_ok h n c cs (O_push_top x b) = (unat b = n)"
| "owner_ok h n c cs (O_push_wait x b) = (unat b = n \<and> n < h + c)"
| "owner_ok h n c cs (O_push_data x b) = (unat b = n \<and> n < h + c \<and> sc_data (cell_of cs n) = None)"
| "owner_ok h n c cs (O_push_round b) = (unat b = n)"
| "owner_ok h n c cs (O_push_bottom b) = (unat b = n)"
| "owner_ok h n c cs (O_pop_store b) = (unat b + 1 = n)"
| "owner_ok h n c cs (O_pop_top b) = (unat b = n)"
| "owner_ok h n c cs (O_pop_restore t) = (unat t = h \<and> n < h)"
| "owner_ok h n c cs (O_pop_take b) = (unat b = n \<and> h \<le> n)"
| "owner_ok h n c cs (O_pop_cas b) = (unat b = n \<and> n \<le> h)"
| "owner_ok h n c cs (O_pop_lost t) = (n \<le> unat t \<and> unat t \<le> h)"
| "owner_ok h n c cs (O_pop_won t) = (unat t = n \<and> h = n + 1)"
| "owner_ok h n c cs (O_pop_last t) = (unat t + 1 = n \<and> h = n)"
| "owner_ok h n c cs _ = True"

definition dqc_good :: "'a deque_sys \<Rightarrow> bool" where
  "dqc_good s \<longleftrightarrow>
     dqc_core s (owner_top (dc_owner s) (unat (dq_bottom s))) (steal_limit (dc_owner s) (unat (dq_bottom s)))
       (claimed s) \<and>
     owner_ok (unat (dq_top s)) (unat (dq_bottom s)) (unat (dq_capacity s)) (dq_cells s) (dc_owner s)"

lemma dqc_frame [simp]:
  "dqc_core (s\<lparr>dc_owner := c\<rparr>) = dqc_core s" "dqc_core (s\<lparr>dq_bottom := b\<rparr>) = dqc_core s"
  by (intro ext; simp add: dqc_core_def)+

lemma dqc_coreD:
  assumes "dqc_core s l m K"
  shows "is_cap (dq_capacity s)" "length (dq_cells s) = unat (dq_capacity s)" "dq_mask s = dq_capacity s - 1"
    "dc_claims s = unat (dq_top s)" "unat (dq_top s) + unat (dq_capacity s) + 1 < 2 ^ 63"
    "unat (dq_top s) \<le> l" "l \<le> unat (dq_top s) + unat (dq_capacity s)"
    "thief_ok (unat (dq_top s)) m (dc_thief s i)" "dc_pushed s = dc_taken s + cell_bag (dq_cells s)"
    "dc_pending s = None" "0 < unat (dq_capacity s)" "dq_cells s \<noteq> []"
    "slot (dq_mask s) w = unat w mod length (dq_cells s)" "dq_cell s w = cell_of (dq_cells s) (unat w)"
    "p mod length (dq_cells s) < length (dq_cells s)"
    "j < unat (dq_capacity s) \<Longrightarrow> sc_data (dq_cells s ! j) \<noteq> None \<Longrightarrow>
      \<exists>p. p mod unat (dq_capacity s) = j \<and> (unat (dq_top s) \<le> p \<and> p < l \<or> p \<in> K)"
proof -
  show cap: "is_cap (dq_capacity s)" and len: "length (dq_cells s) = unat (dq_capacity s)"
    and mask: "dq_mask s = dq_capacity s - 1"
    using assms by (simp_all add: dqc_core_def)
  show pos: "0 < unat (dq_capacity s)" by (rule is_cap_nonzero [OF cap])
  show "dq_cells s \<noteq> []" using len pos by auto
  show "p mod length (dq_cells s) < length (dq_cells s)" using len pos by simp
  show sl: "slot (dq_mask s) w = unat w mod length (dq_cells s)"
    unfolding mask len by (rule slot_mod [OF cap])
  show "dq_cell s w = cell_of (dq_cells s) (unat w)" by (simp add: dq_cell_def cell_of_def sl)
qed (use assms in \<open>auto simp: dqc_core_def\<close>)

lemma set_cell_eq:
  "dqc_core s l m K \<Longrightarrow> set_cell p c s = s\<lparr>dq_cells := (dq_cells s)[unat p mod length (dq_cells s) := c]\<rparr>"
  using dqc_coreD(13) [of s l m K p] by (simp add: set_cell_def)

lemma dqc_core_just:
  assumes "dqc_core s l m K" "sc_data (cell_of (dq_cells s) q) \<noteq> None"
  obtains p where "p mod length (dq_cells s) = q mod length (dq_cells s)"
    "unat (dq_top s) \<le> p \<and> p < l \<or> p \<in> K"
  using assms dqc_coreD(15) [OF assms(1), of q] unfolding dqc_core_def cell_of_def by blast

text \<open>The bounds may be relaxed, and a justification dropped where the slot is empty.\<close>

lemma dqc_core_weaken:
  assumes core: "dqc_core s l m K" and l: "unat (dq_top s) \<le> l'" "l' \<le> unat (dq_top s) + unat (dq_capacity s)"
    and m: "unat (dq_top s) < m \<Longrightarrow> (\<And>i. thief_ok (unat (dq_top s)) m (dc_thief s i)) \<Longrightarrow> unat (dq_top s) < m' \<or>
      (\<forall>i t. dc_thief s i = S_round t \<or> dc_thief s i = S_cas t \<longrightarrow> unat t \<noteq> unat (dq_top s))"
    and just: "\<And>p. sc_data (cell_of (dq_cells s) p) \<noteq> None \<Longrightarrow> unat (dq_top s) \<le> p \<and> p < l \<or> p \<in> K \<Longrightarrow>
      unat (dq_top s) \<le> p \<and> p < l' \<or> p \<in> K'"
  shows "dqc_core s l' m' K'"
proof -
  have th: "thief_ok (unat (dq_top s)) m' (dc_thief s i)" for i
    using m dqc_coreD(8) [OF core] by (cases "dc_thief s i") (metis thief_ok.simps)+
  have "\<exists>p. p mod length (dq_cells s) = j \<and> (unat (dq_top s) \<le> p \<and> p < l' \<or> p \<in> K')"
    if j: "j < length (dq_cells s)" "sc_data (dq_cells s ! j) \<noteq> None" for j
  proof -
    obtain p where p: "p mod length (dq_cells s) = j" "unat (dq_top s) \<le> p \<and> p < l \<or> p \<in> K"
      using core j unfolding dqc_core_def by blast
    then have "sc_data (cell_of (dq_cells s) p) \<noteq> None" using j by (simp add: cell_of_def)
    then show ?thesis using just p by blast
  qed
  then show ?thesis using core l th unfolding dqc_core_def by blast
qed

lemma dqc_core_thief:
  assumes "dqc_core s l m K" "thief_ok (unat (dq_top s)) m c"
  shows "dqc_core (s\<lparr>dc_thief := (dc_thief s)(i := c)\<rparr>) l m K"
  using assms by (auto simp: dqc_core_def)

text \<open>Changing a slot.\<close>

lemma dqc_core_cell:
  assumes core: "dqc_core s l m K" and p: "sc_data c = sc_data (cell_of (dq_cells s) (unat p))"
  shows "dqc_core (set_cell p c s) l m K"
proof -
  note d = dqc_coreD [OF core]
  let ?j = "unat p mod length (dq_cells s)"
  have j: "?j < length (dq_cells s)" by (rule d(15))
  have same: "sc_data (dq_cells s ! ?j) = sc_data c" using p by (simp add: cell_of_def)
  have "sc_data ((dq_cells s)[?j := c] ! k) = sc_data (dq_cells s ! k)" if "k < length (dq_cells s)" for k
    using same that by (cases "k = ?j") simp_all
  then show ?thesis
    unfolding set_cell_eq [OF core] using d(1-7,9,10) d(8,16) cell_bag_same [OF j same]
    by (simp add: dqc_core_def)
qed

lemma dqc_core_put:
  assumes core: "dqc_core s l m K" and l: "l = unat b" "l < unat (dq_top s) + unat (dq_capacity s)"
    and free: "sc_data (cell_of (dq_cells s) (unat b)) = None" and c: "sc_data c = Some x" and m: "m \<le> m'"
  shows "dqc_core ((set_cell b c s)\<lparr>dc_pushed := add_mset x (dc_pushed s)\<rparr>) (l + 1) m' K"
proof -
  note d = dqc_coreD [OF core]
  let ?n = "length (dq_cells s)" and ?T = "unat (dq_top s)"
  have j: "unat b mod ?n < ?n" by (rule d(15))
  have "sc_data (dq_cells s ! (unat b mod ?n)) = None" using free by (simp add: cell_of_def)
  from cell_bag_put [OF j this c]
  have bag: "add_mset x (dc_pushed s) = dc_taken s + cell_bag ((dq_cells s)[unat b mod ?n := c])"
    using d(9) by simp
  have "\<exists>p. p mod ?n = k \<and> (?T \<le> p \<and> p < l + 1 \<or> p \<in> K)"
    if k: "k < ?n" "sc_data ((dq_cells s)[unat b mod ?n := c] ! k) \<noteq> None" for k
  proof (cases "k = unat b mod ?n")
    case True
    then show ?thesis using d(6) l by (intro exI [of _ "unat b"]) simp
  next
    case False
    then have "sc_data (dq_cells s ! k) \<noteq> None" using k by simp
    then obtain p where "p mod ?n = k" "?T \<le> p \<and> p < l \<or> p \<in> K"
      using core k(1) unfolding dqc_core_def by blast
    then show ?thesis by (intro exI [of _ p]) auto
  qed
  moreover have "thief_ok ?T m' (dc_thief s i)" for i
    using d(8) [of i] m by (cases "dc_thief s i") auto
  ultimately show ?thesis
    unfolding set_cell_eq [OF core] using d(1-7,10) bag l by (simp add: dqc_core_def)
qed

lemma dqc_core_take:
  assumes core: "dqc_core s l m K" and v: "sc_data (cell_of (dq_cells s) (unat b)) = Some v" and c: "sc_data c = None"
  shows "dqc_core ((set_cell b c s)\<lparr>dc_taken := add_mset v (dc_taken s)\<rparr>) l m K"
proof -
  note d = dqc_coreD [OF core]
  let ?n = "length (dq_cells s)"
  have j: "unat b mod ?n < ?n" by (rule d(15))
  have "sc_data (dq_cells s ! (unat b mod ?n)) = Some v" using v by (simp add: cell_of_def)
  from cell_bag_take [OF j this c]
  have "dc_pushed s = add_mset v (dc_taken s) + cell_bag ((dq_cells s)[unat b mod ?n := c])"
    using d(9) by (metis union_mset_add_mset_left union_mset_add_mset_right)
  then show ?thesis
    unfolding set_cell_eq [OF core] using core c by (auto simp: dqc_core_def nth_list_update)
qed

text \<open>Claiming the position at \<open>top_\<close>.\<close>

lemma dqc_core_claim:
  assumes core: "dqc_core s l m K" and lt: "unat (dq_top s) < l"
    and bound: "dc_claims s + 1 + unat (dq_capacity s) + 1 < 2 ^ 63"
  shows "dqc_core (s\<lparr>dq_top := dq_top s + 1, dc_claims := dc_claims s + 1\<rparr>) l m' (insert (unat (dq_top s)) K)"
proof -
  note d = dqc_coreD [OF core]
  let ?n = "length (dq_cells s)"
  have T1: "unat (dq_top s + 1) = unat (dq_top s) + 1" by (rule unat_plus_1) (use d(5) in simp)
  have th: "thief_ok (unat (dq_top s) + 1) m' (dc_thief s i)" for i
    using d(8) [of i] by (cases "dc_thief s i") auto
  have "\<exists>p. p mod ?n = j \<and> (unat (dq_top s) + 1 \<le> p \<and> p < l \<or> p \<in> insert (unat (dq_top s)) K)"
    if j: "j < ?n" "sc_data (dq_cells s ! j) \<noteq> None" for j
  proof -
    obtain p where p: "p mod ?n = j" "unat (dq_top s) \<le> p \<and> p < l \<or> p \<in> K"
      using core j unfolding dqc_core_def by blast
    then show ?thesis by (cases "p = unat (dq_top s)") auto
  qed
  then show ?thesis
    using d(1-4,6,7,9,10) lt bound th by (simp add: dqc_core_def T1)
qed

section \<open>Steps of the thieves\<close>

abbreviation up :: "'a deque_sys \<Rightarrow> nat" where
  "up s \<equiv> owner_top (dc_owner s) (unat (dq_bottom s))"

abbreviation lim :: "'a deque_sys \<Rightarrow> nat" where
  "lim s \<equiv> steal_limit (dc_owner s) (unat (dq_bottom s))"

definition dqc_bound :: "'a deque_sys \<Rightarrow> bool" where
  "dqc_bound s \<longleftrightarrow> dc_claims s + unat (dq_capacity s) + 1 < 2 ^ 63"

lemma dqc_goodD:
  assumes "dqc_good s"
  shows "dqc_core s (up s) (lim s) (claimed s)"
    "owner_ok (unat (dq_top s)) (unat (dq_bottom s)) (unat (dq_capacity s)) (dq_cells s) (dc_owner s)"
    "unat (dq_bottom s) \<le> lim s" "lim s \<le> up s" "unat (dq_bottom s) < 2 ^ 63"
proof -
  show core: "dqc_core s (up s) (lim s) (claimed s)"
    and own: "owner_ok (unat (dq_top s)) (unat (dq_bottom s)) (unat (dq_capacity s)) (dq_cells s) (dc_owner s)"
    using assms by (simp_all add: dqc_good_def)
  show 1: "unat (dq_bottom s) \<le> lim s" and 2: "lim s \<le> up s"
    using own by (cases "dc_owner s"; simp)+
  show "unat (dq_bottom s) < 2 ^ 63" using 1 2 dqc_coreD(5,7) [OF core] by linarith
qed

lemma owner_ok_claim: "owner_ok h n c cs pc \<Longrightarrow> h < steal_limit pc n \<Longrightarrow> owner_ok (h + 1) n c cs pc"
  by (cases pc) auto

lemma owner_ok_cells:
  "owner_ok h n c cs pc \<Longrightarrow> (sc_data (cell_of cs n) = None \<Longrightarrow> sc_data (cell_of cs' n) = None) \<Longrightarrow>
    owner_ok h n c cs' pc"
  by (cases pc) auto

lemma set_cell_frame [simp]:
  "dq_top (set_cell p c s) = dq_top s" "dq_bottom (set_cell p c s) = dq_bottom s"
  "dq_capacity (set_cell p c s) = dq_capacity s" "dq_mask (set_cell p c s) = dq_mask s"
  "dc_owner (set_cell p c s) = dc_owner s" "dc_thief (set_cell p c s) = dc_thief s"
  "dc_claims (set_cell p c s) = dc_claims s" "dc_taken (set_cell p c s) = dc_taken s"
  "dc_pushed (set_cell p c s) = dc_pushed s" "dc_pending (set_cell p c s) = dc_pending s"
  by (simp_all add: set_cell_def)

lemma set_cell_data:
  assumes "dqc_core s l m K"
  shows "sc_data (cell_of (dq_cells (set_cell p c s)) q) =
    (if unat p mod length (dq_cells s) = q mod length (dq_cells s) then sc_data c else sc_data (cell_of (dq_cells s) q))"
  unfolding set_cell_eq [OF assms] using cell_of_update [OF dqc_coreD(12) [OF assms], of "unat p" c q] by simp

lemma good_thief:
  assumes core: "dqc_core s (up s) (lim s) K"
    and own: "owner_ok (unat (dq_top s)) (unat (dq_bottom s)) (unat (dq_capacity s)) (dq_cells s) (dc_owner s)"
    and ok: "thief_ok (unat (dq_top s)) (lim s) c"
    and K: "\<And>p. sc_data (cell_of (dq_cells s) p) \<noteq> None \<Longrightarrow> p \<in> K \<Longrightarrow>
      p \<in> claimed (s\<lparr>dc_thief := (dc_thief s)(i := c)\<rparr>)"
  shows "dqc_good (s\<lparr>dc_thief := (dc_thief s)(i := c)\<rparr>)"
proof -
  have "dqc_core s (up s) (lim s) (claimed (s\<lparr>dc_thief := (dc_thief s)(i := c)\<rparr>))"
    by (rule dqc_core_weaken [OF core]) (use K dqc_coreD(6,7) [OF core] in auto)
  from dqc_core_thief [OF this ok, of i] show ?thesis
    using own by (simp add: dqc_good_def)
qed

lemma claimed_thief:
  "p \<in> claimed s \<Longrightarrow> p \<in> thief_claim c \<or> p \<notin> thief_claim (dc_thief s i) \<Longrightarrow>
    p \<in> claimed (s\<lparr>dc_thief := (dc_thief s)(i := c)\<rparr>)"
  by (fastforce simp: claimed_def held_def)

lemma good_thief_local:
  assumes good: "dqc_good s" and ok: "thief_ok (unat (dq_top s)) (lim s) c"
    and cl: "thief_claim (dc_thief s i) \<subseteq> thief_claim c"
  shows "dqc_good (s\<lparr>dc_thief := (dc_thief s)(i := c)\<rparr>)"
  by (rule good_thief [OF dqc_goodD(1,2) [OF good] ok]) (use cl in \<open>blast intro: claimed_thief\<close>)

lemma good_thief_cell:
  assumes good: "dqc_good s" and c: "sc_data c = sc_data (cell_of (dq_cells s) (unat p))"
  shows "dqc_good (set_cell p c s)"
proof -
  note g = dqc_goodD [OF good]
  have "sc_data (cell_of (dq_cells (set_cell p c s)) q) = sc_data (cell_of (dq_cells s) q)" for q
    using set_cell_data [OF g(1), of p c q] c by (auto simp: cell_of_def)
  then show ?thesis
    using dqc_core_cell [OF g(1) c] owner_ok_cells [OF g(2), of "dq_cells (set_cell p c s)"]
    by (simp add: dqc_good_def claimed_def)
qed

lemma thief_step_good:
  assumes step: "thief_step s s'" and good: "dqc_good s" and bound: "dqc_bound s'"
  shows "dqc_good s'"
  using step
proof cases
  note g = dqc_goodD [OF good] and d = dqc_coreD [OF dqc_goodD(1) [OF good]]
  case (steal_some i t)
  have t: "unat t \<le> unat (dq_top s)" using d(8) [of i] steal_some(2) by simp
  then have "unat t < unat (dq_bottom s)"
    using steal_some(3) sint_le_nat [of "dq_bottom s" t] g(5) d(5) by simp
  then show ?thesis
    unfolding steal_some(1) using t g(3) by (intro good_thief_local [OF good]) (simp_all add: steal_some(2))
next
  note g = dqc_goodD [OF good] and d = dqc_coreD [OF dqc_goodD(1) [OF good]]
  case (steal_round i t)
  have "thief_ok (unat (dq_top s)) (lim s) (S_cas t)" using d(8) [of i] steal_round(2) by simp
  then show ?thesis unfolding steal_round(1) by (rule good_thief_local [OF good]) (simp add: steal_round(2))
next
  note g = dqc_goodD [OF good] and d = dqc_coreD [OF dqc_goodD(1) [OF good]]
  case (steal_cas i t)
  have lt: "unat (dq_top s) < lim s" using d(8) [of i] steal_cas(2,3) by simp
  have T1: "unat (dq_top s + 1) = unat (dq_top s) + 1" by (rule unat_plus_1) (use d(5) in simp)
  let ?s = "s\<lparr>dq_top := dq_top s + 1, dc_claims := dc_claims s + 1\<rparr>"
  have "dc_claims s + 1 + unat (dq_capacity s) + 1 < 2 ^ 63"
    using bound by (simp add: steal_cas(1) dqc_bound_def)
  then have core: "dqc_core ?s (up s) (lim s) (insert (unat (dq_top s)) (claimed s))"
    using lt g(4) by (intro dqc_core_claim [OF g(1)]) linarith+
  have own: "owner_ok (unat (dq_top s) + 1) (unat (dq_bottom s)) (unat (dq_capacity s)) (dq_cells s) (dc_owner s)"
    by (rule owner_ok_claim [OF g(2) lt])
  have "dqc_good (?s\<lparr>dc_thief := (dc_thief ?s)(i := S_take t)\<rparr>)"
  proof (rule good_thief [where K = "insert (unat (dq_top s)) (claimed s)"])
    fix p assume "p \<in> insert (unat (dq_top s)) (claimed s)"
    moreover have "claimed ?s = claimed s" by (simp add: claimed_def)
    moreover have "thief_claim (dc_thief ?s i) = {}" using steal_cas(2) by simp
    moreover have "unat (dq_top s) \<in> claimed (?s\<lparr>dc_thief := (dc_thief ?s)(i := S_take t)\<rparr>)"
      using steal_cas(3) heldI [of "unat t" thief_claim "(dc_thief s)(i := S_take t)" i] by (simp add: claimed_def)
    ultimately show "p \<in> claimed (?s\<lparr>dc_thief := (dc_thief ?s)(i := S_take t)\<rparr>)"
      using claimed_thief [of p ?s "S_take t" i] by blast
  qed (use core own T1 in simp_all)
  then show ?thesis unfolding steal_cas(1) using steal_cas(3) by simp
next
  note g = dqc_goodD [OF good] and d = dqc_coreD [OF dqc_goodD(1) [OF good]]
  case (steal_take_none i t)
  show ?thesis
    unfolding steal_take_none(1)
  proof (rule good_thief [OF g(1,2)])
    fix p assume p: "sc_data (cell_of (dq_cells s) p) \<noteq> None" "p \<in> claimed s"
    then have "p \<notin> thief_claim (dc_thief s i)" using steal_take_none(2,3) d(14) [of t] by auto
    then show "p \<in> claimed (s\<lparr>dc_thief := (dc_thief s)(i := S_idle)\<rparr>)" using claimed_thief p(2) by blast
  qed simp
next
  note g = dqc_goodD [OF good] and d = dqc_coreD [OF dqc_goodD(1) [OF good]]
  case (steal_take i t v)
  let ?c = "(dq_cell s t)\<lparr>sc_data := None\<rparr>"
  let ?s = "(set_cell t ?c s)\<lparr>dc_taken := add_mset v (dc_taken s)\<rparr>"
  have dat: "sc_data (cell_of (dq_cells ?s) q) \<noteq> None \<Longrightarrow>
      unat t mod length (dq_cells s) \<noteq> q mod length (dq_cells s) \<and> sc_data (cell_of (dq_cells s) q) \<noteq> None" for q
    using set_cell_data [OF g(1), of t ?c q] by (auto split: if_splits)
  have "dqc_good (?s\<lparr>dc_thief := (dc_thief ?s)(i := S_clear t v)\<rparr>)"
  proof (rule good_thief [where K = "claimed s"])
    show "dqc_core ?s (up ?s) (lim ?s) (claimed s)"
      using dqc_core_take [OF g(1), of t v ?c] steal_take(3) d(14) [of t] by simp
    show "owner_ok (unat (dq_top ?s)) (unat (dq_bottom ?s)) (unat (dq_capacity ?s)) (dq_cells ?s) (dc_owner ?s)"
    proof -
      have "sc_data (cell_of (dq_cells s) q) = None \<Longrightarrow> sc_data (cell_of (dq_cells ?s) q) = None" for q
        using dat [of q] by blast
      from owner_ok_cells [OF g(2) this] show ?thesis by simp
    qed
    fix p assume p: "sc_data (cell_of (dq_cells ?s) p) \<noteq> None" "p \<in> claimed s"
    then have "p \<notin> thief_claim (dc_thief ?s i)" using steal_take(2) dat [of p] by auto
    moreover have "p \<in> claimed ?s" using p(2) by (simp add: claimed_def)
    ultimately show "p \<in> claimed (?s\<lparr>dc_thief := (dc_thief ?s)(i := S_clear t v)\<rparr>)"
      using claimed_thief by blast
  qed simp
  then show ?thesis unfolding steal_take(1) by simp
next
  note g = dqc_goodD [OF good] and d = dqc_coreD [OF dqc_goodD(1) [OF good]]
  case (steal_clear i t v)
  let ?s = "set_cell t (clear_round (t + 1) (dq_cell s t)) s"
  have "dqc_good ?s" by (rule good_thief_cell [OF good]) (simp add: d(14))
  from good_thief_local [OF this, of S_idle i] show ?thesis by (simp add: steal_clear)
next
  case (steal_call i)
  then show ?thesis using good_thief_local [OF good] by simp
next
  case (steal_empty i t)
  then show ?thesis using good_thief_local [OF good] by simp
next
  case (steal_stale i t)
  then show ?thesis using good_thief_local [OF good] by simp
next
  case (steal_cas_fails i t)
  then show ?thesis using good_thief_local [OF good] by simp
next
  case (steal_clear_fails i t v)
  then show ?thesis using good_thief_local [OF good] by simp
qed

section \<open>Steps of the owner\<close>

text \<open>The owner moves on, and may store \<open>bottom_\<close>: the slots keep a justification.\<close>

lemma good_owner:
  assumes core: "dqc_core s l m K"
    and up: "unat (dq_top s) \<le> owner_top c (unat b)" "owner_top c (unat b) \<le> unat (dq_top s) + unat (dq_capacity s)"
    and own: "owner_ok (unat (dq_top s)) (unat b) (unat (dq_capacity s)) (dq_cells s) c"
    and m: "unat (dq_top s) < m \<Longrightarrow> unat (dq_top s) < steal_limit c (unat b)"
    and just: "\<And>p. sc_data (cell_of (dq_cells s) p) \<noteq> None \<Longrightarrow> unat (dq_top s) \<le> p \<and> p < l \<or> p \<in> K \<Longrightarrow>
      unat (dq_top s) \<le> p \<and> p < owner_top c (unat b) \<or> p \<in> held thief_claim (dc_thief s) \<union> owner_claim c"
  shows "dqc_good (s\<lparr>dq_bottom := b, dc_owner := c\<rparr>)"
proof -
  have "dqc_core s (owner_top c (unat b)) (steal_limit c (unat b)) (held thief_claim (dc_thief s) \<union> owner_claim c)"
    by (rule dqc_core_weaken [OF core up]) (use m just in blast)+
  then show ?thesis using own by (simp add: dqc_good_def claimed_def)
qed

text \<open>The cases where the owner only learns something, or stores what it has already accounted for.\<close>

lemma good_owner_local:
  assumes good: "dqc_good s"
    and up: "up s \<le> owner_top c (unat b)" "owner_top c (unat b) \<le> unat (dq_top s) + unat (dq_capacity s)"
    and own: "owner_ok (unat (dq_top s)) (unat b) (unat (dq_capacity s)) (dq_cells s) c"
    and m: "unat (dq_top s) < lim s \<Longrightarrow> unat (dq_top s) < steal_limit c (unat b)"
    and K: "owner_claim (dc_owner s) \<subseteq> owner_claim c"
  shows "dqc_good (s\<lparr>dq_bottom := b, dc_owner := c\<rparr>)"
proof (rule good_owner [OF dqc_goodD(1) [OF good] _ up(2) own m])
  note d = dqc_coreD [OF dqc_goodD(1) [OF good]]
  show "unat (dq_top s) \<le> owner_top c (unat b)" using d(6) up(1) by linarith
  show "unat (dq_top s) \<le> p \<and> p < owner_top c (unat b) \<or> p \<in> held thief_claim (dc_thief s) \<union> owner_claim c"
    if "unat (dq_top s) \<le> p \<and> p < up s \<or> p \<in> claimed s" for p
    using that up(1) K by (auto simp: claimed_def)
qed

lemma good_owner_pc:
  assumes "dqc_good s" "up s \<le> owner_top c (unat (dq_bottom s))"
    "owner_top c (unat (dq_bottom s)) \<le> unat (dq_top s) + unat (dq_capacity s)"
    "owner_ok (unat (dq_top s)) (unat (dq_bottom s)) (unat (dq_capacity s)) (dq_cells s) c"
    "unat (dq_top s) < lim s \<Longrightarrow> unat (dq_top s) < steal_limit c (unat (dq_bottom s))"
    "owner_claim (dc_owner s) \<subseteq> owner_claim c"
  shows "dqc_good (s\<lparr>dc_owner := c\<rparr>)"
  using good_owner_local [OF assms] by simp

text \<open>Taking a slot that is empty, or emptying it, ends the owner's business with it.\<close>

lemma good_owner_taken:
  assumes core: "dqc_core s (up s) (lim s) (claimed s)" and pc: "dc_owner s = O_pop_take b \<or> dc_owner s = O_pop_last b"
    and own: "owner_ok (unat (dq_top s)) (unat (dq_bottom s)) (unat (dq_capacity s)) (dq_cells s) (dc_owner s)"
    and none: "sc_data (cell_of (dq_cells s) (unat b)) = None"
    and c: "owner_top c (unat (dq_bottom s)) = unat (dq_bottom s)" "steal_limit c (unat (dq_bottom s)) = unat (dq_bottom s)"
      "owner_ok (unat (dq_top s)) (unat (dq_bottom s)) (unat (dq_capacity s)) (dq_cells s) c" "owner_claim c = {}"
  shows "dqc_good (s\<lparr>dc_owner := c\<rparr>)"
proof -
  note d = dqc_coreD [OF core]
  have "dqc_good (s\<lparr>dq_bottom := dq_bottom s, dc_owner := c\<rparr>)"
  proof (rule good_owner [OF core])
    show "unat (dq_top s) \<le> owner_top c (unat (dq_bottom s))"
      "owner_top c (unat (dq_bottom s)) \<le> unat (dq_top s) + unat (dq_capacity s)"
      "unat (dq_top s) < lim s \<Longrightarrow> unat (dq_top s) < steal_limit c (unat (dq_bottom s))"
      using own pc d(7) c by auto
    show "unat (dq_top s) \<le> p \<and> p < owner_top c (unat (dq_bottom s)) \<or> p \<in> held thief_claim (dc_thief s) \<union> owner_claim c"
      if p: "sc_data (cell_of (dq_cells s) p) \<noteq> None" "unat (dq_top s) \<le> p \<and> p < up s \<or> p \<in> claimed s" for p
    proof -
      have "p \<noteq> unat b" using p(1) none by auto
      then show ?thesis using p(2) pc own c by (auto simp: claimed_def)
    qed
  qed (rule c(3))
  then show ?thesis by simp
qed

lemma owner_step_good:
  assumes step: "owner_step False s s'" and good: "dqc_good s" and bound: "dqc_bound s'"
  shows "dqc_good s'"
proof -
  note g = dqc_goodD [OF good] and d = dqc_coreD [OF dqc_goodD(1) [OF good]]
  have T63: "unat (dq_top s) < 2 ^ 63" "unat (dq_capacity s) < 2 ^ 63" using d(5) by linarith+
  from step show ?thesis
  proof cases
    case (push_room x b)
    have b: "unat b = unat (dq_bottom s)" using g(2) push_room(2) by simp
    have "unat (dq_bottom s) - unat (dq_top s) < unat (dq_capacity s)"
      using push_room(3) sint_diff_nat [OF T63(1), of b "dq_capacity s"] T63(2) b g(5) d(11) by simp
    moreover have "unat (dq_top s) \<le> unat (dq_bottom s)" using d(6) push_room(2) by simp
    ultimately show ?thesis
      unfolding push_room(1) using b d(7) by (intro good_owner_pc [OF good]) (auto simp: push_room(2))
  next
    case (push_free x b)
    then have "unat b = unat (dq_bottom s)" using g(2) by simp
    then show ?thesis
      unfolding push_free(1) using g(2) push_free(3) d(7) d(14) [of b]
      by (intro good_owner_pc [OF good]) (auto simp: push_free(2))
  next
    case (push_data x b)
    let ?c = "(dq_cell s b)\<lparr>sc_data := Some x\<rparr>"
    let ?s = "(set_cell b ?c s)\<lparr>dc_pushed := add_mset x (dc_pushed s)\<rparr>"
    have b: "unat b = unat (dq_bottom s)" "unat (dq_bottom s) < unat (dq_top s) + unat (dq_capacity s)"
        "sc_data (cell_of (dq_cells s) (unat b)) = None"
      using g(2) push_data(2) by simp_all
    have core: "dqc_core ?s (up s + 1) (up s + 1) (claimed s)"
      by (rule dqc_core_put [OF g(1)]) (use b push_data(2) in simp_all)
    have "dqc_good (?s\<lparr>dq_bottom := dq_bottom s, dc_owner := O_push_round b\<rparr>)"
      by (rule good_owner [OF core]) (use b d(6) push_data(2) in \<open>auto simp: claimed_def\<close>)
    then show ?thesis unfolding push_data(1) by (simp add: set_cell_def)
  next
    case (push_round b)
    let ?s = "set_cell b ((dq_cell s b)\<lparr>sc_round := b + 1\<rparr>) s"
    have "dqc_good ?s" by (rule good_thief_cell [OF good]) (simp add: d(14))
    then show ?thesis
      unfolding push_round(1) using g(2) d(7) by (intro good_owner_pc) (auto simp: push_round(2))
  next
    case (push_bottom b)
    have b: "unat b = unat (dq_bottom s)" using g(2) push_bottom(2) by simp
    have "unat (b + 1) = unat b + 1" by (rule unat_plus_1) (use b g(5) in simp)
    then show ?thesis
      unfolding push_bottom(1) using d(7) by (intro good_owner_local [OF good]) (auto simp: push_bottom(2))
  next
    case pop_call
    have "unat (dq_bottom s - 1) + 1 = unat (dq_bottom s)"
      using unat_minus_1 [of "dq_bottom s"] pop_call(3) by (simp add: unat_gt_0)
    then show ?thesis
      unfolding pop_call(1) using d(7) by (intro good_owner_pc [OF good]) (auto simp: pop_call(2))
  next
    case (pop_store b)
    then have "unat b + 1 = unat (dq_bottom s)" using g(2) by simp
    then show ?thesis
      unfolding pop_store(1) using d(7) by (intro good_owner_local [OF good]) (auto simp: pop_store(2))
  next
    case (pop_stolen b)
    have b: "unat b = unat (dq_bottom s)" "unat (dq_top s) \<le> unat b + 1" using g(2) d(6) pop_stolen(2) by auto
    then have "unat b < unat (dq_top s)"
      using pop_stolen(3) sint_less_nat [of b "dq_top s"] g(5) T63 by simp
    then show ?thesis
      unfolding pop_stolen(1) using b by (intro good_owner_pc [OF good]) (auto simp: pop_stolen(2))
  next
    case (pop_normal b)
    have b: "unat b = unat (dq_bottom s)" using g(2) pop_normal(2) by auto
    then have "unat (dq_top s) < unat b"
      using pop_normal(3) sint_less_nat [of "dq_top s" b] g(5) T63 by simp
    then show ?thesis
      unfolding pop_normal(1) using b d(7) by (intro good_owner_pc [OF good]) (auto simp: pop_normal(2))
  next
    case (pop_last b)
    have b: "unat b = unat (dq_bottom s)" using g(2) pop_last(2) by auto
    then have "sint b = int (unat b)" "sint (dq_top s) = int (unat (dq_top s))"
      using g(5) T63 by (simp_all only: sint_eq_unat)
    then have "unat b = unat (dq_top s)" using pop_last(3) by presburger
    then show ?thesis
      unfolding pop_last(1) using b d(7) by (intro good_owner_pc [OF good]) (auto simp: pop_last(2))
  next
    case (pop_restore t)
    then have "unat t = unat (dq_top s)" "unat (dq_bottom s) < unat (dq_top s)" using g(2) by auto
    then show ?thesis
      unfolding pop_restore(1) by (intro good_owner_local [OF good]) (auto simp: pop_restore(2))
  next
    case (pop_take_none b)
    show ?thesis
      unfolding pop_take_none(1)
      by (rule good_owner_taken [OF g(1) pop_take_none(2) g(2)]) (use pop_take_none(4) d(14) [of b] in simp_all)
  next
    case (pop_take b v)
    let ?c = "(dq_cell s b)\<lparr>sc_data := None\<rparr>"
    let ?s = "(set_cell b ?c s)\<lparr>dc_taken := add_mset v (dc_taken s)\<rparr>"
    have core: "dqc_core ?s (up ?s) (lim ?s) (claimed ?s)"
      using dqc_core_take [OF g(1), of b v ?c] pop_take(4) d(14) [of b] by (simp add: claimed_def)
    have own: "owner_ok (unat (dq_top s)) (unat (dq_bottom s)) (unat (dq_capacity s)) (dq_cells ?s) (dc_owner s)"
      using g(2) pop_take(2) by auto
    have none: "sc_data (cell_of (dq_cells ?s) (unat b)) = None"
      using set_cell_data [OF g(1), of b ?c "unat b"] by simp
    have "dqc_good (?s\<lparr>dc_owner := O_pop_clear b v\<rparr>)"
      by (rule good_owner_taken [OF core _ _ none]) (use own pop_take(2) in simp_all)
    then show ?thesis unfolding pop_take(1) by (simp add: set_cell_def)
  next
    case (pop_clear b v)
    let ?s = "set_cell b (clear_round (b + 1) (dq_cell s b)) s"
    have "dqc_good ?s" by (rule good_thief_cell [OF good]) (simp add: d(14))
    then show ?thesis
      unfolding pop_clear(1) using d(7) by (intro good_owner_pc) (auto simp: pop_clear(2))
  next
    case (pop_cas t)
    have t: "unat t = unat (dq_bottom s)" "unat (dq_top s) = unat (dq_bottom s)" using g(2) pop_cas(2,4) by auto
    have T1: "unat (dq_top s + 1) = unat (dq_top s) + 1" by (rule unat_plus_1) (rule T63)
    let ?s = "s\<lparr>dq_top := dq_top s + 1, dc_claims := dc_claims s + 1\<rparr>"
    have "dc_claims s + 1 + unat (dq_capacity s) + 1 < 2 ^ 63"
      using bound by (simp add: pop_cas(1) dqc_bound_def)
    then have core: "dqc_core ?s (up s) (up s) (insert (unat (dq_top s)) (claimed s))"
      by (intro dqc_core_claim [OF g(1)]) (use t pop_cas(2) in simp_all)
    have "dqc_good (?s\<lparr>dq_bottom := dq_bottom s, dc_owner := O_pop_won t\<rparr>)"
      by (rule good_owner [OF core]) (use t T1 d(11) pop_cas(2) in \<open>auto simp: claimed_def\<close>)
    then show ?thesis unfolding pop_cas(1) using pop_cas(4) by simp
  next
    case (pop_cas_fails t)
    have t: "unat t = unat (dq_bottom s)" "unat (dq_bottom s) \<le> unat (dq_top s)" using g(2) pop_cas_fails(2) by auto
    then show ?thesis
      unfolding pop_cas_fails(1) using d(11) by (intro good_owner_pc [OF good]) (auto simp: pop_cas_fails(2))
  next
    case (pop_lost t)
    have t: "unat (dq_bottom s) \<le> unat t" "unat t \<le> unat (dq_top s)" using g(2) pop_lost(2) by auto
    have "unat (t + 1) = unat t + 1" by (rule unat_plus_1) (use t T63 in linarith)
    then show ?thesis
      unfolding pop_lost(1) using d(7) by (intro good_owner_local [OF good]) (auto simp: pop_lost(2))
  next
    case (pop_won t)
    have t: "unat t = unat (dq_bottom s)" "unat (dq_top s) = unat t + 1" using g(2) pop_won(2) by auto
    have "unat (t + 1) = unat t + 1" by (rule unat_plus_1) (use t T63 in linarith)
    then show ?thesis
      unfolding pop_won(1) using d(7) t by (intro good_owner_local [OF good]) (auto simp: pop_won(2))
  next
    case (push_call x)
    then show ?thesis using d(7) good_owner_pc [OF good, of "O_push_top x (dq_bottom s)"] by simp
  next
    case (push_full x b)
    then show ?thesis using d(7) good_owner_pc [OF good, of O_idle] by simp
  next
    case (pop_clear_fails b v)
    then show ?thesis using d(7) good_owner_pc [OF good, of O_idle] by simp
  next
    case (store_drains b)
    then show ?thesis using d(10) by simp
  qed (use good in simp_all)
qed

lemma dqc_bound_back: "dqc_step tso s s' \<Longrightarrow> dqc_bound s' \<Longrightarrow> dqc_bound s"
  unfolding dqc_step_def
  by (elim disjE owner_step.cases thief_step.cases; simp add: dqc_bound_def)

definition dqc_inv :: "'a deque_sys \<Rightarrow> bool" where
  "dqc_inv s \<longleftrightarrow> (dqc_bound s \<longrightarrow> dqc_good s)"

lemma dqc_good_init: "dqc_init n s \<Longrightarrow> dqc_bound s \<Longrightarrow> dqc_good s"
proof -
  assume "dqc_init n s" and bound: "dqc_bound s"
  then obtain c where c: "nextPowerOfTwoChecked n = Inr c"
    and s: "s = \<lparr>dq_top = 0, dq_bottom = 0, dq_capacity = c, dq_mask = c - 1,
        dq_cells = replicate (unat c) empty_cell, dc_owner = O_idle, dc_thief = (\<lambda>_. S_idle),
        dc_pending = None, dc_pushed = {#}, dc_taken = {#}, dc_claims = 0\<rparr>"
    by (auto simp: dqc_init_def)
  have "cell_bag (replicate (unat c) empty_cell) = {#}" by (rule cell_bag_empty) (simp add: empty_cell_def)
  then show "dqc_good s"
    using checked_is_cap [OF c] bound by (simp add: s dqc_good_def dqc_core_def dqc_bound_def empty_cell_def)
qed

interpretation dqc: inductive_invariant "dqc_init n" "dqc_step False" dqc_inv for n
proof unfold_locales
  fix s :: "'a deque_sys"
  show "dqc_init n s \<Longrightarrow> dqc_inv s" using dqc_good_init by (auto simp: dqc_inv_def)
next
  fix s s' :: "'a deque_sys"
  assume "dqc_inv s" "dqc_step False s s'"
  then show "dqc_inv s'"
    using dqc_bound_back [of False s s'] owner_step_good thief_step_good
    unfolding dqc_inv_def dqc_step_def by blast
qed

lemma dqc_reach_good: "reach (dqc_init n) (dqc_step False) s \<Longrightarrow> dqc_bound s \<Longrightarrow> dqc_good s"
  using dqc.inv_reach [of n s] by (auto simp: dqc_inv_def)

section \<open>Properties\<close>

text \<open>C16: whatever the interleaving of the owner and any number of thieves, and whichever
  compare-exchanges fail, no element is lost or handed out twice: those pushed are those taken and
  those in the slots; and when the owner and the thieves are outside the operations and \<open>bottom_\<close> is
  not above \<open>top_\<close>, everything pushed has been taken.\<close>

theorem deque_exactly_once:
  assumes "reach (dqc_init n) (dqc_step False) s" and "dqc_bound s"
  shows "dc_pushed s = dc_taken s + cell_bag (dq_cells s) \<and>
    (dc_owner s = O_idle \<longrightarrow> (\<forall>i. dc_thief s i = S_idle) \<longrightarrow> dq_bottom s \<le> dq_top s \<longrightarrow>
       dc_pushed s = dc_taken s)"
proof (intro conjI impI)
  note g = dqc_goodD [OF dqc_reach_good [OF assms]]
  note d = dqc_coreD [OF g(1)]
  show "dc_pushed s = dc_taken s + cell_bag (dq_cells s)" by (rule d(9))
  assume idle: "dc_owner s = O_idle" "\<forall>i. dc_thief s i = S_idle" "dq_bottom s \<le> dq_top s"
  have "cell_bag (dq_cells s) = {#}"
  proof (rule cell_bag_empty)
    fix j assume "j < length (dq_cells s)"
    then have "sc_data (dq_cells s ! j) \<noteq> None \<Longrightarrow> \<exists>p. unat (dq_top s) \<le> p \<and> p < unat (dq_bottom s)"
      using d(16) [of j] d(2) idle by (auto simp: claimed_def held_def)
    then show "sc_data (dq_cells s ! j) = None"
      using idle(3) unfolding word_le_nat_alt by (metis leD le_trans)
  qed
  then show "dc_pushed s = dc_taken s" using d(9) by simp
qed

text \<open>\<open>push\<close> never overwrites an element, and when it waits for a slot to become empty, a thief that has
  already claimed the element in it is about to take it out.\<close>

theorem deque_push_slot:
  assumes "reach (dqc_init n) (dqc_step False) s" and "dqc_bound s"
  shows "(dc_owner s = O_push_data x b \<longrightarrow> sc_data (dq_cell s b) = None) \<and>
    (dc_owner s = O_push_wait x b \<longrightarrow> sc_data (dq_cell s b) \<noteq> None \<longrightarrow>
      (\<exists>i t. dc_thief s i = S_take t \<and> slot (dq_mask s) t = slot (dq_mask s) b))"
proof (intro conjI impI)
  note g = dqc_goodD [OF dqc_reach_good [OF assms]]
  note d = dqc_coreD [OF g(1)]
  show "sc_data (dq_cell s b) = None" if "dc_owner s = O_push_data x b"
    using g(2) that d(14) [of b] by simp
  assume pc: "dc_owner s = O_push_wait x b" and some: "sc_data (dq_cell s b) \<noteq> None"
  have b: "unat b = unat (dq_bottom s)" "unat b < unat (dq_top s) + unat (dq_capacity s)" using g(2) pc by simp_all
  obtain p where p: "p mod length (dq_cells s) = unat b mod length (dq_cells s)"
      "unat (dq_top s) \<le> p \<and> p < unat b \<or> p \<in> claimed s"
    using dqc_core_just [OF g(1), of "unat b"] some d(14) [of b] pc b by auto
  have "p \<in> claimed s"
  proof (rule ccontr)
    assume "p \<notin> claimed s"
    then have "unat (dq_top s) \<le> p" "p < unat b" using p(2) by auto
    then show False
      using round_cells [of "unat (dq_top s)" p "length (dq_cells s)" "unat b"] p(1) b d(2) by simp
  qed
  then obtain i where i: "p \<in> thief_claim (dc_thief s i)" using pc by (auto simp: claimed_def held_def)
  then obtain t where "dc_thief s i = S_take t" "p = unat t" by (cases "dc_thief s i") auto
  then show "\<exists>i t. dc_thief s i = S_take t \<and> slot (dq_mask s) t = slot (dq_mask s) b"
    using p(1) d(13) by (intro exI [of _ i] exI [of _ t]) simp
qed

section \<open>Two faults\<close>

lemma dqc_own: "reach (dqc_init n) (dqc_step tso) s \<Longrightarrow> owner_step tso s s' \<Longrightarrow> reach (dqc_init n) (dqc_step tso) s'"
  by (erule reach_step) (simp add: dqc_step_def)

lemma dqc_thf: "reach (dqc_init n) (dqc_step tso) s \<Longrightarrow> thief_step s s' \<Longrightarrow> reach (dqc_init n) (dqc_step tso) s'"
  by (erule reach_step) (simp add: dqc_step_def)

text \<open>Evaluation of a step on a concrete state, and the states of the two runs below: one slot and one
  thief, two slots and one thief.\<close>

lemmas dqc_eval = dq_cell_def slot_def set_cell_def clear_round_def

abbreviation deque1 :: "size_t \<Rightarrow> size_t \<Rightarrow> nat scell \<Rightarrow> nat dq_owner \<Rightarrow> nat dq_thief \<Rightarrow> nat multiset \<Rightarrow>
    nat multiset \<Rightarrow> nat \<Rightarrow> nat deque_sys" where
  "deque1 t b c own th pu ta k \<equiv> \<lparr>dq_top = t, dq_bottom = b, dq_capacity = 1, dq_mask = 0, dq_cells = [c],
     dc_owner = own, dc_thief = (\<lambda>_. S_idle)(0 := th), dc_pending = None, dc_pushed = pu, dc_taken = ta, dc_claims = k\<rparr>"

lemma push_trace: "reach (dqc_init 1) (dqc_step False) (deque1 0 0 \<lparr>sc_data = None, sc_round = 0\<rparr> (O_push_data 5 0) S_idle {#} {#} 0)"
proof -
  have "nextPowerOfTwoChecked 1 = Inr 1" by code_simp
  then have "reach (dqc_init 1) (dqc_step False) (deque1 0 0 \<lparr>sc_data = None, sc_round = 0\<rparr> O_idle S_idle {#} {#} 0)"
    by (intro reach_init) (simp add: dqc_init_def fun_eq_iff empty_cell_def)
  from dqc_own [OF this owner_step.push_call [of _ _ 5]]
  have "reach (dqc_init 1) (dqc_step False) (deque1 0 0 \<lparr>sc_data = None, sc_round = 0\<rparr> (O_push_top 5 0) S_idle {#} {#} 0)"
    by (simp add: dqc_eval)
  from dqc_own [OF this owner_step.push_room]
  have "reach (dqc_init 1) (dqc_step False) (deque1 0 0 \<lparr>sc_data = None, sc_round = 0\<rparr> (O_push_wait 5 0) S_idle {#} {#} 0)"
    by (simp add: dqc_eval)
  from dqc_own [OF this owner_step.push_free]
  have "reach (dqc_init 1) (dqc_step False) (deque1 0 0 \<lparr>sc_data = None, sc_round = 0\<rparr> (O_push_data 5 0) S_idle {#} {#} 0)"
    by (simp add: dqc_eval)
  then show ?thesis .
qed

lemma phantom_trace: "reach (dqc_init 1) (dqc_step False) (deque1 1 2 \<lparr>sc_data = None, sc_round = 0\<rparr> O_idle S_idle {#5#} {#5#} 1)"
proof -
  note push_trace
  from dqc_own [OF this owner_step.push_data]
  have "reach (dqc_init 1) (dqc_step False) (deque1 0 0 \<lparr>sc_data = Some 5, sc_round = 0\<rparr> (O_push_round 0) S_idle {#5#} {#} 0)"
    by (simp add: dqc_eval)
  from dqc_own [OF this owner_step.push_round]
  have "reach (dqc_init 1) (dqc_step False) (deque1 0 0 \<lparr>sc_data = Some 5, sc_round = 1\<rparr> (O_push_bottom 0) S_idle {#5#} {#} 0)"
    by (simp add: dqc_eval)
  from dqc_own [OF this owner_step.push_bottom]
  have "reach (dqc_init 1) (dqc_step False) (deque1 0 1 \<lparr>sc_data = Some 5, sc_round = 1\<rparr> O_idle S_idle {#5#} {#} 0)"
    by (simp add: dqc_eval)
  from dqc_thf [OF this thief_step.steal_call [of _ 0]]
  have "reach (dqc_init 1) (dqc_step False) (deque1 0 1 \<lparr>sc_data = Some 5, sc_round = 1\<rparr> O_idle (S_bottom 0) {#5#} {#} 0)"
    by (simp add: dqc_eval)
  from dqc_thf [OF this thief_step.steal_some [of _ 0]]
  have "reach (dqc_init 1) (dqc_step False) (deque1 0 1 \<lparr>sc_data = Some 5, sc_round = 1\<rparr> O_idle (S_round 0) {#5#} {#} 0)"
    by (simp add: dqc_eval)
  from dqc_thf [OF this thief_step.steal_round [of _ 0]]
  have "reach (dqc_init 1) (dqc_step False) (deque1 0 1 \<lparr>sc_data = Some 5, sc_round = 1\<rparr> O_idle (S_cas 0) {#5#} {#} 0)"
    by (simp add: dqc_eval)
  from dqc_own [OF this owner_step.pop_call]
  have "reach (dqc_init 1) (dqc_step False) (deque1 0 1 \<lparr>sc_data = Some 5, sc_round = 1\<rparr> (O_pop_store 0) (S_cas 0) {#5#} {#} 0)"
    by (simp add: dqc_eval)
  from dqc_own [OF this owner_step.pop_store]
  have "reach (dqc_init 1) (dqc_step False) (deque1 0 0 \<lparr>sc_data = Some 5, sc_round = 1\<rparr> (O_pop_top 0) (S_cas 0) {#5#} {#} 0)"
    by (simp add: dqc_eval)
  from dqc_own [OF this owner_step.pop_last]
  have "reach (dqc_init 1) (dqc_step False) (deque1 0 0 \<lparr>sc_data = Some 5, sc_round = 1\<rparr> (O_pop_cas 0) (S_cas 0) {#5#} {#} 0)"
    by (simp add: dqc_eval)
  from dqc_thf [OF this thief_step.steal_cas [of _ 0]]
  have "reach (dqc_init 1) (dqc_step False) (deque1 1 0 \<lparr>sc_data = Some 5, sc_round = 1\<rparr> (O_pop_cas 0) (S_take 0) {#5#} {#} 1)"
    by (simp add: dqc_eval)
  from dqc_thf [OF this thief_step.steal_take [of _ 0]]
  have "reach (dqc_init 1) (dqc_step False) (deque1 1 0 \<lparr>sc_data = None, sc_round = 1\<rparr> (O_pop_cas 0) (S_clear 0 5) {#5#} {#5#} 1)"
    by (simp add: dqc_eval)
  from dqc_thf [OF this thief_step.steal_clear [of _ 0]]
  have "reach (dqc_init 1) (dqc_step False) (deque1 1 0 \<lparr>sc_data = None, sc_round = 0\<rparr> (O_pop_cas 0) S_idle {#5#} {#5#} 1)"
    by (simp add: dqc_eval)
  from dqc_own [OF this owner_step.pop_cas_fails]
  have "reach (dqc_init 1) (dqc_step False) (deque1 1 0 \<lparr>sc_data = None, sc_round = 0\<rparr> (O_pop_lost 1) S_idle {#5#} {#5#} 1)"
    by (simp add: dqc_eval)
  from dqc_own [OF this owner_step.pop_lost]
  have "reach (dqc_init 1) (dqc_step False) (deque1 1 2 \<lparr>sc_data = None, sc_round = 0\<rparr> O_idle S_idle {#5#} {#5#} 1)"
    by (simp add: dqc_eval)
  then show ?thesis .
qed

text \<open>C17: a lost race leaves a phantom element. When the owner's CAS for the last element fails because
  a thief took it, the CAS has already loaded the new \<open>top_\<close> into \<open>t\<close>, and \<open>bottom_.store(t + 1)\<close>
  puts \<open>bottom_\<close> one above \<open>top_\<close>: everything pushed has been taken and nobody is working, but the
  deque reports one element, and with capacity 1 \<open>push\<close> rejects.\<close>

theorem deque_phantom_slot:
  "\<exists>s :: nat deque_sys. reach (dqc_init 1) (dqc_step False) s \<and>
     dc_owner s = O_idle \<and> (\<forall>i. dc_thief s i = S_idle) \<and> dc_pushed s = {#5#} \<and> dc_taken s = dc_pushed s \<and>
     dq_size s = 1 \<and> \<not> dq_empty s \<and>
     (\<forall>x fuel. dq_push fuel x (deque.truncate s) = Some (False, deque.truncate s))"
proof -
  let ?s = "deque1 1 2 \<lparr>sc_data = None, sc_round = 0\<rparr> O_idle S_idle {#5#} {#5#} 1"
  have "dq_push fuel x (deque.truncate ?s) = Some (False, deque.truncate ?s)" for fuel x
    by (simp add: dq_push_def deque.truncate_def)
  then show ?thesis
    by (intro exI [of _ ?s] conjI allI phantom_trace) (simp_all add: dq_size_def dq_empty_def)
qed

abbreviation deque2 :: "size_t \<Rightarrow> size_t \<Rightarrow> nat scell \<Rightarrow> nat scell \<Rightarrow> nat dq_owner \<Rightarrow> size_t option \<Rightarrow>
    nat dq_thief \<Rightarrow> nat multiset \<Rightarrow> nat multiset \<Rightarrow> nat \<Rightarrow> nat deque_sys" where
  "deque2 t b c c' own pen th pu ta k \<equiv> \<lparr>dq_top = t, dq_bottom = b, dq_capacity = 2, dq_mask = 1,
     dq_cells = [c, c'], dc_owner = own, dc_thief = (\<lambda>_. S_idle)(0 := th), dc_pending = pen, dc_pushed = pu,
     dc_taken = ta, dc_claims = k\<rparr>"

lemma tso_trace: "reach (dqc_init 2) (dqc_step True) (deque2 2 2 \<lparr>sc_data = None, sc_round = 0\<rparr> \<lparr>sc_data = Some 7, sc_round = 2\<rparr> O_idle None S_idle {#7, 6, 5#} {#6, 5#} (Suc (Suc 0)))"
proof -
  have "nextPowerOfTwoChecked 2 = Inr 2" by code_simp
  moreover have "replicate 2 x = [x, x]" for x :: "nat scell" by (simp add: numeral_2_eq_2)
  ultimately have "reach (dqc_init 2) (dqc_step True) (deque2 0 0 \<lparr>sc_data = None, sc_round = 0\<rparr> \<lparr>sc_data = None, sc_round = 0\<rparr> O_idle None S_idle {#} {#} 0)"
    by (intro reach_init) (simp add: dqc_init_def fun_eq_iff empty_cell_def)
  from dqc_own [OF this owner_step.push_call [of _ _ 5]]
  have "reach (dqc_init 2) (dqc_step True) (deque2 0 0 \<lparr>sc_data = None, sc_round = 0\<rparr> \<lparr>sc_data = None, sc_round = 0\<rparr> (O_push_top 5 0) None S_idle {#} {#} 0)"
    by (simp add: dqc_eval)
  from dqc_own [OF this owner_step.push_room]
  have "reach (dqc_init 2) (dqc_step True) (deque2 0 0 \<lparr>sc_data = None, sc_round = 0\<rparr> \<lparr>sc_data = None, sc_round = 0\<rparr> (O_push_wait 5 0) None S_idle {#} {#} 0)"
    by (simp add: dqc_eval)
  from dqc_own [OF this owner_step.push_free]
  have "reach (dqc_init 2) (dqc_step True) (deque2 0 0 \<lparr>sc_data = None, sc_round = 0\<rparr> \<lparr>sc_data = None, sc_round = 0\<rparr> (O_push_data 5 0) None S_idle {#} {#} 0)"
    by (simp add: dqc_eval)
  from dqc_own [OF this owner_step.push_data]
  have "reach (dqc_init 2) (dqc_step True) (deque2 0 0 \<lparr>sc_data = Some 5, sc_round = 0\<rparr> \<lparr>sc_data = None, sc_round = 0\<rparr> (O_push_round 0) None S_idle {#5#} {#} 0)"
    by (simp add: dqc_eval)
  from dqc_own [OF this owner_step.push_round]
  have "reach (dqc_init 2) (dqc_step True) (deque2 0 0 \<lparr>sc_data = Some 5, sc_round = 1\<rparr> \<lparr>sc_data = None, sc_round = 0\<rparr> (O_push_bottom 0) None S_idle {#5#} {#} 0)"
    by (simp add: dqc_eval)
  from dqc_own [OF this owner_step.push_bottom]
  have "reach (dqc_init 2) (dqc_step True) (deque2 0 1 \<lparr>sc_data = Some 5, sc_round = 1\<rparr> \<lparr>sc_data = None, sc_round = 0\<rparr> O_idle None S_idle {#5#} {#} 0)"
    by (simp add: dqc_eval)
  from dqc_own [OF this owner_step.push_call [of _ _ 6]]
  have "reach (dqc_init 2) (dqc_step True) (deque2 0 1 \<lparr>sc_data = Some 5, sc_round = 1\<rparr> \<lparr>sc_data = None, sc_round = 0\<rparr> (O_push_top 6 1) None S_idle {#5#} {#} 0)"
    by (simp add: dqc_eval)
  from dqc_own [OF this owner_step.push_room]
  have "reach (dqc_init 2) (dqc_step True) (deque2 0 1 \<lparr>sc_data = Some 5, sc_round = 1\<rparr> \<lparr>sc_data = None, sc_round = 0\<rparr> (O_push_wait 6 1) None S_idle {#5#} {#} 0)"
    by (simp add: dqc_eval)
  from dqc_own [OF this owner_step.push_free]
  have "reach (dqc_init 2) (dqc_step True) (deque2 0 1 \<lparr>sc_data = Some 5, sc_round = 1\<rparr> \<lparr>sc_data = None, sc_round = 0\<rparr> (O_push_data 6 1) None S_idle {#5#} {#} 0)"
    by (simp add: dqc_eval)
  from dqc_own [OF this owner_step.push_data]
  have "reach (dqc_init 2) (dqc_step True) (deque2 0 1 \<lparr>sc_data = Some 5, sc_round = 1\<rparr> \<lparr>sc_data = Some 6, sc_round = 0\<rparr> (O_push_round 1) None S_idle {#6, 5#} {#} 0)"
    by (simp add: dqc_eval)
  from dqc_own [OF this owner_step.push_round]
  have "reach (dqc_init 2) (dqc_step True) (deque2 0 1 \<lparr>sc_data = Some 5, sc_round = 1\<rparr> \<lparr>sc_data = Some 6, sc_round = 2\<rparr> (O_push_bottom 1) None S_idle {#6, 5#} {#} 0)"
    by (simp add: dqc_eval)
  from dqc_own [OF this owner_step.push_bottom]
  have "reach (dqc_init 2) (dqc_step True) (deque2 0 2 \<lparr>sc_data = Some 5, sc_round = 1\<rparr> \<lparr>sc_data = Some 6, sc_round = 2\<rparr> O_idle None S_idle {#6, 5#} {#} 0)"
    by (simp add: dqc_eval)
  from dqc_own [OF this owner_step.pop_call]
  have "reach (dqc_init 2) (dqc_step True) (deque2 0 2 \<lparr>sc_data = Some 5, sc_round = 1\<rparr> \<lparr>sc_data = Some 6, sc_round = 2\<rparr> (O_pop_store 1) None S_idle {#6, 5#} {#} 0)"
    by (simp add: dqc_eval)
  from dqc_own [OF this owner_step.pop_store_buffered]
  have "reach (dqc_init 2) (dqc_step True) (deque2 0 2 \<lparr>sc_data = Some 5, sc_round = 1\<rparr> \<lparr>sc_data = Some 6, sc_round = 2\<rparr> (O_pop_top 1) (Some 1) S_idle {#6, 5#} {#} 0)"
    by (simp add: dqc_eval)
  from dqc_own [OF this owner_step.pop_normal]
  have "reach (dqc_init 2) (dqc_step True) (deque2 0 2 \<lparr>sc_data = Some 5, sc_round = 1\<rparr> \<lparr>sc_data = Some 6, sc_round = 2\<rparr> (O_pop_take 1) (Some 1) S_idle {#6, 5#} {#} 0)"
    by (simp add: dqc_eval)
  from dqc_thf [OF this thief_step.steal_call [of _ 0]]
  have "reach (dqc_init 2) (dqc_step True) (deque2 0 2 \<lparr>sc_data = Some 5, sc_round = 1\<rparr> \<lparr>sc_data = Some 6, sc_round = 2\<rparr> (O_pop_take 1) (Some 1) (S_bottom 0) {#6, 5#} {#} 0)"
    by (simp add: dqc_eval)
  from dqc_thf [OF this thief_step.steal_some [of _ 0]]
  have "reach (dqc_init 2) (dqc_step True) (deque2 0 2 \<lparr>sc_data = Some 5, sc_round = 1\<rparr> \<lparr>sc_data = Some 6, sc_round = 2\<rparr> (O_pop_take 1) (Some 1) (S_round 0) {#6, 5#} {#} 0)"
    by (simp add: dqc_eval)
  from dqc_thf [OF this thief_step.steal_round [of _ 0]]
  have "reach (dqc_init 2) (dqc_step True) (deque2 0 2 \<lparr>sc_data = Some 5, sc_round = 1\<rparr> \<lparr>sc_data = Some 6, sc_round = 2\<rparr> (O_pop_take 1) (Some 1) (S_cas 0) {#6, 5#} {#} 0)"
    by (simp add: dqc_eval)
  from dqc_thf [OF this thief_step.steal_cas [of _ 0]]
  have "reach (dqc_init 2) (dqc_step True) (deque2 1 2 \<lparr>sc_data = Some 5, sc_round = 1\<rparr> \<lparr>sc_data = Some 6, sc_round = 2\<rparr> (O_pop_take 1) (Some 1) (S_take 0) {#6, 5#} {#} 1)"
    by (simp add: dqc_eval)
  from dqc_thf [OF this thief_step.steal_take [of _ 0]]
  have "reach (dqc_init 2) (dqc_step True) (deque2 1 2 \<lparr>sc_data = None, sc_round = 1\<rparr> \<lparr>sc_data = Some 6, sc_round = 2\<rparr> (O_pop_take 1) (Some 1) (S_clear 0 5) {#6, 5#} {#5#} 1)"
    by (simp add: dqc_eval)
  from dqc_thf [OF this thief_step.steal_clear [of _ 0]]
  have "reach (dqc_init 2) (dqc_step True) (deque2 1 2 \<lparr>sc_data = None, sc_round = 0\<rparr> \<lparr>sc_data = Some 6, sc_round = 2\<rparr> (O_pop_take 1) (Some 1) S_idle {#6, 5#} {#5#} 1)"
    by (simp add: dqc_eval)
  from dqc_thf [OF this thief_step.steal_call [of _ 0]]
  have "reach (dqc_init 2) (dqc_step True) (deque2 1 2 \<lparr>sc_data = None, sc_round = 0\<rparr> \<lparr>sc_data = Some 6, sc_round = 2\<rparr> (O_pop_take 1) (Some 1) (S_bottom 1) {#6, 5#} {#5#} 1)"
    by (simp add: dqc_eval)
  from dqc_thf [OF this thief_step.steal_some [of _ 0]]
  have "reach (dqc_init 2) (dqc_step True) (deque2 1 2 \<lparr>sc_data = None, sc_round = 0\<rparr> \<lparr>sc_data = Some 6, sc_round = 2\<rparr> (O_pop_take 1) (Some 1) (S_round 1) {#6, 5#} {#5#} 1)"
    by (simp add: dqc_eval)
  from dqc_thf [OF this thief_step.steal_round [of _ 0]]
  have "reach (dqc_init 2) (dqc_step True) (deque2 1 2 \<lparr>sc_data = None, sc_round = 0\<rparr> \<lparr>sc_data = Some 6, sc_round = 2\<rparr> (O_pop_take 1) (Some 1) (S_cas 1) {#6, 5#} {#5#} 1)"
    by (simp add: dqc_eval)
  from dqc_thf [OF this thief_step.steal_cas [of _ 0]]
  have "reach (dqc_init 2) (dqc_step True) (deque2 2 2 \<lparr>sc_data = None, sc_round = 0\<rparr> \<lparr>sc_data = Some 6, sc_round = 2\<rparr> (O_pop_take 1) (Some 1) (S_take 1) {#6, 5#} {#5#} (Suc (Suc 0)))"
    by (simp add: dqc_eval)
  from dqc_own [OF this owner_step.store_drains]
  have "reach (dqc_init 2) (dqc_step True) (deque2 2 1 \<lparr>sc_data = None, sc_round = 0\<rparr> \<lparr>sc_data = Some 6, sc_round = 2\<rparr> (O_pop_take 1) None (S_take 1) {#6, 5#} {#5#} (Suc (Suc 0)))"
    by (simp add: dqc_eval)
  from dqc_own [OF this owner_step.pop_take]
  have "reach (dqc_init 2) (dqc_step True) (deque2 2 1 \<lparr>sc_data = None, sc_round = 0\<rparr> \<lparr>sc_data = None, sc_round = 2\<rparr> (O_pop_clear 1 6) None (S_take 1) {#6, 5#} {#6, 5#} (Suc (Suc 0)))"
    by (simp add: dqc_eval)
  from dqc_own [OF this owner_step.pop_clear]
  have "reach (dqc_init 2) (dqc_step True) (deque2 2 1 \<lparr>sc_data = None, sc_round = 0\<rparr> \<lparr>sc_data = None, sc_round = 0\<rparr> O_idle None (S_take 1) {#6, 5#} {#6, 5#} (Suc (Suc 0)))"
    by (simp add: dqc_eval)
  from dqc_thf [OF this thief_step.steal_take_none [of _ 0]]
  have "reach (dqc_init 2) (dqc_step True) (deque2 2 1 \<lparr>sc_data = None, sc_round = 0\<rparr> \<lparr>sc_data = None, sc_round = 0\<rparr> O_idle None S_idle {#6, 5#} {#6, 5#} (Suc (Suc 0)))"
    by (simp add: dqc_eval)
  from dqc_own [OF this owner_step.push_call [of _ _ 7]]
  have "reach (dqc_init 2) (dqc_step True) (deque2 2 1 \<lparr>sc_data = None, sc_round = 0\<rparr> \<lparr>sc_data = None, sc_round = 0\<rparr> (O_push_top 7 1) None S_idle {#6, 5#} {#6, 5#} (Suc (Suc 0)))"
    by (simp add: dqc_eval)
  from dqc_own [OF this owner_step.push_room]
  have "reach (dqc_init 2) (dqc_step True) (deque2 2 1 \<lparr>sc_data = None, sc_round = 0\<rparr> \<lparr>sc_data = None, sc_round = 0\<rparr> (O_push_wait 7 1) None S_idle {#6, 5#} {#6, 5#} (Suc (Suc 0)))"
    by (simp add: dqc_eval)
  from dqc_own [OF this owner_step.push_free]
  have "reach (dqc_init 2) (dqc_step True) (deque2 2 1 \<lparr>sc_data = None, sc_round = 0\<rparr> \<lparr>sc_data = None, sc_round = 0\<rparr> (O_push_data 7 1) None S_idle {#6, 5#} {#6, 5#} (Suc (Suc 0)))"
    by (simp add: dqc_eval)
  from dqc_own [OF this owner_step.push_data]
  have "reach (dqc_init 2) (dqc_step True) (deque2 2 1 \<lparr>sc_data = None, sc_round = 0\<rparr> \<lparr>sc_data = Some 7, sc_round = 0\<rparr> (O_push_round 1) None S_idle {#7, 6, 5#} {#6, 5#} (Suc (Suc 0)))"
    by (simp add: dqc_eval)
  from dqc_own [OF this owner_step.push_round]
  have "reach (dqc_init 2) (dqc_step True) (deque2 2 1 \<lparr>sc_data = None, sc_round = 0\<rparr> \<lparr>sc_data = Some 7, sc_round = 2\<rparr> (O_push_bottom 1) None S_idle {#7, 6, 5#} {#6, 5#} (Suc (Suc 0)))"
    by (simp add: dqc_eval)
  from dqc_own [OF this owner_step.push_bottom]
  have "reach (dqc_init 2) (dqc_step True) (deque2 2 2 \<lparr>sc_data = None, sc_round = 0\<rparr> \<lparr>sc_data = Some 7, sc_round = 2\<rparr> O_idle None S_idle {#7, 6, 5#} {#6, 5#} (Suc (Suc 0)))"
    by (simp add: dqc_eval)
  then show ?thesis .
qed

text \<open>C18: on a machine with store buffers the missing fence in \<open>pop\<close> loses an element. The owner's store of
  \<open>bottom_\<close> may become visible after its load of \<open>top_\<close>; a thief then claims the position the owner is
  taking, \<open>top_\<close> ends above \<open>bottom_\<close>, and the next \<open>push\<close>, which reports success, puts its element below
  \<open>top_\<close>: nobody is working, the deque is empty for the owner and for every thief, and the
  element is still in a slot.\<close>

theorem deque_tso_loses_element:
  "\<exists>s :: nat deque_sys. reach (dqc_init 2) (dqc_step True) s \<and>
     dc_owner s = O_idle \<and> dc_pending s = None \<and> (\<forall>i. dc_thief s i = S_idle) \<and>
     dc_pushed s = {#5, 6, 7#} \<and> dc_taken s = {#5, 6#} \<and> cell_bag (dq_cells s) = {#7#} \<and> dq_size s = 0 \<and>
     dq_pop (deque.truncate s) = (None, deque.truncate s) \<and> dq_steal (deque.truncate s) = (None, deque.truncate s)"
proof -
  let ?s = "deque2 2 2 \<lparr>sc_data = None, sc_round = 0\<rparr> \<lparr>sc_data = Some 7, sc_round = 2\<rparr> O_idle None S_idle {#7, 6, 5#} {#6, 5#} (Suc (Suc 0))"
  have "dq_pop (deque.truncate ?s) = (None, deque.truncate ?s)" "dq_steal (deque.truncate ?s) = (None, deque.truncate ?s)"
    by (simp_all add: dq_pop_def dq_steal_def deque.truncate_def Let_def)
  then show ?thesis
    by (intro exI [of _ ?s] conjI allI tso_trace) (simp_all add: dq_size_def cell_bag_def)
qed

text \<open>The witnesses: the element is pushed and taken by the thief.\<close>

lemma phantom_bound: "dqc_bound (deque1 1 2 \<lparr>sc_data = None, sc_round = 0\<rparr> O_idle S_idle {#5#} {#5#} 1)"
  by (simp add: dqc_bound_def)

theorem deque_exactly_once_witness:
  "\<exists>s :: nat deque_sys. reach (dqc_init 1) (dqc_step False) s \<and> dc_pushed s = {#5#} \<and>
     dc_pushed s = dc_taken s + cell_bag (dq_cells s)"
proof -
  let ?s = "deque1 1 2 \<lparr>sc_data = None, sc_round = 0\<rparr> O_idle S_idle {#5#} {#5#} 1"
  have "dc_pushed ?s = dc_taken ?s + cell_bag (dq_cells ?s)"
    using deque_exactly_once [OF phantom_trace phantom_bound] by (rule conjunct1)
  then show ?thesis by (intro exI [of _ ?s] conjI phantom_trace) simp_all
qed

theorem deque_push_slot_witness:
  "\<exists>s :: nat deque_sys. reach (dqc_init 1) (dqc_step False) s \<and> dc_owner s = O_push_data 5 0 \<and>
     sc_data (dq_cell s 0) = None"
proof -
  let ?s = "deque1 0 0 \<lparr>sc_data = None, sc_round = 0\<rparr> (O_push_data 5 0) S_idle {#} {#} 0"
  have "dqc_bound ?s" by (simp add: dqc_bound_def)
  from deque_push_slot [OF push_trace this, of 5 0]
  have "sc_data (dq_cell ?s 0) = None" by simp
  then show ?thesis using push_trace by (intro exI [of _ ?s]) simp
qed

end
