(* ===== verification/WS_Queue.thy ===== *)
theory WS_Queue
  imports Steal_Cells
begin

text \<open>
  \<open>include/WorkStealingQueue.h\<close>, the growing work-stealing queue: \<open>QueueShared\<close> (\<open>top\<close> and the
  array), \<open>QueueWorker\<close> (the owner, with a private \<open>bottom_\<close>) and \<open>QueueStealer\<close> (a thief, who
  never reads \<open>bottom_\<close> and recognises an empty queue by the round of the cell at \<open>top\<close>). This theory
  runs the member functions by one thread at a time and proves the deque contract; \<open>WSQ_Concurrent\<close>
  runs the owner and the thieves at once, with the epoch that protects the array.

  \<open>int64_t\<close> counters are words read with \<open>sint\<close>. \<open>array_\<close> and \<open>current_\<close> are the same array between
  operations, so there is one here. Waiting and the retry of \<open>pushSlow\<close> take fuel; alone, one look and
  one growth are enough.
\<close>

section \<open>State and operations\<close>

record 'a wsq =
  wq_top :: size_t
  wq_bottom :: size_t
  wq_mask :: size_t
  wq_cells :: "'a scell list"

definition wq_new :: "size_t \<Rightarrow> exn + 'a wsq" where
  "wq_new capacity =
     (case nextPowerOfTwoChecked capacity of
        Inl e \<Rightarrow> Inl e
      | Inr c \<Rightarrow> Inr \<lparr>wq_top = 0, wq_bottom = 0, wq_mask = c - 1, wq_cells = replicate (unat c) empty_cell\<rparr>)"

definition wq_cell :: "'a wsq \<Rightarrow> size_t \<Rightarrow> 'a scell" where
  "wq_cell q i = wq_cells q ! slot (wq_mask q) i"

fun wq_slot_free :: "nat \<Rightarrow> size_t \<Rightarrow> 'a wsq \<Rightarrow> bool" where
  "wq_slot_free 0 b q = False"
| "wq_slot_free (Suc n) b q = (if sc_data (wq_cell q b) \<noteq> None then wq_slot_free n b q else True)"

definition wq_tryPushFast :: "nat \<Rightarrow> 'a \<Rightarrow> 'a wsq \<Rightarrow> (bool \<times> 'a wsq) option" where
  "wq_tryPushFast fuel item q =
     (let b = wq_bottom q; t = wq_top q in
      if sint (wq_mask q) + 1 \<le> sint b - sint t then Some (False, q)
      else if wq_slot_free fuel b q then
        Some (True, q\<lparr>wq_cells := (wq_cells q)[slot (wq_mask q) b := \<lparr>sc_data = Some item, sc_round = b + 1\<rparr>],
                     wq_bottom := b + 1\<rparr>)
      else None)"

text \<open>The loop of \<open>grow\<close>: moves the elements at the given positions to the new cells.\<close>

fun wq_move :: "size_t \<Rightarrow> size_t \<Rightarrow> nat list \<Rightarrow> 'a scell list \<Rightarrow> 'a scell list \<Rightarrow> 'a scell list" where
  "wq_move om nm [] old new = new"
| "wq_move om nm (i # is) old new =
     (let oc = old ! slot om (of_nat i) in
      case sc_data oc of
        None \<Rightarrow> wq_move om nm is old new
      | Some p \<Rightarrow> wq_move om nm is (old[slot om (of_nat i) := oc\<lparr>sc_data := None\<rparr>])
                    (new[slot nm (of_nat i) := \<lparr>sc_data = Some p, sc_round = of_nat i + 1\<rparr>]))"

definition wq_grow :: "'a wsq \<Rightarrow> 'a wsq" where
  "wq_grow q =
     (let new_cap = (wq_mask q + 1) * 2 in
      q\<lparr>wq_mask := new_cap - 1,
        wq_cells := wq_move (wq_mask q) (new_cap - 1) [unat (wq_top q)..<unat (wq_bottom q)]
                      (wq_cells q) (replicate (unat new_cap) empty_cell)\<rparr>)"

fun wq_pushSlow :: "nat \<Rightarrow> 'a \<Rightarrow> 'a wsq \<Rightarrow> (bool \<times> 'a wsq) option" where
  "wq_pushSlow 0 item q = None"
| "wq_pushSlow (Suc n) item q =
     (case wq_tryPushFast (Suc n) item (wq_grow q) of
        None \<Rightarrow> None
      | Some (True, q') \<Rightarrow> Some (True, q')
      | Some (False, q') \<Rightarrow> wq_pushSlow n item q')"

definition wq_push :: "nat \<Rightarrow> 'a \<Rightarrow> 'a wsq \<Rightarrow> (bool \<times> 'a wsq) option" where
  "wq_push fuel item q =
     (case wq_tryPushFast fuel item q of
        None \<Rightarrow> None
      | Some (True, q') \<Rightarrow> Some (True, q')
      | Some (False, q') \<Rightarrow> wq_pushSlow fuel item q')"

definition wq_take :: "size_t \<Rightarrow> 'a wsq \<Rightarrow> 'a wsq" where
  "wq_take p q = q\<lparr>wq_cells := (wq_cells q)[slot (wq_mask q) p :=
     clear_round (p + 1) ((wq_cell q p)\<lparr>sc_data := None\<rparr>)]\<rparr>"

definition wq_pop :: "'a wsq \<Rightarrow> 'a option \<times> 'a wsq" where
  "wq_pop q =
     (let b = wq_bottom q in
      if b = 0 then (None, q)
      else
        let t = wq_top q in
        if sint t < sint (b - 1) then
          (case sc_data (wq_cell q (b - 1)) of
             None \<Rightarrow> (None, q)
           | Some v \<Rightarrow> (Some v, (wq_take (b - 1) q)\<lparr>wq_bottom := b - 1\<rparr>))
        else if sint (b - 1) < sint t then (None, q)
        else if wq_top q = t then
          (let q = q\<lparr>wq_top := t + 1\<rparr> in
           case sc_data (wq_cell q t) of
             None \<Rightarrow> (None, q\<lparr>wq_bottom := t + 1\<rparr>)
           | Some v \<Rightarrow> (Some v, (wq_take t q)\<lparr>wq_bottom := t + 1\<rparr>))
        else (None, q))"

definition wq_steal :: "'a wsq \<Rightarrow> 'a option \<times> 'a wsq" where
  "wq_steal q =
     (let t = wq_top q in
      if sc_round (wq_cell q t) \<noteq> t + 1 then (None, q)
      else if wq_top q = t then
        (let q = q\<lparr>wq_top := t + 1\<rparr> in
         case sc_data (wq_cell q t) of
           None \<Rightarrow> (None, q)
         | Some v \<Rightarrow> (Some v, wq_take t q))
      else (None, q))"

fun wq_stealBatch :: "nat \<Rightarrow> 'a wsq \<Rightarrow> 'a list \<times> 'a wsq" where
  "wq_stealBatch 0 q = ([], q)"
| "wq_stealBatch (Suc n) q =
     (case wq_steal q of
        (None, q') \<Rightarrow> ([], q')
      | (Some v, q') \<Rightarrow> (let (vs, r) = wq_stealBatch n q' in (v # vs, r)))"

definition wq_size :: "'a wsq \<Rightarrow> size_t" where
  "wq_size q = (if sint (wq_top q) < sint (wq_bottom q) then wq_bottom q - wq_top q else 0)"

definition wq_worker_empty :: "'a wsq \<Rightarrow> bool" where
  "wq_worker_empty q \<longleftrightarrow> wq_size q = 0"

definition wq_stealer_empty :: "'a wsq \<Rightarrow> bool" where
  "wq_stealer_empty q \<longleftrightarrow> sc_round (wq_cell q (wq_top q)) \<noteq> wq_top q + 1"

definition wq_capacity :: "'a wsq \<Rightarrow> size_t" where
  "wq_capacity q = wq_mask q + 1"

text \<open>The elements the destructor of \<open>QueueShared\<close> deletes.\<close>

definition wq_destroy :: "'a wsq \<Rightarrow> 'a multiset" where
  "wq_destroy q = cell_bag (wq_cells q)"

section \<open>Invariant\<close>

text \<open>
  With \<open>k\<close> more operations to come \<open>bottom\<close> stays below \<open>2 ^ 61\<close>, so the capacity, which at most doubles
  when the queue is full, stays within \<open>2 ^ 62\<close>. A cell without element has round 0.
\<close>

definition clean :: "'a scell list \<Rightarrow> bool" where
  "clean cs \<longleftrightarrow> (\<forall>c\<in>set cs. sc_data c = None \<longrightarrow> sc_round c = 0)"

definition wq_ok :: "nat \<Rightarrow> 'a wsq \<Rightarrow> bool" where
  "wq_ok k q \<longleftrightarrow>
     is_cap (wq_capacity q) \<and> unat (wq_capacity q) \<le> 2 ^ 62 \<and> length (wq_cells q) = unat (wq_capacity q) \<and>
     unat (wq_bottom q) + k < 2 ^ 61 \<and> clean (wq_cells q) \<and>
     holds (wq_cells q) (unat (wq_top q)) (unat (wq_bottom q))"

definition wq_list :: "'a wsq \<Rightarrow> 'a list" where
  "wq_list q = held_list (wq_cells q) (unat (wq_top q)) (unat (wq_bottom q))"

lemma clean_update: "clean cs \<Longrightarrow> (sc_data c = None \<Longrightarrow> sc_round c = 0) \<Longrightarrow> clean (cs[j := c])"
  using set_update_subset_insert [of cs j c] by (auto simp: clean_def)

lemma clean_cell: "clean cs \<Longrightarrow> cs \<noteq> [] \<Longrightarrow> sc_data (cell_of cs p) = None \<Longrightarrow> sc_round (cell_of cs p) = 0"
  using nth_mem [of "p mod length cs" cs] by (auto simp: clean_def cell_of_def)

lemma clean_new: "clean (replicate n empty_cell)"
  by (simp add: clean_def empty_cell_def)

lemma wq_okD:
  assumes "wq_ok k q"
  shows "is_cap (wq_capacity q)" "length (wq_cells q) = unat (wq_capacity q)" "unat (wq_capacity q) \<le> 2 ^ 62"
    "unat (wq_bottom q) + k < 2 ^ 61" "holds (wq_cells q) (unat (wq_top q)) (unat (wq_bottom q))"
    "unat (wq_top q) \<le> unat (wq_bottom q)" "0 < unat (wq_capacity q)"
    "slot (wq_mask q) w = unat w mod length (wq_cells q)" "wq_cell q w = cell_of (wq_cells q) (unat w)"
    "clean (wq_cells q)" "unat (wq_mask q) + 1 = unat (wq_capacity q)"
proof -
  show c: "is_cap (wq_capacity q)" and l: "length (wq_cells q) = unat (wq_capacity q)"
    "unat (wq_capacity q) \<le> 2 ^ 62" "unat (wq_bottom q) + k < 2 ^ 61" "clean (wq_cells q)"
    and h: "holds (wq_cells q) (unat (wq_top q)) (unat (wq_bottom q))"
    using assms by (simp_all add: wq_ok_def)
  show "unat (wq_top q) \<le> unat (wq_bottom q)" by (rule holdsD(2) [OF h])
  show p: "0 < unat (wq_capacity q)" by (rule is_cap_nonzero [OF c])
  have m: "wq_mask q = wq_capacity q - 1" by (simp add: wq_capacity_def)
  show s: "slot (wq_mask q) w = unat w mod length (wq_cells q)"
    unfolding m l(1) by (rule slot_mod [OF c])
  show "wq_cell q w = cell_of (wq_cells q) (unat w)" by (simp add: wq_cell_def cell_of_def s)
  show "unat (wq_mask q) + 1 = unat (wq_capacity q)" unfolding m using unat_minus_1 [OF p] p by simp
qed

lemma wq_sint:
  assumes "wq_ok k q"
  shows "sint (wq_mask q) + 1 \<le> sint (wq_bottom q) - sint (wq_top q) \<longleftrightarrow>
      unat (wq_capacity q) \<le> unat (wq_bottom q) - unat (wq_top q)"
    "sint (wq_top q) < sint (wq_bottom q) \<longleftrightarrow> unat (wq_top q) < unat (wq_bottom q)"
    "0 < unat (wq_bottom q) \<Longrightarrow> sint (wq_bottom q - 1) < sint (wq_top q) \<longleftrightarrow> unat (wq_bottom q) - 1 < unat (wq_top q)"
    "0 < unat (wq_bottom q) \<Longrightarrow> sint (wq_top q) < sint (wq_bottom q - 1) \<longleftrightarrow> unat (wq_top q) < unat (wq_bottom q) - 1"
proof -
  note d = wq_okD [OF assms]
  have s: "unat (wq_top q) < 2 ^ 63" "unat (wq_bottom q) < 2 ^ 63" "unat (wq_mask q) < 2 ^ 63"
    using d(3,4,6,11) by simp_all
  show "sint (wq_mask q) + 1 \<le> sint (wq_bottom q) - sint (wq_top q) \<longleftrightarrow>
      unat (wq_capacity q) \<le> unat (wq_bottom q) - unat (wq_top q)"
    using sint_eq_unat [OF s(1)] sint_eq_unat [OF s(2)] sint_eq_unat [OF s(3)] d(6,11) by presburger
  show "sint (wq_top q) < sint (wq_bottom q) \<longleftrightarrow> unat (wq_top q) < unat (wq_bottom q)"
    by (rule sint_less_nat [OF s(1,2)])
  assume "0 < unat (wq_bottom q)"
  then have u: "unat (wq_bottom q - 1) = unat (wq_bottom q) - 1" by (rule unat_minus_1)
  then have "unat (wq_bottom q - 1) < 2 ^ 63" using s(2) by linarith
  then show "sint (wq_bottom q - 1) < sint (wq_top q) \<longleftrightarrow> unat (wq_bottom q) - 1 < unat (wq_top q)"
    "sint (wq_top q) < sint (wq_bottom q - 1) \<longleftrightarrow> unat (wq_top q) < unat (wq_bottom q) - 1"
    using s(1) u by (simp_all only: sint_less_nat)
qed

lemma wq_list_length: "length (wq_list q) = unat (wq_bottom q) - unat (wq_top q)"
  by (simp add: wq_list_def)

lemma wq_ok_less: "wq_ok (Suc k) q \<Longrightarrow> wq_ok k q"
  by (simp add: wq_ok_def)

lemma wq_new_ok:
  assumes "wq_new n = Inr q" "unat (wq_capacity q) \<le> 2 ^ 62" "k < 2 ^ 61"
  shows "wq_ok k q" "wq_list q = []" "unat n \<le> unat (wq_capacity q)"
proof -
  obtain c where c: "nextPowerOfTwoChecked n = Inr c"
    and q: "q = \<lparr>wq_top = 0, wq_bottom = 0, wq_mask = c - 1, wq_cells = replicate (unat c) empty_cell\<rparr>"
    using assms(1) by (auto simp: wq_new_def split: sum.splits)
  note cap = checked_is_cap [OF c]
  have "unat c \<le> 2 ^ 62" using assms(2) by (simp add: q wq_capacity_def)
  then show "wq_ok k q" "wq_list q = []" "unat n \<le> unat (wq_capacity q)"
    using cap assms(3) is_cap_nonzero [OF cap(1)] holds_new [of "unat c" 0]
    by (simp_all add: q wq_ok_def wq_list_def wq_capacity_def clean_new)
qed

section \<open>Growing\<close>

text \<open>The loop has moved the positions below \<open>i\<close>; the old cells from \<open>i\<close> on are untouched.\<close>

lemma wq_move_holds:
  assumes "is_cap (of_nat (length old))" "length old = unat (of_nat (length old) :: size_t)" "om = of_nat (length old) - 1"
    and "is_cap (of_nat (length new))" "length new = unat (of_nat (length new) :: size_t)" "nm = of_nat (length new) - 1"
    and "holds new t i" "clean new" "i \<le> b" "b \<le> t + length old" "b \<le> t + length new" "b < 2 ^ 61"
    and "\<And>p. i \<le> p \<Longrightarrow> p < b \<Longrightarrow> sc_data (cell_of old p) \<noteq> None"
  shows "holds (wq_move om nm [i..<b] old new) t b \<and> clean (wq_move om nm [i..<b] old new) \<and>
    length (wq_move om nm [i..<b] old new) = length new \<and>
    held_list (wq_move om nm [i..<b] old new) t b = held_list new t i @ held_list old i b"
  using assms
proof (induction "b - i" arbitrary: i old new)
  case 0
  then show ?case by simp
next
  case (Suc n)
  then have i: "i < b" by linarith
  have u: "unat (of_nat i :: size_t) = i" using i Suc.prems(12) by (simp add: unat_of_nat)
  have iu: "unat (of_nat i + 1 :: size_t) = i + 1"
    using unat_plus_1 [of "of_nat i"] u i Suc.prems(12) by simp
  have old_slot: "slot om (of_nat i) = i mod length old"
    using slot_mod [OF Suc.prems(1)] Suc.prems(2,3) u by metis
  have new_slot: "slot nm (of_nat i) = i mod length new"
    using slot_mod [OF Suc.prems(4)] Suc.prems(5,6) u by metis
  obtain v where v: "sc_data (cell_of old i) = Some v" using Suc.prems(13) [of i] i by auto
  let ?old = "old[i mod length old := (cell_of old i)\<lparr>sc_data := None\<rparr>]"
  let ?new = "new[i mod length new := \<lparr>sc_data = Some v, sc_round = of_nat i + 1\<rparr>]"
  have step: "wq_move om nm [i..<b] old new = wq_move om nm [i + 1..<b] ?old ?new"
    using i v by (simp add: upt_conv_Cons Let_def old_slot new_slot cell_of_def)
  have ne: "old \<noteq> []" using Suc.prems(1,2) is_cap_nonzero by fastforce
  have ti: "t \<le> i" by (rule holdsD(2) [OF Suc.prems(7)])
  have other: "cell_of ?old p = cell_of old p" if "i + 1 \<le> p" "p < b" for p
    by (rule cell_of_other [OF ne, of t]) (use that ti Suc.prems(10) in auto)
  note put = holds_put [OF Suc.prems(7) _ iu, of v]
  have room: "i < t + length new" using i Suc.prems(11) by linarith
  have "clean ?new" by (rule clean_update [OF Suc.prems(8)]) simp
  then have IH: "holds (wq_move om nm [i + 1..<b] ?old ?new) t b \<and> clean (wq_move om nm [i + 1..<b] ?old ?new) \<and>
      length (wq_move om nm [i + 1..<b] ?old ?new) = length ?new \<and>
      held_list (wq_move om nm [i + 1..<b] ?old ?new) t b = held_list ?new t (i + 1) @ held_list ?old (i + 1) b"
    using Suc.hyps(2) i Suc.prems put(1) [OF room] other by (intro Suc.hyps(1)) simp_all
  have "held_list ?old (i + 1) b = held_list old (i + 1) b"
    by (rule held_list_cong) (simp add: other)
  then show ?case
    unfolding step using IH put(2) [OF room] held_list_hd [OF i, of old] v by simp
qed

lemma is_cap_double: "is_cap c \<Longrightarrow> unat c \<le> 2 ^ 62 \<Longrightarrow> is_cap (c * 2) \<and> unat (c * 2) = 2 * unat c"
proof (elim is_capE)
  fix k assume k: "c = 2 ^ k" "unat c = 2 ^ k" "unat c \<le> 2 ^ 62"
  then have "(2::nat) ^ k \<le> 2 ^ 62" by simp
  then have "k \<le> 62" by (rule power_le_imp_le_exp [rotated]) simp
  then have "k + 1 < 64" by simp
  moreover have e: "c * 2 = 2 ^ (k + 1)" using k(1) by simp
  ultimately have "is_cap (2 ^ (k + 1))" "unat (2 ^ (k + 1) :: size_t) = 2 ^ (k + 1)"
    by (simp_all only: is_cap_pow unat_2_power)
  then show ?thesis unfolding e using k(2) by simp
qed

lemma wq_grow_ok:
  assumes ok: "wq_ok k q" and full: "unat (wq_capacity q) \<le> length (wq_list q)"
  shows "wq_ok k (wq_grow q)" "wq_list (wq_grow q) = wq_list q"
    "unat (wq_capacity (wq_grow q)) = 2 * unat (wq_capacity q)" "wq_bottom (wq_grow q) = wq_bottom q"
proof -
  note d = wq_okD [OF ok]
  let ?c = "wq_capacity q" and ?t = "unat (wq_top q)" and ?b = "unat (wq_bottom q)"
  have dbl: "is_cap (?c * 2)" "unat (?c * 2) = 2 * unat ?c" using is_cap_double [OF d(1,3)] by simp_all
  have small: "2 * unat ?c \<le> 2 ^ 62"
    using full wq_list_length [of q] d(4) by simp
  let ?new = "replicate (unat (?c * 2)) empty_cell :: 'a scell list"
  let ?cs = "wq_move (wq_mask q) (?c * 2 - 1) [?t..<?b] (wq_cells q) ?new"
  have g: "wq_grow q = q\<lparr>wq_mask := ?c * 2 - 1, wq_cells := ?cs\<rparr>"
    by (simp add: wq_grow_def wq_capacity_def Let_def)
  have "?b \<le> ?t + length (wq_cells q)" by (rule holdsD(3) [OF d(5)])
  moreover have "sc_data (cell_of (wq_cells q) p) \<noteq> None" if "?t \<le> p" "p < ?b" for p
    by (rule holdsD(4) [OF d(5) that])
  moreover have "holds ?new ?t ?t" by (rule holds_new) (use dbl d(7) in simp)
  moreover have "wq_mask q = of_nat (length (wq_cells q)) - 1" "is_cap (of_nat (length (wq_cells q)))"
    using d(1,2) by (simp_all add: wq_capacity_def)
  ultimately have "holds ?cs ?t ?b \<and> clean ?cs \<and> length ?cs = length ?new \<and>
      held_list ?cs ?t ?b = held_list ?new ?t ?t @ held_list (wq_cells q) ?t ?b"
    using d(2,4,6) dbl by (intro wq_move_holds) (simp_all add: clean_new mult.commute)
  moreover have "wq_capacity (wq_grow q) = ?c * 2" "wq_cells (wq_grow q) = ?cs" "wq_top (wq_grow q) = wq_top q"
      "wq_bottom (wq_grow q) = wq_bottom q"
    unfolding g by (simp_all add: wq_capacity_def)
  ultimately show "wq_ok k (wq_grow q)" "wq_list (wq_grow q) = wq_list q"
      "unat (wq_capacity (wq_grow q)) = 2 * unat (wq_capacity q)" "wq_bottom (wq_grow q) = wq_bottom q"
    using dbl small d(4) by (simp_all add: wq_ok_def wq_list_def)
qed

section \<open>The operations on the contents\<close>

lemma wq_fast_full: "wq_ok k q \<Longrightarrow> unat (wq_capacity q) \<le> length (wq_list q) \<Longrightarrow> wq_tryPushFast n x q = Some (False, q)"
  by (simp add: wq_tryPushFast_def Let_def wq_sint wq_list_length)

lemma wq_fast_room:
  assumes ok: "wq_ok (Suc k) q" and room: "length (wq_list q) < unat (wq_capacity q)"
  shows "\<exists>q'. wq_tryPushFast (Suc n) x q = Some (True, q') \<and> wq_ok k q' \<and> wq_list q' = wq_list q @ [x]"
proof -
  note o = wq_okD [OF ok]
  let ?b = "unat (wq_bottom q)" and ?cs = "wq_cells q"
  let ?c = "\<lparr>sc_data = Some x, sc_round = wq_bottom q + 1\<rparr>"
  have b: "?b < unat (wq_top q) + length ?cs" using room o(2,6) by (simp add: wq_list_length)
  have free: "sc_data (cell_of ?cs ?b) = None" by (rule holdsD(6) [OF o(5) _ b]) simp
  have b1: "unat (wq_bottom q + 1) = ?b + 1" by (rule unat_plus_1) (use o(4) in simp)
  have "wq_tryPushFast (Suc n) x q = Some (True, q\<lparr>wq_cells := ?cs[?b mod length ?cs := ?c], wq_bottom := wq_bottom q + 1\<rparr>)"
    using free b o(2,6,9) by (simp add: wq_tryPushFast_def Let_def wq_sint [OF ok] o(8))
  moreover have "clean (?cs[?b mod length ?cs := ?c])" by (rule clean_update [OF o(10)]) simp
  ultimately show ?thesis
    using holds_put [OF o(5) b b1, of x] o(1-4)
    by (intro exI conjI) (assumption, simp_all add: wq_ok_def wq_list_def wq_capacity_def b1)
qed

text \<open>\<open>push\<close> always succeeds: one growth is enough.\<close>

lemma wq_push_ok:
  assumes ok: "wq_ok (Suc k) q"
  shows "\<exists>q'. wq_push (Suc n) x q = Some (True, q') \<and> wq_ok k q' \<and> wq_list q' = wq_list q @ [x]"
proof (cases "length (wq_list q) < unat (wq_capacity q)")
  case True
  then show ?thesis using wq_fast_room [OF ok True, of n x] by (auto simp: wq_push_def)
next
  case False
  then have full: "unat (wq_capacity q) \<le> length (wq_list q)" by simp
  note g = wq_grow_ok [OF ok full]
  have "length (wq_list q) \<le> unat (wq_capacity q)"
    using holdsD(3) [OF wq_okD(5) [OF ok]] wq_okD(2) [OF ok] by (simp add: wq_list_length)
  then have "length (wq_list (wq_grow q)) < unat (wq_capacity (wq_grow q))"
    using g(2,3) wq_okD(7) [OF ok] by simp
  from wq_fast_room [OF g(1) this, of n x]
  show ?thesis using wq_fast_full [OF ok full, of "Suc n" x] g(2) by (auto simp: wq_push_def)
qed

lemma wq_take_cells:
  assumes ok: "wq_ok k q" and p: "unat (wq_top q) \<le> unat p" "unat p < unat (wq_bottom q)" and r: "unat (p + 1) = unat p + 1"
  shows "wq_take p (q\<lparr>wq_top := t\<rparr>) =
    q\<lparr>wq_top := t, wq_cells := (wq_cells q)[unat p mod length (wq_cells q) := empty_cell]\<rparr>"
proof -
  note o = wq_okD [OF ok]
  have "sc_round (cell_of (wq_cells q) (unat p)) = p + 1"
    using holdsD(5) [OF o(5) p] r by (simp add: word_unat_eq_iff)
  then have "clear_round (p + 1) ((cell_of (wq_cells q) (unat p))\<lparr>sc_data := None\<rparr>) = empty_cell"
    by (cases "cell_of (wq_cells q) (unat p)") (simp add: clear_round_def empty_cell_def)
  moreover have "wq_cell (q\<lparr>wq_top := t\<rparr>) p = cell_of (wq_cells q) (unat p)"
    using o(9) [of p] by (simp add: wq_cell_def)
  ultimately show ?thesis using o(8) [of p] by (simp add: wq_take_def)
qed

lemma wq_pop_empty:
  assumes ok: "wq_ok k q" and "wq_list q = []"
  shows "wq_pop q = (None, q)"
proof (cases "wq_bottom q = 0")
  case True
  then show ?thesis by (simp add: wq_pop_def Let_def)
next
  case False
  then have b: "0 < unat (wq_bottom q)" by (simp add: unat_gt_0)
  have "unat (wq_bottom q) = unat (wq_top q)"
    using assms(2) wq_list_length [of q] wq_okD(6) [OF ok] by simp
  then have "sint (wq_bottom q - 1) < sint (wq_top q)" using wq_sint(3) [OF ok b] b by simp
  then show ?thesis using False by (simp add: wq_pop_def Let_def)
qed

lemma wq_pop_some:
  assumes ok: "wq_ok (Suc k) q" and ne: "wq_list q \<noteq> []"
  shows "\<exists>q'. wq_pop q = (Some (last (wq_list q)), q') \<and> wq_ok k q' \<and> wq_list q' = butlast (wq_list q)"
proof -
  note o = wq_okD [OF ok]
  let ?b = "unat (wq_bottom q)" and ?t = "unat (wq_top q)" and ?cs = "wq_cells q" and ?w = "wq_bottom q - 1"
  have lt: "?t < ?b" using ne o(6) by (metis wq_list_length length_greater_0_conv zero_less_diff)
  then have nz: "wq_bottom q \<noteq> 0" "0 < ?b" by auto
  have w: "unat ?w = ?b - 1" by (rule unat_minus_1 [OF nz(2)])
  have w1: "unat (?w + 1) = unat ?w + 1" using w nz by simp
  obtain v where v: "sc_data (cell_of ?cs (unat ?w)) = Some v"
    using holdsD(4) [OF o(5), of "?b - 1"] lt w by fastforce
  note bot = holds_take_bottom [OF o(5) lt, of empty_cell]
  have last: "last (wq_list q) = v" using bot(3) v w by (simp add: wq_list_def empty_cell_def)
  have take: "wq_take ?w (q\<lparr>wq_top := t\<rparr>) = q\<lparr>wq_top := t, wq_cells := ?cs[(?b - 1) mod length ?cs := empty_cell]\<rparr>" for t
    using wq_take_cells [OF ok _ _ w1, of t] lt w by simp
  have cl: "clean (?cs[(?b - 1) mod length ?cs := empty_cell])"
    by (rule clean_update [OF o(10)]) (simp add: empty_cell_def)
  show ?thesis
  proof (cases "?t < ?b - 1")
    case True
    then have "wq_pop q = (Some v, q\<lparr>wq_cells := ?cs[(?b - 1) mod length ?cs := empty_cell], wq_bottom := ?w\<rparr>)"
      using nz v take [of "wq_top q"] o(9) [of ?w] by (simp add: wq_pop_def Let_def wq_sint [OF ok] w)
    then show ?thesis
      unfolding last using bot(1,2) o(1-4) cl
      by (intro exI conjI) (assumption, simp_all add: wq_ok_def wq_list_def wq_capacity_def w empty_cell_def)
  next
    case False
    then have e: "?t = ?b - 1" using lt by linarith
    then have tw: "wq_top q = ?w" using w by (metis word_unat_eq_iff)
    have "wq_pop q = (Some v, q\<lparr>wq_top := wq_bottom q, wq_cells := ?cs[(?b - 1) mod length ?cs := empty_cell]\<rparr>)"
      using nz e v take [of "wq_top q + 1"] o(9) [of ?w] by (simp add: wq_pop_def Let_def wq_cell_def tw)
    moreover have "holds (?cs[(?b - 1) mod length ?cs := empty_cell]) ?b ?b"
      using holds_take_top(1) [OF o(5) lt, of empty_cell] e lt by (simp add: empty_cell_def)
    moreover have "butlast (wq_list q) = []" using wq_list_length [of q] e by (simp add: butlast_conv_take)
    ultimately show ?thesis
      unfolding last using o(1-4) cl
      by (intro exI conjI) (assumption, simp_all add: wq_ok_def wq_list_def wq_capacity_def)
  qed
qed

text \<open>A thief sees an empty queue in the round of the cell at \<open>top\<close>.\<close>

lemma wq_round_empty:
  assumes ok: "wq_ok k q"
  shows "sc_round (wq_cell q (wq_top q)) = wq_top q + 1 \<longleftrightarrow> wq_list q \<noteq> []"
proof -
  note o = wq_okD [OF ok]
  have t1: "unat (wq_top q + 1) = unat (wq_top q) + 1" by (rule unat_plus_1) (use o(4,6) in simp)
  show ?thesis
  proof (cases "unat (wq_top q) < unat (wq_bottom q)")
    case True
    then show ?thesis
      using holdsD(5) [OF o(5), of "unat (wq_top q)"] t1 o(9) [of "wq_top q"] wq_list_length [of q]
      by (auto simp: word_unat_eq_iff)
  next
    case False
    then have e: "unat (wq_bottom q) = unat (wq_top q)" using o(6) by simp
    have "sc_data (cell_of (wq_cells q) (unat (wq_top q))) = None"
      using holdsD(6) [OF o(5), of "unat (wq_top q)"] e o(2,7) by simp
    then have "sc_round (wq_cell q (wq_top q)) = 0"
      using clean_cell [OF o(10) holdsD(1) [OF o(5)]] o(9) by simp
    moreover have "wq_top q + 1 \<noteq> 0" using t1 by auto
    ultimately show ?thesis using wq_list_length [of q] e by simp
  qed
qed

lemma wq_steal_empty: "wq_ok k q \<Longrightarrow> wq_list q = [] \<Longrightarrow> wq_steal q = (None, q)"
  using wq_round_empty [of k q] by (simp add: wq_steal_def Let_def)

lemma wq_steal_some:
  assumes ok: "wq_ok (Suc k) q" and ne: "wq_list q \<noteq> []"
  shows "\<exists>q'. wq_steal q = (Some (hd (wq_list q)), q') \<and> wq_ok k q' \<and> wq_list q' = tl (wq_list q)"
proof -
  note o = wq_okD [OF ok]
  let ?b = "unat (wq_bottom q)" and ?t = "unat (wq_top q)" and ?cs = "wq_cells q"
  have lt: "?t < ?b" using ne o(6) by (metis wq_list_length length_greater_0_conv zero_less_diff)
  have t1: "unat (wq_top q + 1) = ?t + 1" by (rule unat_plus_1) (use lt o(4) in simp)
  obtain v where v: "sc_data (cell_of ?cs ?t) = Some v" using holdsD(4) [OF o(5), of ?t] lt by auto
  note top = holds_take_top [OF o(5) lt, of empty_cell]
  have hd: "hd (wq_list q) = v" using top(3) v by (simp add: wq_list_def empty_cell_def)
  have "wq_steal q = (Some v, q\<lparr>wq_top := wq_top q + 1, wq_cells := ?cs[?t mod length ?cs := empty_cell]\<rparr>)"
    using wq_round_empty [OF ok] ne v o(9) [of "wq_top q"] wq_take_cells [OF ok _ lt t1, of "wq_top q + 1"]
    by (simp add: wq_steal_def Let_def wq_cell_def)
  moreover have "clean (?cs[?t mod length ?cs := empty_cell])"
    by (rule clean_update [OF o(10)]) (simp add: empty_cell_def)
  ultimately show ?thesis
    unfolding hd using top(1,2) o(1-4) t1
    by (intro exI conjI) (assumption, simp_all add: wq_ok_def wq_list_def wq_capacity_def empty_cell_def)
qed

lemma wq_stealBatch_ok:
  "wq_ok (n + k) q \<Longrightarrow> \<exists>q'. wq_stealBatch n q = (take n (wq_list q), q') \<and> wq_ok k q' \<and> wq_list q' = drop n (wq_list q)"
proof (induction n arbitrary: q)
  case 0
  then show ?case by simp
next
  case (Suc n)
  show ?case
  proof (cases "wq_list q = []")
    case True
    have "wq_ok k q" using Suc.prems by (simp add: wq_ok_def)
    then show ?thesis using wq_steal_empty [OF _ True] by (simp add: True)
  next
    case False
    obtain q' where q': "wq_steal q = (Some (hd (wq_list q)), q')" "wq_ok (n + k) q'" "wq_list q' = tl (wq_list q)"
      using wq_steal_some [OF _ False, of "n + k"] Suc.prems by auto
    obtain q'' where "wq_stealBatch n q' = (take n (wq_list q'), q'')" "wq_ok k q''" "wq_list q'' = drop n (wq_list q')"
      using Suc.IH [OF q'(2)] by blast
    then show ?thesis using q'(1,3) False by (cases "wq_list q") auto
  qed
qed

section \<open>The deque contract\<close>

fun wq_apply :: "'a dop \<Rightarrow> 'a wsq \<Rightarrow> ('a dres \<times> 'a wsq) option" where
  "wq_apply (Push x) q = map_option (map_prod Pushed id) (wq_push 1 x q)"
| "wq_apply Pop q = Some (map_prod Taken id (wq_pop q))"
| "wq_apply Steal q = Some (map_prod Taken id (wq_steal q))"

definition wq_abs :: "'a wsq \<Rightarrow> nat option \<times> 'a list" where
  "wq_abs q = (None, wq_list q)"

lemma wq_simulation:
  assumes ok: "wq_ok (Suc k) q"
  shows "\<exists>q'. wq_apply x q = Some (fst (deque_step x (wq_abs q)), q') \<and>
    wq_abs q' = snd (deque_step x (wq_abs q)) \<and> wq_ok k q'"
proof (cases x)
  case (Push a)
  then show ?thesis using wq_push_ok [OF ok, of 0 a] by (auto simp: wq_abs_def)
next
  case Pop
  then show ?thesis
    using wq_pop_empty [OF ok] wq_pop_some [OF ok] wq_ok_less [OF ok]
    by (cases "wq_list q = []") (auto simp: wq_abs_def)
next
  case Steal
  then show ?thesis
    using wq_steal_empty [OF ok] wq_steal_some [OF ok] wq_ok_less [OF ok]
    by (cases "wq_list q = []") (auto simp: wq_abs_def)
qed

interpretation wq: stealing_deque wq_apply wq_abs wq_ok
  by unfold_locales (rule wq_simulation)

section \<open>Properties\<close>

text \<open>C19: used by one thread at a time, a new \<open>WorkStealingQueue\<close> answers every sequence of owner \<open>push\<close>
  and \<open>pop\<close> and of \<open>steal\<close> as an unbounded deque: a push is never rejected, growing included; and
  the elements pushed are those handed out plus those the destructor deletes.\<close>

theorem wsq_is_stealing_deque:
  assumes "wq_new n = Inr q" and "unat (wq_capacity q) \<le> 2 ^ 62" and "length ops < 2 ^ 61"
  shows "\<exists>rs q'. run_ops wq_apply ops q = Some (rs, q') \<and>
    rs = fst (run_spec deque_step ops (None, [])) \<and> pushed_in ops rs = taken_out rs + wq_destroy q'"
proof -
  note new = wq_new_ok [OF assms]
  obtain q' where q': "run_ops wq_apply ops q = Some (fst (run_spec deque_step ops (wq_abs q)), q')" "wq_ok 0 q'"
    using wq.run_simulation [of ops 0 q] new(1) by auto
  have "wq_destroy q' = mset (wq_list q')"
    using cell_bag_held [OF wq_okD(5) [OF q'(2)]] by (simp add: wq_destroy_def wq_list_def)
  then show ?thesis
    using wq.deque_conserves [OF new(1) q'(1)] q'(1) new(2) by (simp add: wq_abs_def)
qed

text \<open>After every run of a new queue, with the contents \<open>xs\<close> the specification gives, \<open>stealBatch\<close> takes the first elements, as many as asked
  for or present, and leaves the others; \<open>size\<close> and both \<open>empty\<close> tell the number of elements.\<close>

theorem wsq_batch_and_observers:
  assumes "wq_new n = Inr q" and "unat (wq_capacity q) \<le> 2 ^ 62" and "length ops + m < 2 ^ 61"
    and "run_ops wq_apply ops q = Some (rs, q')"
  defines "xs \<equiv> snd (snd (run_spec deque_step ops (None, [])))"
  shows "mset xs = wq_destroy q' \<and>
    fst (wq_stealBatch m q') = take m xs \<and> wq_destroy (snd (wq_stealBatch m q')) = mset (drop m xs) \<and>
    unat (wq_size q') = length xs \<and> (wq_worker_empty q' \<longleftrightarrow> xs = []) \<and> (wq_stealer_empty q' \<longleftrightarrow> xs = [])"
proof -
  have new: "wq_ok (length ops + 0) q" "wq_list q = []" using wq_new_ok(1,2) [OF assms(1,2)] assms(3) by simp_all
  then have xs: "wq_list q' = xs"
    using wq.run_simulation [OF new(1)] assms(4) by (auto simp: wq_abs_def xs_def) (metis snd_conv)
  have ok: "wq_ok m q'"
    using wq.run_ok [OF _ assms(4), of m] wq_new_ok(1) [OF assms(1-3)] by simp
  have bag: "wq_destroy r = mset (wq_list r)" if "wq_ok k r" for k r
    using cell_bag_held [OF wq_okD(5) [OF that]] by (simp add: wq_destroy_def wq_list_def)
  obtain q'' where q'': "wq_stealBatch m q' = (take m (wq_list q'), q'')" "wq_ok 0 q''" "wq_list q'' = drop m (wq_list q')"
    using wq_stealBatch_ok [of m 0 q'] ok by auto
  have size: "unat (wq_size q') = length (wq_list q')"
    using wq_sint(2) [OF ok] wq_okD(6) [OF ok] by (simp add: wq_size_def wq_list_length unat_sub word_le_nat_alt)
  then have "wq_worker_empty q' \<longleftrightarrow> wq_list q' = []"
    by (metis length_0_conv unat_eq_zero wq_worker_empty_def)
  then show ?thesis
    using bag [OF ok] bag [OF q''(2)] q'' size wq_round_empty [OF ok]
    by (simp add: wq_stealer_empty_def xs)
qed

text \<open>Growing a full queue doubles the capacity, moves every element to the cell of its position in
  the new array, and leaves the old cells empty of elements; contents and order are unchanged.\<close>

theorem wsq_grow_keeps:
  assumes "wq_new n = Inr q" and "unat (wq_capacity q) \<le> 2 ^ 62" and "length ops < 2 ^ 61"
    and "run_ops wq_apply ops q = Some (rs, q')" and "unat (wq_size q') = unat (wq_capacity q')"
  shows "unat (wq_capacity (wq_grow q')) = 2 * unat (wq_capacity q') \<and>
    wq_destroy (wq_grow q') = wq_destroy q' \<and>
    (\<forall>p. unat (wq_top q') \<le> p \<and> p < unat (wq_bottom q') \<longrightarrow>
       sc_data (wq_cell (wq_grow q') (of_nat p)) = sc_data (wq_cell q' (of_nat p)) \<and>
       sc_round (wq_cell (wq_grow q') (of_nat p)) = of_nat p + 1)"
proof -
  have ok: "wq_ok 0 q'"
    using wq.run_ok [OF _ assms(4), of 0] wq_new_ok(1) [OF assms(1-3)] by simp
  have len: "unat (wq_size q') = length (wq_list q')"
    using wq_sint(2) [OF ok] wq_okD(6) [OF ok] by (simp add: wq_size_def wq_list_length unat_sub word_le_nat_alt)
  note g = wq_grow_ok [OF ok, unfolded len [symmetric], OF eq_imp_le [OF assms(5) [symmetric]]]
  note o = wq_okD [OF ok] and o' = wq_okD [OF g(1)]
  have bag: "wq_destroy r = mset (wq_list r)" if "wq_ok k r" for k r
    using cell_bag_held [OF wq_okD(5) [OF that]] by (simp add: wq_destroy_def wq_list_def)
  have top: "wq_top (wq_grow q') = wq_top q'" by (simp add: wq_grow_def Let_def)
  have "sc_data (wq_cell (wq_grow q') (of_nat p)) = sc_data (wq_cell q' (of_nat p)) \<and>
      sc_round (wq_cell (wq_grow q') (of_nat p)) = of_nat p + 1"
    if p: "unat (wq_top q') \<le> p" "p < unat (wq_bottom q')" for p
  proof -
    have u: "unat (of_nat p :: size_t) = p" using p o(4) by (simp add: unat_of_nat)
    have u1: "unat (of_nat p + 1 :: size_t) = p + 1" using unat_plus_1 [of "of_nat p"] u p o(4) by simp
    have i: "p - unat (wq_top q') < unat (wq_bottom q') - unat (wq_top q')" using p by linarith
    have elem: "the (sc_data (cell_of (wq_cells r) p)) = wq_list r ! (p - unat (wq_top q'))"
      if "wq_top r = wq_top q'" "wq_bottom r = wq_bottom q'" for r
      using i p that by (simp add: wq_list_def held_list_def)
    have "the (sc_data (cell_of (wq_cells (wq_grow q')) p)) = the (sc_data (cell_of (wq_cells q') p))"
      using elem [OF top g(4)] elem [OF refl refl] g(2) by simp
    moreover have "sc_data (cell_of (wq_cells (wq_grow q')) p) \<noteq> None" "sc_data (cell_of (wq_cells q') p) \<noteq> None"
      using holdsD(4) [OF o(5), of p] holdsD(4) [OF o'(5), of p] p g(4) top by simp_all
    moreover have "unat (sc_round (cell_of (wq_cells (wq_grow q')) p)) = p + 1"
      using holdsD(5) [OF o'(5), of p] p g(4) top by simp
    ultimately show ?thesis
      using o(9) [of "of_nat p"] o'(9) [of "of_nat p"] u u1 by (auto simp: word_unat_eq_iff)
  qed
  then show ?thesis using g(2,3) bag [OF ok] bag [OF g(1)] by simp
qed

text \<open>The witnesses: a queue of capacity 1 that grows.\<close>

lemma wq_new_1: "\<exists>q :: nat wsq. wq_new 1 = Inr q \<and> unat (wq_capacity q) \<le> 2 ^ 62 \<and>
   (\<exists>rs q'. run_ops wq_apply [Push 7] q = Some (rs, q') \<and> unat (wq_size q') = unat (wq_capacity q') \<and>
      wq_capacity q' = 1 \<and> wq_destroy q' = {#7#})"
proof -
  have "nextPowerOfTwoChecked 1 = Inr 1" by code_simp
  then show ?thesis
    by (simp add: wq_new_def wq_capacity_def empty_cell_def wq_push_def wq_tryPushFast_def wq_cell_def slot_def
        wq_size_def wq_destroy_def cell_bag_def)
qed

theorem wsq_is_stealing_deque_witness:
  "\<exists>q :: nat wsq. wq_new 1 = Inr q \<and>
     map_option fst (run_ops wq_apply [Push 1, Push 2, Push 3, Steal, Pop, Pop, Pop] q) =
       Some [Pushed True, Pushed True, Pushed True, Taken (Some 1), Taken (Some 3), Taken (Some 2), Taken None]"
proof -
  obtain q :: "nat wsq" where q: "wq_new 1 = Inr q" "unat (wq_capacity q) \<le> 2 ^ 62" using wq_new_1 by blast
  let ?ops = "[Push 1, Push 2, Push 3, Steal, Pop, Pop, Pop] :: nat dop list"
  have "length ?ops < 2 ^ 61" by simp
  from wsq_is_stealing_deque [OF q this]
  obtain rs q' where r: "run_ops wq_apply ?ops q = Some (rs, q')"
      "rs = fst (run_spec deque_step ?ops (None, []))" by blast
  have "rs = [Pushed True, Pushed True, Pushed True, Taken (Some 1), Taken (Some 3), Taken (Some 2), Taken None]"
    unfolding r(2) by simp
  with r(1) have "map_option fst (run_ops wq_apply ?ops q) =
      Some [Pushed True, Pushed True, Pushed True, Taken (Some 1), Taken (Some 3), Taken (Some 2), Taken None]"
    by (simp only: option.map fst_conv)
  then show ?thesis by (intro exI conjI) (rule q(1))
qed

theorem wsq_batch_and_observers_witness:
  "\<exists>q rs q'. wq_new 1 = Inr (q :: nat wsq) \<and> run_ops wq_apply [Push 7] q = Some (rs, q') \<and>
     fst (wq_stealBatch 2 q') = [7]"
proof -
  obtain q :: "nat wsq" and rs q' where q: "wq_new 1 = Inr q" "unat (wq_capacity q) \<le> 2 ^ 62"
      "run_ops wq_apply [Push 7] q = Some (rs, q')" "wq_destroy q' = {#7#}"
    using wq_new_1 by blast
  have "length [Push (7::nat)] + 2 < 2 ^ 61" by simp
  from wsq_batch_and_observers [OF q(1,2) this q(3)]
  have "fst (wq_stealBatch 2 q') = [7]" by simp
  then show ?thesis using q by blast
qed

theorem wsq_grow_keeps_witness:
  "\<exists>q rs q'. wq_new 1 = Inr (q :: nat wsq) \<and> run_ops wq_apply [Push 7] q = Some (rs, q') \<and>
     unat (wq_capacity (wq_grow q')) = 2 \<and> wq_destroy (wq_grow q') = {#7#}"
proof -
  obtain q :: "nat wsq" and rs q' where q: "wq_new 1 = Inr q" "unat (wq_capacity q) \<le> 2 ^ 62"
      "run_ops wq_apply [Push 7] q = Some (rs, q')" "unat (wq_size q') = unat (wq_capacity q')"
      "wq_capacity q' = 1" "wq_destroy q' = {#7#}"
    using wq_new_1 by blast
  have "length [Push (7::nat)] < 2 ^ 61" by simp
  from wsq_grow_keeps [OF q(1,2) this q(3,4)]
  have "unat (wq_capacity (wq_grow q')) = 2" "wq_destroy (wq_grow q') = {#7#}" using q(5,6) by simp_all
  then show ?thesis using q by blast
qed

end
