(* ===== verification/WSQ_Concurrent.thy ===== *)
theory WSQ_Concurrent
  imports WS_Queue Light_Epoch
begin

text \<open>
  \<open>include/WorkStealingQueue.h\<close> with the owner and any number of thieves running at once: the queue's
  accesses to shared memory, one per step, composed with the steps of \<open>LightEpoch\<close>. A thief runs
  \<open>stealLocked\<close> (any number of times, as \<open>stealBatch\<close> does) or \<open>empty\<close> only while it is inside the epoch,
  and does not leave in the middle; the owner replaces the array only inside its \<open>QuiesceWindow\<close>.

  Arrays live in a heap, so that freeing one and using it afterwards are visible. \<open>int64_t\<close> positions are
  integers, as signed overflow is undefined in C++. The queue's own accesses are sequentially
  consistent; the epoch's go through the owner's store buffer.
\<close>

section \<open>State\<close>

record 'a warr =
  wa_mask :: size_t
  wa_cells :: "'a scell list"

definition wa_new :: "size_t \<Rightarrow> 'a warr" where
  "wa_new cap = \<lparr>wa_mask = cap - 1, wa_cells = replicate (unat cap) empty_cell\<rparr>"

text \<open>\<open>a->cells[static_cast<uint64_t>(i) & a->mask]\<close>\<close>

definition wa_slot :: "'a warr \<Rightarrow> int \<Rightarrow> nat" where
  "wa_slot a i = slot (wa_mask a) (word_of_int i)"

definition wa_cell :: "'a warr \<Rightarrow> int \<Rightarrow> 'a scell" where
  "wa_cell a i = wa_cells a ! wa_slot a i"

definition wa_put :: "int \<Rightarrow> 'a scell \<Rightarrow> 'a warr \<Rightarrow> 'a warr" where
  "wa_put i c a = a\<lparr>wa_cells := (wa_cells a)[wa_slot a i := c]\<rparr>"

text \<open>More cells than this make \<open>std::vector<Cell>\<close> throw \<open>std::length_error\<close> (a cell has 16 bytes).\<close>

definition max_cells :: nat where
  "max_cells = 2 ^ 59 - 1"

datatype 'a wo_pc =
    P_idle
  | P_top 'a | P_wait 'a | P_data 'a | P_round 'a           \<comment> \<open>\<open>tryPushFast\<close>\<close>
  | G_alloc 'a | G_enter 'a nat                             \<comment> \<open>\<open>grow\<close>; the new array\<close>
  | G_move 'a nat int int | G_publish 'a nat | G_free 'a nat | G_exit 'a
  | D_top | D_take | D_clear 'a | D_cas int | D_last int | D_last_clear int 'a   \<comment> \<open>\<open>pop\<close>\<close>

datatype 'a wt_pc =
    V_out
  | V_array int | V_round int nat | V_cas int nat | V_take int nat | V_clear int nat 'a

text \<open>\<open>wc_pushed\<close> and \<open>wc_taken\<close> record the elements stored and those handed out, \<open>wc_dropped\<close> the elements that
  were in an array when it was deleted; no step reads them.\<close>

record 'a wsq_sys =
  wc_top :: int
  wc_bottom :: int
  wc_heap :: "nat \<Rightarrow> 'a warr option"
  wc_array :: nat
  wc_current :: nat
  wc_next :: nat
  wc_epoch :: epoch
  wc_pushed :: "'a multiset"
  wc_taken :: "'a multiset"
  wc_dropped :: "'a multiset"
  wc_owner :: "'a wo_pc"
  wc_thief :: "nat \<Rightarrow> 'a wt_pc"

definition wc_init :: "size_t \<Rightarrow> 'a wsq_sys \<Rightarrow> bool" where
  "wc_init capacity s \<longleftrightarrow>
     (\<exists>c e. nextPowerOfTwoChecked capacity = Inr c \<and> unat c \<le> max_cells \<and> ep_init e \<and>
       s = \<lparr>wc_top = 0, wc_bottom = 0, wc_heap = [0 \<mapsto> wa_new c], wc_array = 0, wc_current = 0, wc_next = 1,
            wc_epoch = e, wc_pushed = {#}, wc_taken = {#}, wc_dropped = {#}, wc_owner = P_idle,
            wc_thief = (\<lambda>_. V_out)\<rparr>)"

abbreviation wc_at :: "'a wsq_sys \<Rightarrow> nat \<Rightarrow> 'a warr \<Rightarrow> bool" where
  "wc_at s k a \<equiv> wc_heap s k = Some a"

abbreviation wc_store :: "nat \<Rightarrow> 'a warr \<Rightarrow> 'a wsq_sys \<Rightarrow> 'a wsq_sys" where
  "wc_store k a s \<equiv> s\<lparr>wc_heap := (wc_heap s)(k \<mapsto> a)\<rparr>"

section \<open>The owner\<close>

inductive wo_push :: "'a wsq_sys \<Rightarrow> 'a wsq_sys \<Rightarrow> bool" where
  p_call: "wc_owner s = P_idle \<Longrightarrow> wo_push s (s\<lparr>wc_owner := P_top x\<rparr>)"
| p_full: "wc_owner s = P_top x \<Longrightarrow> wc_at s (wc_current s) a \<Longrightarrow>
    sint (wa_mask a) + 1 \<le> wc_bottom s - wc_top s \<Longrightarrow> wo_push s (s\<lparr>wc_owner := G_alloc x\<rparr>)"
| p_room: "wc_owner s = P_top x \<Longrightarrow> wc_at s (wc_current s) a \<Longrightarrow>
    \<not> sint (wa_mask a) + 1 \<le> wc_bottom s - wc_top s \<Longrightarrow> wo_push s (s\<lparr>wc_owner := P_wait x\<rparr>)"
| p_wait: "wc_owner s = P_wait x \<Longrightarrow> wc_at s (wc_current s) a \<Longrightarrow> sc_data (wa_cell a (wc_bottom s)) \<noteq> None \<Longrightarrow>
    wo_push s s"
| p_free: "wc_owner s = P_wait x \<Longrightarrow> wc_at s (wc_current s) a \<Longrightarrow> sc_data (wa_cell a (wc_bottom s)) = None \<Longrightarrow>
    wo_push s (s\<lparr>wc_owner := P_data x\<rparr>)"
| p_data: "wc_owner s = P_data x \<Longrightarrow> wc_at s (wc_current s) a \<Longrightarrow>
    wo_push s (wc_store (wc_current s) (wa_put (wc_bottom s) ((wa_cell a (wc_bottom s))\<lparr>sc_data := Some x\<rparr>) a)
      (s\<lparr>wc_pushed := add_mset x (wc_pushed s), wc_owner := P_round x\<rparr>))"
| p_round: "wc_owner s = P_round x \<Longrightarrow> wc_at s (wc_current s) a \<Longrightarrow>
    wo_push s (wc_store (wc_current s)
        (wa_put (wc_bottom s) ((wa_cell a (wc_bottom s))\<lparr>sc_round := word_of_int (wc_bottom s) + 1\<rparr>) a)
      (s\<lparr>wc_bottom := wc_bottom s + 1, wc_owner := P_idle\<rparr>))"

inductive wo_grow :: "'a wsq_sys \<Rightarrow> 'a wsq_sys \<Rightarrow> bool" where
  g_alloc: "wc_owner s = G_alloc x \<Longrightarrow> wc_at s (wc_current s) a \<Longrightarrow> new_cap = (wa_mask a + 1) * 2 \<Longrightarrow>
    2 * unat (wa_mask a + 1) \<le> max_cells \<Longrightarrow>
    wo_grow s (wc_store (wc_next s) (wa_new new_cap)
      (s\<lparr>wc_next := wc_next s + 1, wc_owner := G_enter x (wc_next s)\<rparr>))"
| g_throw: "wc_owner s = G_alloc x \<Longrightarrow> wc_at s (wc_current s) a \<Longrightarrow>
    \<not> 2 * unat (wa_mask a + 1) \<le> max_cells \<Longrightarrow> wo_grow s (s\<lparr>wc_owner := P_idle\<rparr>)"
| g_window: "wc_owner s = G_enter x k \<Longrightarrow> ep_owner (wc_epoch s) \<noteq> O_window \<Longrightarrow>
    ep_owner_step True (wc_epoch s) e \<Longrightarrow> wo_grow s (s\<lparr>wc_epoch := e\<rparr>)"
| g_top: "wc_owner s = G_enter x k \<Longrightarrow> ep_owner (wc_epoch s) = O_window \<Longrightarrow>
    wo_grow s (s\<lparr>wc_owner := G_move x k (wc_top s) (wc_bottom s)\<rparr>)"
| g_skip: "wc_owner s = G_move x k i b \<Longrightarrow> i < b \<Longrightarrow> wc_at s (wc_current s) a \<Longrightarrow>
    sc_data (wa_cell a i) = None \<Longrightarrow> wo_grow s (s\<lparr>wc_owner := G_move x k (i + 1) b\<rparr>)"
| g_move: "wc_owner s = G_move x k i b \<Longrightarrow> i < b \<Longrightarrow> wc_at s (wc_current s) a \<Longrightarrow>
    sc_data (wa_cell a i) = Some v \<Longrightarrow> wc_at s k a' \<Longrightarrow>
    wo_grow s (wc_store k (wa_put i \<lparr>sc_data = Some v, sc_round = word_of_int i + 1\<rparr> a')
      (wc_store (wc_current s) (wa_put i ((wa_cell a i)\<lparr>sc_data := None\<rparr>) a)
        (s\<lparr>wc_owner := G_move x k (i + 1) b\<rparr>)))"
| g_moved: "wc_owner s = G_move x k i b \<Longrightarrow> \<not> i < b \<Longrightarrow> wo_grow s (s\<lparr>wc_owner := G_publish x k\<rparr>)"
| g_publish: "wc_owner s = G_publish x k \<Longrightarrow>
    wo_grow s (s\<lparr>wc_array := k, wc_current := k, wc_owner := G_free x (wc_current s)\<rparr>)"
| g_free: "wc_owner s = G_free x k \<Longrightarrow> wc_at s k a \<Longrightarrow>
    wo_grow s (s\<lparr>wc_heap := (wc_heap s)(k := None), wc_dropped := wc_dropped s + cell_bag (wa_cells a),
      wc_owner := G_exit x\<rparr>)"
| g_exit: "wc_owner s = G_exit x \<Longrightarrow> ep_owner (wc_epoch s) = O_window \<Longrightarrow> ep_owner_step True (wc_epoch s) e \<Longrightarrow>
    wo_grow s (s\<lparr>wc_epoch := e, wc_owner := P_top x\<rparr>)"

inductive wo_pop :: "'a wsq_sys \<Rightarrow> 'a wsq_sys \<Rightarrow> bool" where
  d_call_0: "wc_owner s = P_idle \<Longrightarrow> wc_bottom s = 0 \<Longrightarrow> wo_pop s s"
| d_call: "wc_owner s = P_idle \<Longrightarrow> wc_bottom s \<noteq> 0 \<Longrightarrow> wo_pop s (s\<lparr>wc_owner := D_top\<rparr>)"
| d_normal: "wc_owner s = D_top \<Longrightarrow> wc_top s < wc_bottom s - 1 \<Longrightarrow> wo_pop s (s\<lparr>wc_owner := D_take\<rparr>)"
| d_stolen: "wc_owner s = D_top \<Longrightarrow> wc_bottom s - 1 < wc_top s \<Longrightarrow> wo_pop s (s\<lparr>wc_owner := P_idle\<rparr>)"
| d_one: "wc_owner s = D_top \<Longrightarrow> wc_bottom s - 1 = wc_top s \<Longrightarrow> wo_pop s (s\<lparr>wc_owner := D_cas (wc_top s)\<rparr>)"
| d_take_none: "wc_owner s = D_take \<Longrightarrow> wc_at s (wc_current s) a \<Longrightarrow> sc_data (wa_cell a (wc_bottom s - 1)) = None \<Longrightarrow>
    wo_pop s (s\<lparr>wc_owner := P_idle\<rparr>)"
| d_take: "wc_owner s = D_take \<Longrightarrow> wc_at s (wc_current s) a \<Longrightarrow> sc_data (wa_cell a (wc_bottom s - 1)) = Some v \<Longrightarrow>
    wo_pop s (wc_store (wc_current s) (wa_put (wc_bottom s - 1) ((wa_cell a (wc_bottom s - 1))\<lparr>sc_data := None\<rparr>) a)
      (s\<lparr>wc_taken := add_mset v (wc_taken s), wc_owner := D_clear v\<rparr>))"
| d_clear: "wc_owner s = D_clear v \<Longrightarrow> wc_at s (wc_current s) a \<Longrightarrow>
    wo_pop s (wc_store (wc_current s)
        (wa_put (wc_bottom s - 1) (clear_round (word_of_int (wc_bottom s)) (wa_cell a (wc_bottom s - 1))) a)
      (s\<lparr>wc_bottom := wc_bottom s - 1, wc_owner := P_idle\<rparr>))"
| d_clear_fails: "wc_owner s = D_clear v \<Longrightarrow> wo_pop s (s\<lparr>wc_bottom := wc_bottom s - 1, wc_owner := P_idle\<rparr>)"
| d_cas: "wc_owner s = D_cas t \<Longrightarrow> wc_top s = t \<Longrightarrow> wo_pop s (s\<lparr>wc_top := t + 1, wc_owner := D_last t\<rparr>)"
| d_cas_fails: "wc_owner s = D_cas t \<Longrightarrow> wo_pop s (s\<lparr>wc_owner := P_idle\<rparr>)"
| d_last_none: "wc_owner s = D_last t \<Longrightarrow> wc_at s (wc_current s) a \<Longrightarrow> sc_data (wa_cell a t) = None \<Longrightarrow>
    wo_pop s (s\<lparr>wc_bottom := t + 1, wc_owner := P_idle\<rparr>)"
| d_last: "wc_owner s = D_last t \<Longrightarrow> wc_at s (wc_current s) a \<Longrightarrow> sc_data (wa_cell a t) = Some v \<Longrightarrow>
    wo_pop s (wc_store (wc_current s) (wa_put t ((wa_cell a t)\<lparr>sc_data := None\<rparr>) a)
      (s\<lparr>wc_bottom := t + 1, wc_taken := add_mset v (wc_taken s), wc_owner := D_last_clear t v\<rparr>))"
| d_last_clear: "wc_owner s = D_last_clear t v \<Longrightarrow> wc_at s (wc_current s) a \<Longrightarrow>
    wo_pop s (wc_store (wc_current s) (wa_put t (clear_round (word_of_int t + 1) (wa_cell a t)) a)
      (s\<lparr>wc_owner := P_idle\<rparr>))"
| d_last_clear_fails: "wc_owner s = D_last_clear t v \<Longrightarrow> wo_pop s (s\<lparr>wc_owner := P_idle\<rparr>)"

section \<open>Thieves\<close>

abbreviation wt_to :: "nat \<Rightarrow> 'a wt_pc \<Rightarrow> 'a wsq_sys \<Rightarrow> 'a wsq_sys" where
  "wt_to u p s \<equiv> s\<lparr>wc_thief := (wc_thief s)(u := p)\<rparr>"

text \<open>\<open>stealLocked\<close>, and \<open>empty\<close>, which stops after reading the round.\<close>

inductive wt_step :: "nat \<Rightarrow> 'a wsq_sys \<Rightarrow> 'a wsq_sys \<Rightarrow> bool" for n :: nat where
  v_top: "u < n \<Longrightarrow> wc_thief s u = V_out \<Longrightarrow> ep_thief (wc_epoch s) u = T_inside \<Longrightarrow>
    wt_step n s (wt_to u (V_array (wc_top s)) s)"
| v_array: "u < n \<Longrightarrow> wc_thief s u = V_array t \<Longrightarrow> wt_step n s (wt_to u (V_round t (wc_array s)) s)"
| v_round: "u < n \<Longrightarrow> wc_thief s u = V_round t k \<Longrightarrow> wc_at s k a \<Longrightarrow> sc_round (wa_cell a t) = word_of_int t + 1 \<Longrightarrow>
    wt_step n s (wt_to u (V_cas t k) s)"
| v_none: "u < n \<Longrightarrow> wc_thief s u = V_round t k \<Longrightarrow> wc_at s k a \<Longrightarrow> sc_round (wa_cell a t) \<noteq> word_of_int t + 1 \<Longrightarrow>
    wt_step n s (wt_to u V_out s)"
| v_empty: "u < n \<Longrightarrow> wc_thief s u = V_round t k \<Longrightarrow> wc_at s k a \<Longrightarrow> wt_step n s (wt_to u V_out s)"
| v_cas: "u < n \<Longrightarrow> wc_thief s u = V_cas t k \<Longrightarrow> wc_top s = t \<Longrightarrow>
    wt_step n s (wt_to u (V_take t k) (s\<lparr>wc_top := t + 1\<rparr>))"
| v_cas_fails: "u < n \<Longrightarrow> wc_thief s u = V_cas t k \<Longrightarrow> wt_step n s (wt_to u V_out s)"
| v_take: "u < n \<Longrightarrow> wc_thief s u = V_take t k \<Longrightarrow> wc_at s k a \<Longrightarrow> sc_data (wa_cell a t) = Some v \<Longrightarrow>
    wt_step n s (wt_to u (V_clear t k v) (wc_store k (wa_put t ((wa_cell a t)\<lparr>sc_data := None\<rparr>) a)
      (s\<lparr>wc_taken := add_mset v (wc_taken s)\<rparr>)))"
| v_take_none: "u < n \<Longrightarrow> wc_thief s u = V_take t k \<Longrightarrow> wc_at s k a \<Longrightarrow> sc_data (wa_cell a t) = None \<Longrightarrow>
    wt_step n s (wt_to u V_out s)"
| v_clear: "u < n \<Longrightarrow> wc_thief s u = V_clear t k v \<Longrightarrow> wc_at s k a \<Longrightarrow>
    wt_step n s (wt_to u V_out (wc_store k (wa_put t (clear_round (word_of_int t + 1) (wa_cell a t)) a) s))"
| v_clear_fails: "u < n \<Longrightarrow> wc_thief s u = V_clear t k v \<Longrightarrow> wt_step n s (wt_to u V_out s)"

text \<open>\<open>Guard\<close>: a thief enters the epoch before, and leaves it after its accesses.\<close>

inductive we_step :: "nat \<Rightarrow> 'a wsq_sys \<Rightarrow> 'a wsq_sys \<Rightarrow> bool" for n :: nat where
  e_thief: "ep_thief_step n (wc_epoch s) e \<Longrightarrow> (\<forall>u. wc_thief s u \<noteq> V_out \<longrightarrow> ep_thief e u = T_inside) \<Longrightarrow>
    we_step n s (s\<lparr>wc_epoch := e\<rparr>)"
| e_drain: "ep_drain (wc_epoch s) e \<Longrightarrow> we_step n s (s\<lparr>wc_epoch := e\<rparr>)"

definition wc_step :: "nat \<Rightarrow> 'a wsq_sys \<Rightarrow> 'a wsq_sys \<Rightarrow> bool" where
  "wc_step n s s' \<longleftrightarrow> wo_push s s' \<or> wo_grow s s' \<or> wo_pop s s' \<or> wt_step n s s' \<or> we_step n s s'"


section \<open>Arrays\<close>

definition wa_cap :: "'a warr \<Rightarrow> nat" where
  "wa_cap a = unat (wa_mask a + 1)"

definition wa_ok :: "'a warr \<Rightarrow> bool" where
  "wa_ok a \<longleftrightarrow> is_cap (wa_mask a + 1) \<and> length (wa_cells a) = wa_cap a \<and> wa_cap a \<le> max_cells"

lemma wa_put_simps [simp]:
  "wa_mask (wa_put i c a) = wa_mask a" "wa_cap (wa_put i c a) = wa_cap a" "wa_ok (wa_put i c a) = wa_ok a"
  "wa_slot (wa_put i c a) j = wa_slot a j"
  by (simp_all add: wa_put_def wa_cap_def wa_ok_def wa_slot_def)

lemma wa_new_ok:
  assumes "is_cap c" "unat c \<le> max_cells"
  shows "wa_ok (wa_new c)" "wa_cap (wa_new c) = unat c" "cell_bag (wa_cells (wa_new c)) = {#}"
proof -
  show "wa_ok (wa_new c)" "wa_cap (wa_new c) = unat c"
    using assms by (simp_all add: wa_ok_def wa_cap_def wa_new_def)
  show "cell_bag (wa_cells (wa_new c)) = {#}"
    by (rule cell_bag_empty) (simp add: wa_new_def empty_cell_def)
qed

lemma wa_cap_pos: "wa_ok a \<Longrightarrow> 0 < wa_cap a"
  by (simp add: wa_ok_def wa_cap_def is_cap_nonzero)

lemma wa_slot_int:
  assumes "wa_ok a"
  shows "int (wa_slot a i) = i mod int (wa_cap a)"
proof -
  have c: "is_cap (wa_mask a + 1)" using assms by (simp add: wa_ok_def)
  have "int (wa_cap a) dvd int (2 ^ 64)"
    unfolding wa_cap_def int_dvd_int_iff by (rule is_cap_dvd [OF c])
  then have d: "int (wa_cap a) dvd 2 ^ 64" by simp
  have "int (wa_slot a i) = uint (word_of_int i :: size_t) mod int (wa_cap a)"
    using slot_mod [OF c, of "word_of_int i"] by (simp add: wa_slot_def wa_cap_def zmod_int)
  also have "uint (word_of_int i :: size_t) = i mod 2 ^ 64" by (simp add: uint_word_of_int)
  also have "\<dots> mod int (wa_cap a) = i mod int (wa_cap a)" by (rule mod_mod_cancel [OF d])
  finally show ?thesis .
qed

lemma wa_slot_lt: "wa_ok a \<Longrightarrow> wa_slot a i < length (wa_cells a)"
proof -
  assume a: "wa_ok a"
  then have "int (wa_slot a i) < int (wa_cap a)"
    using wa_slot_int [OF a] wa_cap_pos [OF a] by simp
  then show ?thesis using a by (simp add: wa_ok_def)
qed

lemma wa_slot_inj:
  assumes "wa_ok a" "i < j" "j - i < int (wa_cap a)"
  shows "wa_slot a i \<noteq> wa_slot a j"
proof
  assume "wa_slot a i = wa_slot a j"
  then have "j mod int (wa_cap a) = i mod int (wa_cap a)"
    using wa_slot_int [OF assms(1)] by metis
  then have "int (wa_cap a) dvd j - i" by (simp add: mod_eq_dvd_iff)
  then show False using assms(2,3) by (auto dest: zdvd_imp_le)
qed

lemma wa_cell_put:
  "wa_ok a \<Longrightarrow> wa_cell (wa_put i c a) j = (if wa_slot a i = wa_slot a j then c else wa_cell a j)"
  using wa_slot_lt [of a] by (simp add: wa_cell_def wa_put_def wa_slot_def nth_list_update)

lemma wa_sint:
  assumes "wa_ok a"
  shows "sint (wa_mask a) + 1 = int (wa_cap a)"
proof -
  have c: "0 < wa_cap a" "wa_cap a < 2 ^ 63"
    using assms wa_cap_pos [OF assms] by (simp_all add: wa_ok_def max_cells_def)
  have "unat (wa_mask a) = wa_cap a - 1"
    using unat_minus_1 [of "wa_mask a + 1"] c(1) by (simp add: wa_cap_def)
  then show ?thesis using sint_eq_unat [of "wa_mask a"] c by simp
qed

lemma wa_bag_take:
  "wa_ok a \<Longrightarrow> sc_data (wa_cell a i) = Some v \<Longrightarrow> sc_data c = None \<Longrightarrow>
    add_mset v (cell_bag (wa_cells (wa_put i c a))) = cell_bag (wa_cells a)"
  using wa_slot_lt [of a i] by (simp add: wa_put_def wa_cell_def cell_bag_take)

lemma wa_bag_put:
  "wa_ok a \<Longrightarrow> sc_data (wa_cell a i) = None \<Longrightarrow> sc_data c = Some v \<Longrightarrow>
    cell_bag (wa_cells (wa_put i c a)) = add_mset v (cell_bag (wa_cells a))"
  using wa_slot_lt [of a i] by (simp add: wa_put_def wa_cell_def cell_bag_put)

lemma wa_bag_same:
  "wa_ok a \<Longrightarrow> sc_data c = sc_data (wa_cell a i) \<Longrightarrow> cell_bag (wa_cells (wa_put i c a)) = cell_bag (wa_cells a)"
  using wa_slot_lt [of a i] by (simp add: wa_put_def wa_cell_def cell_bag_same)

lemma wa_new_data: "is_cap c \<Longrightarrow> sc_data (wa_cell (wa_new c) i) = None"
proof -
  assume c: "is_cap c"
  have "slot (c - 1) (word_of_int i) < unat c" by (rule slot_lt [OF c])
  then show ?thesis by (simp add: wa_cell_def wa_new_def wa_slot_def empty_cell_def)
qed

section \<open>The invariant\<close>

fun in_window :: "'a wo_pc \<Rightarrow> bool" where
  "in_window (G_move x k i b) = True"
| "in_window (G_publish x k) = True"
| "in_window (G_free x k) = True"
| "in_window (G_exit x) = True"
| "in_window _ = False"

text \<open>The second array of a growth in progress: the new one, then the old one.\<close>

fun spare :: "'a wo_pc \<Rightarrow> nat option" where
  "spare (G_enter x k) = Some k"
| "spare (G_move x k i b) = Some k"
| "spare (G_publish x k) = Some k"
| "spare (G_free x k) = Some k"
| "spare _ = None"

text \<open>The array a thief has loaded.\<close>

fun loaded :: "'a wt_pc \<Rightarrow> nat option" where
  "loaded (V_round t k) = Some k"
| "loaded (V_cas t k) = Some k"
| "loaded (V_take t k) = Some k"
| "loaded (V_clear t k v) = Some k"
| "loaded _ = None"

definition wc_safe :: "nat \<Rightarrow> 'a wsq_sys \<Rightarrow> bool" where
  "wc_safe n s \<longleftrightarrow>
     ep_inv n (wc_epoch s) \<and>
     (\<forall>u. wc_thief s u \<noteq> V_out \<longrightarrow> ep_thief (wc_epoch s) u = T_inside) \<and>
     (\<forall>u k. loaded (wc_thief s u) = Some k \<longrightarrow> k = wc_array s) \<and>
     (in_window (wc_owner s) \<longrightarrow> ep_owner (wc_epoch s) = O_window) \<and>
     wc_current s = wc_array s \<and> wc_array s < wc_next s \<and>
     (\<forall>k. wc_heap s k \<noteq> None \<longleftrightarrow> k = wc_array s \<or> spare (wc_owner s) = Some k) \<and>
     (\<forall>k a. wc_at s k a \<longrightarrow> wa_ok a) \<and>
     (\<forall>k. spare (wc_owner s) = Some k \<longrightarrow> k \<noteq> wc_array s \<and> k < wc_next s)"

lemma wc_safeD:
  assumes "wc_safe n s"
  shows "ep_inv n (wc_epoch s)" "wc_thief s u \<noteq> V_out \<Longrightarrow> ep_thief (wc_epoch s) u = T_inside"
    "loaded (wc_thief s u) = Some k \<Longrightarrow> k = wc_array s" "in_window (wc_owner s) \<Longrightarrow> ep_owner (wc_epoch s) = O_window"
    "wc_current s = wc_array s" "wc_array s < wc_next s"
    "wc_heap s k \<noteq> None \<longleftrightarrow> k = wc_array s \<or> spare (wc_owner s) = Some k" "wc_at s k a \<Longrightarrow> wa_ok a"
    "spare (wc_owner s) = Some k \<Longrightarrow> k \<noteq> wc_array s \<and> k < wc_next s"
  using assms unfolding wc_safe_def by blast+

text \<open>While the owner is in its window no thief is between its accesses.\<close>

lemma wc_window_alone: "wc_safe n s \<Longrightarrow> ep_owner (wc_epoch s) = O_window \<Longrightarrow> wc_thief s u = V_out"
  using wc_safeD(1) [of n s] wc_safeD(2) [of n s u] ep_invD(4) [of n "wc_epoch s" u] by blast

text \<open>Steps that leave the arrays, the epoch and the shape of the owner's state alone.\<close>

lemma wc_safe_frame:
  assumes "wc_safe n s" "wc_epoch s' = wc_epoch s" "wc_array s' = wc_array s" "wc_current s' = wc_current s"
    "wc_next s' = wc_next s" "spare (wc_owner s') = spare (wc_owner s)" "in_window (wc_owner s') = in_window (wc_owner s)"
    "\<And>k. wc_heap s' k = wc_heap s k \<or> (\<exists>a a'. wc_heap s k = Some a \<and> wc_heap s' k = Some a' \<and> wa_ok a' = wa_ok a)"
    "\<And>u. wc_thief s' u \<noteq> V_out \<Longrightarrow> ep_thief (wc_epoch s) u = T_inside"
    "\<And>u k. loaded (wc_thief s' u) = Some k \<Longrightarrow> k = wc_array s"
  shows "wc_safe n s'"
proof -
  note d = assms(1) [unfolded wc_safe_def]
  have h: "wc_heap s' k \<noteq> None \<longleftrightarrow> wc_heap s k \<noteq> None" for k
    using assms(8) [of k] by (metis option.distinct(1))
  have a: "wc_at s' k a \<Longrightarrow> wa_ok a" for k a
    using assms(8) [of k] d by (metis option.inject)
  have "\<forall>u. wc_thief s' u \<noteq> V_out \<longrightarrow> ep_thief (wc_epoch s) u = T_inside"
    "\<forall>u k. loaded (wc_thief s' u) = Some k \<longrightarrow> k = wc_array s" "\<forall>k a. wc_at s' k a \<longrightarrow> wa_ok a"
    using assms(9,10) a by blast+
  then show ?thesis
    unfolding wc_safe_def assms(2-7) h using d by simp
qed

lemma wc_safe_owner:
  assumes "wc_safe n s" "wc_epoch s' = wc_epoch s" "wc_array s' = wc_array s" "wc_current s' = wc_current s"
    "wc_next s' = wc_next s" "spare (wc_owner s') = spare (wc_owner s)" "in_window (wc_owner s') = in_window (wc_owner s)"
    "\<And>k. wc_heap s' k = wc_heap s k \<or> (\<exists>a a'. wc_heap s k = Some a \<and> wc_heap s' k = Some a' \<and> wa_ok a' = wa_ok a)"
    "wc_thief s' = wc_thief s"
  shows "wc_safe n s'"
proof (rule wc_safe_frame [OF assms(1-8)])
  show "ep_thief (wc_epoch s) u = T_inside" if "wc_thief s' u \<noteq> V_out" for u
    by (rule wc_safeD(2) [OF assms(1)]) (use that assms(9) in simp)
  show "k = wc_array s" if "loaded (wc_thief s' u) = Some k" for u k
    by (rule wc_safeD(3) [OF assms(1), of u]) (use that assms(9) in simp)
qed

lemma wo_push_safe:
  assumes d: "wc_safe n s" and st: "wo_push s s'"
  shows "wc_safe n s'"
  using st by cases (rule wc_safe_owner [OF d]; simp)+

lemma wo_pop_safe:
  assumes d: "wc_safe n s" and st: "wo_pop s s'"
  shows "wc_safe n s'"
  using st by cases (rule wc_safe_owner [OF d]; simp)+

lemma wt_step_thief:
  assumes d: "wc_safe n s" and st: "wt_step n s s'"
  shows "\<exists>u<n. wc_thief s' = (wc_thief s)(u := wc_thief s' u) \<and>
    (wc_thief s' u \<noteq> V_out \<longrightarrow> ep_thief (wc_epoch s) u = T_inside) \<and>
    (\<forall>k. loaded (wc_thief s' u) = Some k \<longrightarrow> k = wc_array s)"
  using st
proof cases
  case (v_round u t k a)
  then show ?thesis using wc_safeD(2,3) [OF d, of u] by (intro exI [of _ u]) simp
next
  case (v_cas u t k)
  then show ?thesis using wc_safeD(2,3) [OF d, of u] by (intro exI [of _ u]) simp
next
  case (v_take u t k a v)
  then show ?thesis using wc_safeD(2,3) [OF d, of u] by (intro exI [of _ u]) simp
qed (rule exI, rule conjI, assumption, simp add: wc_safeD(2) [OF d])+

lemma wt_step_safe:
  assumes d: "wc_safe n s" and st: "wt_step n s s'"
  shows "wc_safe n s'"
proof -
  obtain u where t: "wc_thief s' = (wc_thief s)(u := wc_thief s' u)"
      "wc_thief s' u \<noteq> V_out \<longrightarrow> ep_thief (wc_epoch s) u = T_inside"
      "\<forall>k. loaded (wc_thief s' u) = Some k \<longrightarrow> k = wc_array s"
    using wt_step_thief [OF d st] by blast
  have th: "wc_thief s' v \<noteq> V_out \<Longrightarrow> ep_thief (wc_epoch s) v = T_inside"
    "loaded (wc_thief s' v) = Some k \<Longrightarrow> k = wc_array s" for v k
    using t wc_safeD(2,3) [OF d, of v] by (cases "v = u"; metis fun_upd_other)+
  from st have "wc_epoch s' = wc_epoch s \<and> wc_array s' = wc_array s \<and> wc_current s' = wc_current s \<and>
      wc_next s' = wc_next s \<and> wc_owner s' = wc_owner s" by cases simp_all
  moreover from st have "wc_heap s' k = wc_heap s k \<or>
      (\<exists>a a'. wc_heap s k = Some a \<and> wc_heap s' k = Some a' \<and> wa_ok a' = wa_ok a)" for k
    by cases simp_all
  ultimately show ?thesis by (intro wc_safe_frame [OF d _ _ _ _ _ _ _ th]) simp_all
qed


lemma ep_owner_step_thief: "ep_owner_step f e e' \<Longrightarrow> ep_thief e' = ep_thief e"
  by (erule ep_owner_step.cases) simp_all

lemma ep_drain_frame: "ep_drain e e' \<Longrightarrow> ep_thief e' = ep_thief e \<and> ep_owner e' = ep_owner e"
  by (erule ep_drain.cases) simp

lemma ep_thief_step_owner: "ep_thief_step n e e' \<Longrightarrow> ep_owner e' = ep_owner e"
  by (erule ep_thief_step.cases) simp_all

lemma ep_step_inv: "n < 2 ^ 32 \<Longrightarrow> ep_inv n e \<Longrightarrow> ep_step True n e e' \<Longrightarrow> ep_inv n e'"
  using ep.inv_step [of n e e'] by (simp add: ep_run_def)

lemma wc_heap_live:
  assumes "wc_safe n s"
  shows "\<exists>a. wc_at s (wc_array s) a \<and> wa_ok a" "spare (wc_owner s) = Some k \<Longrightarrow> \<exists>a. wc_at s k a \<and> wa_ok a"
  using wc_safeD(7,8) [OF assms] by blast+

lemma wo_grow_safe:
  assumes n: "n < 2 ^ 32" and d: "wc_safe n s" and st: "wo_grow s s'"
  shows "wc_safe n s'"
  using st
proof cases
  case (g_alloc x a new_cap)
  have a: "wa_ok a" using g_alloc(3) wc_safeD(8) [OF d] by blast
  then have "is_cap new_cap" "unat new_cap \<le> max_cells"
    using g_alloc(4,5) is_cap_double [of "wa_mask a + 1"] by (simp_all add: wa_ok_def wa_cap_def max_cells_def)
  then show ?thesis
    using d g_alloc(1,2) wa_new_ok(1) [of new_cap] unfolding wc_safe_def by auto
next
  case (g_window x k e)
  then show ?thesis
    using d ep_step_inv [OF n, of "wc_epoch s" e] ep_owner_step_thief [of True "wc_epoch s" e]
    unfolding wc_safe_def by (simp add: ep_step_def)
next
  case (g_top x k)
  then show ?thesis using d unfolding wc_safe_def by simp
next
  case (g_skip x k i b a)
  then show ?thesis by (intro wc_safe_owner [OF d]) simp_all
next
  case (g_move x k i b a v a')
  then show ?thesis by (intro wc_safe_owner [OF d]) simp_all
next
  case (g_moved x k i b)
  then show ?thesis by (intro wc_safe_owner [OF d]) simp_all
next
  case (g_publish x k)
  have "wc_thief s u = V_out" for u
    using wc_window_alone [OF d] wc_safeD(4) [OF d] g_publish(2) by simp
  then show ?thesis
    using d g_publish unfolding wc_safe_def by auto
next
  case (g_free x k a)
  then show ?thesis using d unfolding wc_safe_def by auto
next
  case (g_exit x e)
  then show ?thesis
    using d ep_step_inv [OF n, of "wc_epoch s" e] ep_owner_step_thief [of True "wc_epoch s" e]
    unfolding wc_safe_def by (simp add: ep_step_def)
next
  case (g_throw x a)
  then show ?thesis using d unfolding wc_safe_def by simp
qed

lemma we_step_safe:
  assumes n: "n < 2 ^ 32" and d: "wc_safe n s" and st: "we_step n s s'"
  shows "wc_safe n s'"
  using st
proof cases
  case (e_thief e)
  then show ?thesis
    using d ep_step_inv [OF n, of "wc_epoch s" e] ep_thief_step_owner [of n "wc_epoch s" e]
    unfolding wc_safe_def by (simp add: ep_step_def)
next
  case (e_drain e)
  then show ?thesis
    using d ep_step_inv [OF n, of "wc_epoch s" e] ep_drain_frame [of "wc_epoch s" e]
    unfolding wc_safe_def by (simp add: ep_step_def)
qed


section \<open>Conservation\<close>

definition bag_at :: "'a wsq_sys \<Rightarrow> nat \<Rightarrow> 'a multiset" where
  "bag_at s k = (case wc_heap s k of None \<Rightarrow> {#} | Some a \<Rightarrow> cell_bag (wa_cells a))"

definition cap_at :: "'a wsq_sys \<Rightarrow> nat \<Rightarrow> int" where
  "cap_at s k = (case wc_heap s k of None \<Rightarrow> 0 | Some a \<Rightarrow> int (wa_cap a))"

definition data_at :: "'a wsq_sys \<Rightarrow> nat \<Rightarrow> int \<Rightarrow> 'a option" where
  "data_at s k i = (case wc_heap s k of None \<Rightarrow> None | Some a \<Rightarrow> sc_data (wa_cell a i))"

lemmas at_defs = bag_at_def cap_at_def data_at_def

text \<open>What the owner knows at each of its points.\<close>

fun wo_ok :: "'a wsq_sys \<Rightarrow> 'a wo_pc \<Rightarrow> bool" where
  "wo_ok s (P_wait x) = (wc_bottom s - wc_top s < cap_at s (wc_array s))"
| "wo_ok s (P_data x) = (wc_bottom s - wc_top s < cap_at s (wc_array s) \<and> data_at s (wc_array s) (wc_bottom s) = None)"
| "wo_ok s (P_round x) = (wc_bottom s - wc_top s < cap_at s (wc_array s))"
| "wo_ok s (G_enter x k) = (cap_at s k = 2 * cap_at s (wc_array s) \<and> (\<forall>p. data_at s k p = None))"
| "wo_ok s (G_move x k i b) = (cap_at s k = 2 * cap_at s (wc_array s) \<and> b = wc_bottom s \<and>
     b - i \<le> cap_at s (wc_array s) \<and> (\<forall>p. i \<le> p \<longrightarrow> p < b \<longrightarrow> data_at s k p = None))"
| "wo_ok s (G_publish x k) = (cap_at s k = 2 * cap_at s (wc_array s))"
| "wo_ok s (D_last t) = (t < wc_top s)"
| "wo_ok s _ = True"

definition spare_bag :: "'a wsq_sys \<Rightarrow> 'a multiset" where
  "spare_bag s = (case spare (wc_owner s) of None \<Rightarrow> {#} | Some k \<Rightarrow> bag_at s k)"

definition wc_conserved :: "'a wsq_sys \<Rightarrow> bool" where
  "wc_conserved s \<longleftrightarrow>
     wc_pushed s = wc_taken s + bag_at s (wc_array s) + spare_bag s + wc_dropped s \<and>
     wc_bottom s - wc_top s \<le> cap_at s (wc_array s) \<and> wo_ok s (wc_owner s)"

lemma wo_push_conserved:
  assumes d: "wc_safe n s" and c: "wc_conserved s" and st: "wo_push s s'"
  shows "wc_conserved s'"
proof -
  obtain a where a: "wc_at s (wc_array s) a" "wa_ok a" using wc_heap_live(1) [OF d] by blast
  note cur = wc_safeD(5) [OF d]
  note u = wc_conserved_def spare_bag_def at_defs
  from st show ?thesis
  proof cases
    case (p_data x b)
    then have "b = a" "sc_data (wa_cell a (wc_bottom s)) = None"
      using a cur c by (simp_all add: wc_conserved_def data_at_def)
    then show ?thesis
      using p_data(1,2) a c cur wa_bag_put [OF a(2), of "wc_bottom s"] by (simp add: u)
  next
    case (p_round x b)
    then have "b = a" using a cur by simp
    then show ?thesis
      using p_round(1,2) a c cur wa_bag_same [OF a(2), of _ "wc_bottom s"] by (simp add: u)
  qed (use a c cur wa_sint [OF a(2)] in \<open>simp_all add: u\<close>)
qed

lemma wo_pop_conserved:
  assumes d: "wc_safe n s" and c: "wc_conserved s" and st: "wo_pop s s'"
  shows "wc_conserved s'"
proof -
  obtain a where a: "wc_at s (wc_array s) a" "wa_ok a" using wc_heap_live(1) [OF d] by blast
  note cur = wc_safeD(5) [OF d]
  note u = wc_conserved_def spare_bag_def at_defs
  from st show ?thesis
  proof cases
    case (d_take b v)
    then show ?thesis
      using a c cur wa_bag_take [OF a(2), of "wc_bottom s - 1" v] by (simp add: u)
  next
    case (d_clear v b)
    then show ?thesis
      using a c cur wa_bag_same [OF a(2), of _ "wc_bottom s - 1"] by (simp add: u)
  next
    case (d_last t b v)
    then show ?thesis
      using a c cur wa_bag_take [OF a(2), of t v] by (simp add: u)
  next
    case (d_last_clear t v b)
    then show ?thesis
      using a c cur wa_bag_same [OF a(2), of _ t] by (simp add: u)
  qed (use a c cur in \<open>simp_all add: u\<close>)
qed

text \<open>What thieves and growing do to the rest.\<close>

lemma wo_ok_thief:
  assumes "wc_top s \<le> wc_top s'" "wc_bottom s' = wc_bottom s" "wc_array s' = wc_array s"
    "\<And>k. cap_at s' k = cap_at s k" "\<And>k p. data_at s k p = None \<Longrightarrow> data_at s' k p = None"
  shows "wo_ok s p \<Longrightarrow> wo_ok s' p"
  using assms by (cases p) auto

lemma wt_step_conserved:
  assumes d: "wc_safe n s" and c: "wc_conserved s" and st: "wt_step n s s'"
  shows "wc_conserved s'"
proof -
  obtain a where a: "wc_at s (wc_array s) a" "wa_ok a" using wc_heap_live(1) [OF d] by blast
  have sp: "spare (wc_owner s) \<noteq> Some (wc_array s)" using wc_safeD(9) [OF d] by blast
  have f: "wc_top s \<le> wc_top s'" "wc_bottom s' = wc_bottom s" "wc_array s' = wc_array s" "wc_owner s' = wc_owner s"
    "wc_pushed s' = wc_pushed s" "wc_dropped s' = wc_dropped s"
    using st by (cases; simp)+
  have h: "(\<forall>k. k \<noteq> wc_array s \<longrightarrow> wc_heap s' k = wc_heap s k) \<and>
      (\<exists>a'. wc_at s' (wc_array s) a' \<and> wa_cap a' = wa_cap a \<and>
        (\<forall>p. sc_data (wa_cell a p) = None \<longrightarrow> sc_data (wa_cell a' p) = None) \<and>
        wc_taken s' + cell_bag (wa_cells a') = wc_taken s + cell_bag (wa_cells a))"
    using st
  proof cases
    case (v_take u t k b v)
    then have k: "k = wc_array s" "b = a" using wc_safeD(3) [OF d, of u k] a by auto
    then show ?thesis
      using v_take(1,5) wa_bag_take [OF a(2), of t v "(wa_cell a t)\<lparr>sc_data := None\<rparr>"]
      by (simp add: wa_cell_put [OF a(2)])
  next
    case (v_clear u t k v b)
    then have k: "k = wc_array s" "b = a" using wc_safeD(3) [OF d, of u k] a by auto
    let ?a = "wa_put t (clear_round (word_of_int t + 1) (wa_cell a t)) a"
    have "sc_data (wa_cell ?a p) = None" if "sc_data (wa_cell a p) = None" for p
      using that unfolding wa_cell_put [OF a(2)] by (simp add: wa_cell_def)
    moreover have "cell_bag (wa_cells ?a) = cell_bag (wa_cells a)"
      by (rule wa_bag_same [OF a(2)]) simp
    ultimately show ?thesis using v_clear(1) k by simp
  qed (use a(1) in \<open>simp_all\<close>)
  then obtain a' where a': "\<And>k. k \<noteq> wc_array s \<Longrightarrow> wc_heap s' k = wc_heap s k" "wc_at s' (wc_array s) a'"
      "wa_cap a' = wa_cap a" "\<And>p. sc_data (wa_cell a p) = None \<Longrightarrow> sc_data (wa_cell a' p) = None"
      "wc_taken s' + cell_bag (wa_cells a') = wc_taken s + cell_bag (wa_cells a)" by blast
  have cap: "cap_at s' k = cap_at s k" for k
    using a'(1-3) a(1) by (cases "k = wc_array s") (simp_all add: cap_at_def)
  have "data_at s k p = None \<Longrightarrow> data_at s' k p = None" for k p
    using a'(1,2,4) a(1) by (cases "k = wc_array s") (simp_all add: data_at_def)
  then have own: "wo_ok s' (wc_owner s)"
    using wo_ok_thief [OF f(1-3) cap] c by (simp add: wc_conserved_def)
  have spare: "spare_bag s' = spare_bag s"
    using sp a'(1) by (auto simp: spare_bag_def bag_at_def f(4) split: option.splits)
  have e: "wc_taken s' + bag_at s' (wc_array s) = wc_taken s + bag_at s (wc_array s)"
    using a'(2,5) a(1) by (simp add: bag_at_def)
  have "wc_pushed s' = wc_taken s' + bag_at s' (wc_array s') + spare_bag s' + wc_dropped s'"
    unfolding e f(3,5,6) spare using c by (simp add: wc_conserved_def)
  moreover have "wc_bottom s' - wc_top s' \<le> cap_at s' (wc_array s')"
    unfolding f(2,3) cap using c f(1) by (simp add: wc_conserved_def)
  moreover have "wo_ok s' (wc_owner s')" unfolding f(4) by (rule own)
  ultimately show ?thesis unfolding wc_conserved_def by (intro conjI)
qed

lemma wo_grow_conserved:
  assumes d: "wc_safe n s" and c: "wc_conserved s" and st: "wo_grow s s'"
  shows "wc_conserved s'"
proof -
  obtain a where a: "wc_at s (wc_array s) a" "wa_ok a" using wc_heap_live(1) [OF d] by blast
  note cur = wc_safeD(5) [OF d]
  note c = c [unfolded wc_conserved_def]
  note u = wc_conserved_def spare_bag_def at_defs
  from st show ?thesis
  proof cases
    case (g_alloc x b new_cap)
    then have "b = a" using a cur by simp
    then have cap: "is_cap new_cap" "unat new_cap = 2 * wa_cap a" "unat new_cap \<le> max_cells"
      using g_alloc(4,5) a(2) is_cap_double [of "wa_mask a + 1"]
      by (simp_all add: wa_ok_def wa_cap_def max_cells_def)
    have new: "cell_bag (wa_cells (wa_new new_cap :: 'a warr)) = {#}" "wa_cap (wa_new new_cap :: 'a warr) = 2 * wa_cap a"
      "\<And>p. sc_data (wa_cell (wa_new new_cap :: 'a warr) p) = None"
      using wa_new_ok(2,3) [OF cap(1,3)] wa_new_data [OF cap(1)] cap(2) by simp_all
    have k: "wc_next s \<noteq> wc_array s" using wc_safeD(6) [OF d] a(1) by auto
    then show ?thesis
      using g_alloc(1,2) a c by (simp add: u new)
  next
    case (g_move x k i b a1 v a2)
    have k: "k \<noteq> wc_array s" using wc_safeD(9) [OF d, of k] g_move(2) by simp
    have a1: "a1 = a" using g_move(4) a cur by simp
    have a2: "wa_ok a2" using g_move(6) wc_safeD(8) [OF d] by blast
    have ok: "int (wa_cap a2) = 2 * int (wa_cap a)" "b = wc_bottom s" "b - i \<le> int (wa_cap a)"
      "\<And>p. i \<le> p \<Longrightarrow> p < b \<Longrightarrow> sc_data (wa_cell a2 p) = None"
      using c g_move(2,6) a(1) by (simp_all add: at_defs)
    let ?c = "\<lparr>sc_data = Some v, sc_round = word_of_int i + 1\<rparr>"
    have new: "sc_data (wa_cell (wa_put i ?c a2) p) = None" if "i + 1 \<le> p" "p < b" for p
      using ok(4) [of p] that wa_slot_inj [OF a2, of i p] ok(1,3) by (simp add: wa_cell_put [OF a2])
    have take: "add_mset v (cell_bag (wa_cells (wa_put i ((wa_cell a i)\<lparr>sc_data := None\<rparr>) a))) = cell_bag (wa_cells a)"
      by (rule wa_bag_take [OF a(2)]) (use g_move(5) a1 in simp_all)
    have put: "cell_bag (wa_cells (wa_put i ?c a2)) = add_mset v (cell_bag (wa_cells a2))"
      by (rule wa_bag_put [OF a2]) (use ok(4) [of i] g_move(3) in simp_all)
    have "wc_pushed s = wc_taken s + cell_bag (wa_cells a) + cell_bag (wa_cells a2) + wc_dropped s"
      using c g_move(2,6) a(1) by (simp add: spare_bag_def at_defs)
    then have "wc_pushed s = wc_taken s + cell_bag (wa_cells (wa_put i ((wa_cell a i)\<lparr>sc_data := None\<rparr>) a)) +
        cell_bag (wa_cells (wa_put i ?c a2)) + wc_dropped s"
      unfolding put by (simp flip: take)
    then show ?thesis
      using g_move(1,2) a1 k cur a(1) c ok new by (simp add: u)
  next
    case (g_publish x k)
    obtain b where b: "wc_at s k b" using wc_heap_live(2) [OF d, of k] g_publish(2) by auto
    have k: "k \<noteq> wc_array s" using wc_safeD(9) [OF d, of k] g_publish(2) by simp
    show ?thesis
      using g_publish a(1) b k cur c by (simp add: u ac_simps)
  next
    case (g_free x k b)
    have k: "k \<noteq> wc_array s" using wc_safeD(9) [OF d, of k] g_free(2) by simp
    then show ?thesis
      using g_free a(1) cur c by (simp add: u)
  qed (use a c cur in \<open>simp_all add: u\<close>)
qed

lemma wc_conserved_epoch: "wc_conserved (s\<lparr>wc_epoch := e\<rparr>) = wc_conserved s"
proof -
  let ?s = "s\<lparr>wc_epoch := e\<rparr>"
  have at: "bag_at ?s k = bag_at s k" "cap_at ?s k = cap_at s k" "data_at ?s k p = data_at s k p" for k p
    by (simp_all add: at_defs)
  have ok: "wo_ok ?s p = wo_ok s p" for p by (cases p) (simp_all add: at)
  have "spare_bag ?s = spare_bag s" by (simp add: spare_bag_def at cong: option.case_cong)
  then show ?thesis by (simp add: wc_conserved_def at ok)
qed

lemma we_step_conserved: "wc_conserved s \<Longrightarrow> we_step n s s' \<Longrightarrow> wc_conserved s'"
  by (erule we_step.cases) (simp_all only: wc_conserved_epoch)

section \<open>Reachable states\<close>

definition wc_inv :: "nat \<Rightarrow> 'a wsq_sys \<Rightarrow> bool" where
  "wc_inv n s \<longleftrightarrow> wc_safe n s \<and> wc_conserved s"

text \<open>\<open>active_\<close> has 32 bits: fewer than \<open>2 ^ 32\<close> thieves.\<close>

definition wc_run :: "nat \<Rightarrow> 'a wsq_sys \<Rightarrow> 'a wsq_sys \<Rightarrow> bool" where
  "wc_run n s s' \<longleftrightarrow> n < 2 ^ 32 \<and> wc_step n s s'"

lemma wc_init_inv:
  assumes "wc_init c s"
  shows "wc_inv n s"
proof -
  obtain k e where i: "nextPowerOfTwoChecked c = Inr k" "unat k \<le> max_cells" "ep_init e"
      "s = \<lparr>wc_top = 0, wc_bottom = 0, wc_heap = [0 \<mapsto> wa_new k], wc_array = 0, wc_current = 0, wc_next = 1,
            wc_epoch = e, wc_pushed = {#}, wc_taken = {#}, wc_dropped = {#}, wc_owner = P_idle,
            wc_thief = (\<lambda>_. V_out)\<rparr>"
    using assms unfolding wc_init_def by blast
  note n = wa_new_ok [OF checked_is_cap(1) [OF i(1)] i(2)]
  show ?thesis
    using n ep.inv_init [OF i(3)]
    by (simp add: wc_inv_def wc_safe_def wc_conserved_def i(4) spare_bag_def at_defs)
qed

interpretation wc: inductive_invariant "wc_init c" "wc_run n" "wc_inv n" for c n
proof unfold_locales
  show "wc_inv n s \<Longrightarrow> wc_run n s s' \<Longrightarrow> wc_inv n s'" for s s' :: "'a wsq_sys"
    unfolding wc_run_def wc_step_def wc_inv_def
    by (meson wo_push_safe wo_grow_safe wo_pop_safe wt_step_safe we_step_safe
        wo_push_conserved wo_grow_conserved wo_pop_conserved wt_step_conserved we_step_conserved)
qed (rule wc_init_inv)

lemma wc_reach_inv:
  assumes n: "n < 2 ^ 32" and r: "reach (wc_init c) (wc_step n) s"
  shows "wc_inv n s"
  using r
proof (induction rule: reach.induct)
  case (reach_init s)
  then show ?case by (rule wc.inv_init)
next
  case (reach_step s s')
  then show ?case using wc.inv_step [of n s s'] n by (simp add: wc_run_def)
qed

end
