(* ===== verification/WSQ_Properties.thy ===== *)
theory WSQ_Properties
  imports WSQ_Concurrent
begin

text \<open>
  What the interleaved \<open>WorkStealingQueue\<close> of \<open>WSQ_Concurrent\<close> guarantees, a run in which it grows, and
  a run in which it loses an element for good.
\<close>

section \<open>Two cells and one thief\<close>

text \<open>States with the first array of two cells, the thief inside the epoch.\<close>

definition wc_two ::
  "int \<Rightarrow> int \<Rightarrow> 'a scell \<Rightarrow> 'a scell \<Rightarrow> 'a multiset \<Rightarrow> 'a multiset \<Rightarrow> 'a wo_pc \<Rightarrow> 'a wt_pc \<Rightarrow> 'a wsq_sys" where
  "wc_two t b c0 c1 pushed taken p v =
     \<lparr>wc_top = t, wc_bottom = b, wc_heap = [0 \<mapsto> \<lparr>wa_mask = 1, wa_cells = [c0, c1]\<rparr>], wc_array = 0, wc_current = 0,
      wc_next = 1,
      wc_epoch = \<lparr>ep_gate = False, ep_buffer = [], ep_active = 1, ep_owner = O_out,
        ep_thief = (\<lambda>_. T_out)(0 := T_inside)\<rparr>,
      wc_pushed = pushed, wc_taken = taken, wc_dropped = {#}, wc_owner = p, wc_thief = (\<lambda>_. V_out)(0 := v)\<rparr>"

lemma wa_slot_two [simp]:
  "wa_slot \<lparr>wa_mask = 1, wa_cells = cs\<rparr> 0 = 0" "wa_slot \<lparr>wa_mask = 1, wa_cells = cs\<rparr> 1 = 1"
  "wa_slot \<lparr>wa_mask = 1, wa_cells = cs\<rparr> 2 = 0" "wa_slot \<lparr>wa_mask = 1, wa_cells = cs\<rparr> 3 = 1"
  by (simp_all add: wa_slot_def slot_def)

lemmas two_defs = wc_two_def wa_cell_def wa_put_def clear_round_def

lemma wc_two_push:
  assumes "reach I (wc_step 1) (wc_two t b c0 c1 p k P_idle v)" "b = 0 \<or> b = 1" "b - t < 2"
    "sc_data (if b = 0 then c0 else c1) = None"
  shows "reach I (wc_step 1)
    (if b = 0 then wc_two t 1 \<lparr>sc_data = Some x, sc_round = 1\<rparr> c1 (add_mset x p) k P_idle v
     else wc_two t 2 c0 \<lparr>sc_data = Some x, sc_round = 2\<rparr> (add_mset x p) k P_idle v)"
proof -
  let ?R = "reach I (wc_step 1) :: 'a wsq_sys \<Rightarrow> bool"
  have r: "?R s'" if "?R s" "wo_push s s'" for s s'
    using that by (auto simp: wc_step_def intro: reach_step)
  have "?R (wc_two t b c0 c1 p k (P_top x) v)"
    by (rule r [OF assms(1)]) (use p_call [of "wc_two t b c0 c1 p k P_idle v" x] in \<open>simp add: two_defs\<close>)
  then have "?R (wc_two t b c0 c1 p k (P_wait x) v)"
    by (rule r) (use p_room [of "wc_two t b c0 c1 p k (P_top x) v" x] assms(3) in \<open>simp add: two_defs\<close>)
  then have "?R (wc_two t b c0 c1 p k (P_data x) v)"
    by (rule r) (use p_free [of "wc_two t b c0 c1 p k (P_wait x) v" x] assms(2,4) in \<open>auto simp: two_defs\<close>)
  then have "?R (if b = 0 then wc_two t b (c0\<lparr>sc_data := Some x\<rparr>) c1 (add_mset x p) k (P_round x) v
      else wc_two t b c0 (c1\<lparr>sc_data := Some x\<rparr>) (add_mset x p) k (P_round x) v)"
    by (rule r) (use p_data [of "wc_two t b c0 c1 p k (P_data x) v" x] assms(2) in \<open>auto simp: two_defs\<close>)
  note last = this
  show ?thesis
  proof (cases "b = 0")
    case True
    then show ?thesis
      using r [OF last, of "wc_two t 1 \<lparr>sc_data = Some x, sc_round = 1\<rparr> c1 (add_mset x p) k P_idle v"]
        p_round [of "wc_two t 0 (c0\<lparr>sc_data := Some x\<rparr>) c1 (add_mset x p) k (P_round x) v" x]
      by (cases c0; cases c1; simp add: two_defs)
  next
    case False
    then have b: "b = 1" using assms(2) by simp
    then show ?thesis
      using r [OF last, of "wc_two t 2 c0 \<lparr>sc_data = Some x, sc_round = 2\<rparr> (add_mset x p) k P_idle v"]
        p_round [of "wc_two t 1 c0 (c1\<lparr>sc_data := Some x\<rparr>) (add_mset x p) k (P_round x) v" x]
      by (cases c0; cases c1; simp add: two_defs)
  qed
qed

lemma wc_two_push_1:
  assumes "reach I (wc_step 1) (wc_two t 1 c0 c1 p k P_idle v)" "- 1 < t" "sc_data c1 = None"
  shows "reach I (wc_step 1) (wc_two t 2 c0 \<lparr>sc_data = Some x, sc_round = 2\<rparr> (add_mset x p) k P_idle v)"
  using wc_two_push [OF assms(1), of x] assms(2,3) by simp

lemma wc_two_start: "reach (wc_init 2) (wc_step 1) (wc_two 0 0 empty_cell empty_cell {#} {#} P_idle V_out)"
proof -
  define s :: "u32 \<Rightarrow> thief_pc \<Rightarrow> 'a wsq_sys" where "s a th = \<lparr>wc_top = 0, wc_bottom = 0, wc_heap = [0 \<mapsto> \<lparr>wa_mask = 1, wa_cells = [empty_cell, empty_cell]\<rparr>],
      wc_array = 0, wc_current = 0, wc_next = 1,
      wc_epoch = \<lparr>ep_gate = False, ep_buffer = [], ep_active = a, ep_owner = O_out, ep_thief = (\<lambda>_. T_out)(0 := th)\<rparr>,
      wc_pushed = {#}, wc_taken = {#}, wc_dropped = {#}, wc_owner = P_idle, wc_thief = (\<lambda>_. V_out)\<rparr>" for a th
  let ?R = "reach (wc_init 2) (wc_step 1) :: 'a wsq_sys \<Rightarrow> bool"
  have r: "?R s'" if "?R s" "ep_thief_step 1 (wc_epoch s) e" "\<forall>u. wc_thief s u = V_out" "s' = s\<lparr>wc_epoch := e\<rparr>" for s s' e
    unfolding that(4)
    by (rule reach_step [OF that(1)]) (use e_thief [OF that(2)] that(3) in \<open>simp add: wc_step_def\<close>)
  have "nextPowerOfTwoChecked (2 :: size_t) = Inr 2" by code_simp
  moreover have "wa_new 2 = (\<lparr>wa_mask = 1, wa_cells = [empty_cell, empty_cell]\<rparr> :: 'a warr)"
    by (simp add: wa_new_def) (simp add: numeral_eq_Suc)
  ultimately have "?R (s 0 T_out)"
    by (intro reach_init) (auto simp: s_def wc_init_def max_cells_def ep_init_def fun_upd_idem)
  then have "?R (s 0 T_check)"
    by (rule r [OF _ enter_call [where t = 0]]) (auto simp: s_def)
  then have "?R (s 0 T_register)"
    by (rule r [OF _ enter_open [where t = 0]]) (auto simp: s_def)
  then have "?R (s 1 T_recheck)"
    by (rule r [OF _ enter_add [where t = 0]]) (auto simp: s_def)
  then have "?R (s 1 T_inside)"
    by (rule r [OF _ enter_ok [where t = 0]]) (auto simp: s_def)
  then show ?thesis by (simp add: s_def wc_two_def fun_upd_idem)
qed

text \<open>A thief steals \<open>x\<close> at position 0, or claims position 1 and finds nothing.\<close>

lemma wc_two_steal:
  assumes "reach (wc_init 2) (wc_step 1) (wc_two 0 b \<lparr>sc_data = Some x, sc_round = 1\<rparr> c1 p k q V_out)"
  shows "reach (wc_init 2) (wc_step 1) (wc_two 1 b empty_cell c1 p (add_mset x k) q V_out)"
proof -
  let ?R = "reach (wc_init 2) (wc_step 1) :: 'a wsq_sys \<Rightarrow> bool"
  let ?c = "\<lparr>sc_data = Some x, sc_round = 1\<rparr>"
  have r: "?R s'" if "?R s" "wt_step 1 s s'" for s s'
    using that by (auto simp: wc_step_def intro: reach_step)
  have "?R (wc_two 0 b ?c c1 p k q (V_array 0))"
    by (rule r [OF assms]) (use v_top [of 0 1 "wc_two 0 b ?c c1 p k q V_out"] in \<open>simp add: two_defs\<close>)
  then have "?R (wc_two 0 b ?c c1 p k q (V_round 0 0))"
    by (rule r) (use v_array [of 0 1 "wc_two 0 b ?c c1 p k q (V_array 0)" 0] in \<open>simp add: two_defs\<close>)
  then have "?R (wc_two 0 b ?c c1 p k q (V_cas 0 0))"
    by (rule r) (use v_round [of 0 1 "wc_two 0 b ?c c1 p k q (V_round 0 0)" 0 0] in \<open>simp add: two_defs\<close>)
  then have "?R (wc_two 1 b ?c c1 p k q (V_take 0 0))"
    by (rule r) (use v_cas [of 0 1 "wc_two 0 b ?c c1 p k q (V_cas 0 0)" 0 0] in \<open>simp add: two_defs\<close>)
  then have "?R (wc_two 1 b \<lparr>sc_data = None, sc_round = 1\<rparr> c1 p (add_mset x k) q (V_clear 0 0 x))"
    by (rule r) (use v_take [of 0 1 "wc_two 1 b ?c c1 p k q (V_take 0 0)" 0 0 _ x] in \<open>simp add: two_defs\<close>)
  then show ?thesis
    by (rule r) (use v_clear [of 0 1 "wc_two 1 b \<lparr>sc_data = None, sc_round = 1\<rparr> c1 p (add_mset x k) q (V_clear 0 0 x)" 0 0 x]
      in \<open>simp add: two_defs empty_cell_def\<close>)
qed

lemma wc_two_loaded:
  "reach (wc_init 2) (wc_step 1) (wc_two 0 0 empty_cell empty_cell {#} {#} P_idle (V_round 0 0))" (is "reach _ _ ?s")
proof -
  let ?S = "wc_two 0 0 empty_cell empty_cell {#} {#} P_idle :: 'a wt_pc \<Rightarrow> 'a wsq_sys"
  have r: "reach (wc_init 2) (wc_step 1) s'" if "reach (wc_init 2) (wc_step 1) s" "wt_step 1 s s'" for s s' :: "'a wsq_sys"
    using that by (auto simp: wc_step_def intro: reach_step)
  have "reach (wc_init 2) (wc_step 1) (?S (V_array 0))"
    by (rule r [OF wc_two_start]) (use v_top [of 0 1 "?S V_out"] in \<open>simp add: two_defs\<close>)
  then show ?thesis
    by (rule r) (use v_array [of 0 1 "?S (V_array 0)" 0] in \<open>simp add: two_defs\<close>)
qed

lemma wc_two_miss:
  assumes "reach (wc_init 2) (wc_step 1) (wc_two 1 b c0 \<lparr>sc_data = None, sc_round = 2\<rparr> p k q V_out)"
  shows "reach (wc_init 2) (wc_step 1) (wc_two 2 b c0 \<lparr>sc_data = None, sc_round = 2\<rparr> p k q V_out)"
proof -
  let ?R = "reach (wc_init 2) (wc_step 1) :: 'a wsq_sys \<Rightarrow> bool"
  let ?c = "\<lparr>sc_data = None, sc_round = 2\<rparr>"
  have r: "?R s'" if "?R s" "wt_step 1 s s'" for s s'
    using that by (auto simp: wc_step_def intro: reach_step)
  have "?R (wc_two 1 b c0 ?c p k q (V_array 1))"
    by (rule r [OF assms]) (use v_top [of 0 1 "wc_two 1 b c0 ?c p k q V_out"] in \<open>simp add: two_defs\<close>)
  then have "?R (wc_two 1 b c0 ?c p k q (V_round 1 0))"
    by (rule r) (use v_array [of 0 1 "wc_two 1 b c0 ?c p k q (V_array 1)" 1] in \<open>simp add: two_defs\<close>)
  then have "?R (wc_two 1 b c0 ?c p k q (V_cas 1 0))"
    by (rule r) (use v_round [of 0 1 "wc_two 1 b c0 ?c p k q (V_round 1 0)" 1 0] in \<open>simp add: two_defs\<close>)
  then have "?R (wc_two 2 b c0 ?c p k q (V_take 1 0))"
    by (rule r) (use v_cas [of 0 1 "wc_two 1 b c0 ?c p k q (V_cas 1 0)" 1 0] in \<open>simp add: two_defs\<close>)
  then show ?thesis
    by (rule r) (use v_take_none [of 0 1 "wc_two 2 b c0 ?c p k q (V_take 1 0)" 1 0] in \<open>simp add: two_defs\<close>)
qed

section \<open>An element out of reach\<close>

text \<open>
  The states from which \<open>z\<close> at position 1 cannot be handed out: \<open>top\<close> and \<open>bottom_\<close> are beyond it, and no thread
  is about to touch its cell. Position 3 would use the cell next, but a push there waits for it to be empty, so that
  \<open>bottom_\<close> never passes 3, and the queue is never found full.
\<close>

fun beyond_owner :: "int \<Rightarrow> 'a wo_pc \<Rightarrow> bool" where
  "beyond_owner b P_idle = True"
| "beyond_owner b (P_top x) = True"
| "beyond_owner b (P_wait x) = True"
| "beyond_owner b (P_data x) = (b = 2)"
| "beyond_owner b (P_round x) = (b = 2)"
| "beyond_owner b D_top = True"
| "beyond_owner b (D_cas t) = (t = 2)"
| "beyond_owner b (D_last t) = (t = 2)"
| "beyond_owner b (D_last_clear t v) = (t = 2)"
| "beyond_owner b _ = False"

fun beyond_thief :: "'a wt_pc \<Rightarrow> bool" where
  "beyond_thief V_out = True"
| "beyond_thief (V_array t) = (t = 2 \<or> t = 3)"
| "beyond_thief (V_round t k) = ((t = 2 \<or> t = 3) \<and> k = 0)"
| "beyond_thief (V_cas t k) = (t = 2 \<and> k = 0)"
| "beyond_thief (V_take t k) = (t = 2 \<and> k = 0)"
| "beyond_thief (V_clear t k v) = (t = 2 \<and> k = 0)"

definition beyond_reach :: "'a \<Rightarrow> 'a wsq_sys \<Rightarrow> bool" where
  "beyond_reach z s \<longleftrightarrow> wc_array s = 0 \<and> wc_current s = 0 \<and>
     (\<exists>c. wc_heap s 0 = Some \<lparr>wa_mask = 1, wa_cells = [c, \<lparr>sc_data = Some z, sc_round = 2\<rparr>]\<rparr>) \<and>
     (wc_top s = 2 \<or> wc_top s = 3) \<and> (wc_bottom s = 2 \<or> wc_bottom s = 3) \<and>
     beyond_owner (wc_bottom s) (wc_owner s) \<and> (\<forall>u. beyond_thief (wc_thief s u))"

lemma beyond_reachE:
  assumes "beyond_reach z s"
  obtains c where "wc_array s = 0" "wc_current s = 0"
    "wc_heap s 0 = Some \<lparr>wa_mask = 1, wa_cells = [c, \<lparr>sc_data = Some z, sc_round = 2\<rparr>]\<rparr>"
    "wc_top s = 2 \<or> wc_top s = 3" "wc_bottom s = 2 \<or> wc_bottom s = 3" "beyond_owner (wc_bottom s) (wc_owner s)"
    "\<forall>u. beyond_thief (wc_thief s u)"
  using assms unfolding beyond_reach_def by blast

lemma beyond_step:
  assumes b: "beyond_reach z s" and st: "wc_step n s s'"
  shows "beyond_reach z s'"
proof -
  obtain c where d: "wc_array s = 0" "wc_current s = 0"
    "wc_heap s 0 = Some \<lparr>wa_mask = 1, wa_cells = [c, \<lparr>sc_data = Some z, sc_round = 2\<rparr>]\<rparr>"
    "wc_top s = 2 \<or> wc_top s = 3" "wc_bottom s = 2 \<or> wc_bottom s = 3" "beyond_owner (wc_bottom s) (wc_owner s)"
    using b by (rule beyond_reachE)
  have th: "beyond_thief (wc_thief s u)" for u using b by (rule beyond_reachE) blast
  note defs = beyond_reach_def wa_cell_def wa_put_def
  show ?thesis
    using st unfolding wc_step_def
  proof (elim disjE)
    assume "wo_push s s'"
    then show ?thesis by cases (use d th in \<open>auto simp: defs\<close>)
  next
    assume "wo_grow s s'"
    then show ?thesis by cases (use d in simp_all)
  next
    assume "wo_pop s s'"
    then show ?thesis by cases (use d th in \<open>auto simp: defs\<close>)
  next
    assume "wt_step n s s'"
    then show ?thesis
    proof cases
      case (v_round u t k a)
      then show ?thesis using d th [of u] th by (auto simp: defs)
    next
      case (v_cas u t k)
      then show ?thesis using d th [of u] th by (auto simp: defs)
    next
      case (v_take u t k a v)
      then show ?thesis using d th [of u] th by (auto simp: defs)
    next
      case (v_clear u t k v a)
      then show ?thesis using d th [of u] th by (auto simp: defs)
    next
      case (v_array u t)
      then show ?thesis using d th [of u] th by (auto simp: defs)
    qed (use d th in \<open>auto simp: defs\<close>)
  next
    assume "we_step n s s'"
    then show ?thesis by cases (use d th in \<open>auto simp: defs\<close>)
  qed
qed

text \<open>The pushes that are done, and the one that can still come: position 2 is filled only once.\<close>

definition pushes_left :: "'a wsq_sys \<Rightarrow> nat" where
  "pushes_left s = size (wc_pushed s) + (if wc_bottom s = 2 \<and> (\<forall>x. wc_owner s \<noteq> P_round x) then 1 else 0)"

lemma beyond_pushes:
  assumes b: "beyond_reach z s" and st: "wc_step n s s'"
  shows "pushes_left s' \<le> pushes_left s"
proof -
  obtain c where d: "wc_current s = 0"
    "wc_heap s 0 = Some \<lparr>wa_mask = 1, wa_cells = [c, \<lparr>sc_data = Some z, sc_round = 2\<rparr>]\<rparr>"
    "wc_top s = 2 \<or> wc_top s = 3" "wc_bottom s = 2 \<or> wc_bottom s = 3" "beyond_owner (wc_bottom s) (wc_owner s)"
    using b by (rule beyond_reachE)
  show ?thesis
    using st unfolding wc_step_def
  proof (elim disjE)
    assume "wo_push s s'"
    then show ?thesis by cases (use d in \<open>auto simp: pushes_left_def\<close>)
  next
    assume "wo_grow s s'"
    then show ?thesis by cases (use d in simp_all)
  next
    assume "wo_pop s s'"
    then show ?thesis by cases (use d in \<open>auto simp: pushes_left_def\<close>)
  next
    assume "wt_step n s s'"
    then show ?thesis by cases (auto simp: pushes_left_def)
  next
    assume "we_step n s s'"
    then show ?thesis by cases (auto simp: pushes_left_def)
  qed
qed

lemma beyond_run:
  assumes "(wc_step n)\<^sup>*\<^sup>* s s'" "beyond_reach z s"
  shows "beyond_reach z s' \<and> pushes_left s' \<le> pushes_left s"
  using assms(1)
proof (induction rule: rtranclp_induct)
  case (step t u)
  then show ?case using beyond_step [of z t n u] beyond_pushes [of z t n u] by (meson order_trans)
qed (simp add: assms(2))

text \<open>What lies in the published array has not been handed out.\<close>

lemma beyond_lost:
  assumes "n < 2 ^ 32" "reach (wc_init c) (wc_step n) s" "beyond_reach z s"
  shows "z \<in># wc_pushed s - wc_taken s"
proof -
  have "wc_pushed s = wc_taken s + bag_at s (wc_array s) + spare_bag s + wc_dropped s"
    using wc_reach_inv [OF assms(1,2)] by (simp add: wc_inv_def wc_conserved_def)
  moreover have "z \<in># bag_at s (wc_array s)"
    using assms(3) by (rule beyond_reachE) (auto simp: bag_at_def cell_bag_def)
  ultimately show ?thesis by simp
qed

lemma reach_from: "reach (\<lambda>t. t = r) R s \<Longrightarrow> R\<^sup>*\<^sup>* r s"
  by (induction rule: reach.induct) auto

section \<open>A queue that grows\<close>

text \<open>States of a run in which the owner pushes into one cell and then grows; no thief is about.\<close>

definition wc_one ::
  "(nat \<rightharpoonup> 'a warr) \<Rightarrow> nat \<Rightarrow> nat \<Rightarrow> int \<Rightarrow> bool \<Rightarrow> bool list \<Rightarrow> owner_pc \<Rightarrow> 'a multiset \<Rightarrow> 'a wo_pc \<Rightarrow> 'a wsq_sys" where
  "wc_one heap k nxt b gate buf ep pushed p =
     \<lparr>wc_top = 0, wc_bottom = b, wc_heap = heap, wc_array = k, wc_current = k, wc_next = nxt,
      wc_epoch = \<lparr>ep_gate = gate, ep_buffer = buf, ep_active = 0, ep_owner = ep, ep_thief = (\<lambda>_. T_out)\<rparr>,
      wc_pushed = pushed, wc_taken = {#}, wc_dropped = {#}, wc_owner = p, wc_thief = (\<lambda>_. V_out)\<rparr>"

definition arr_one :: "'a option \<Rightarrow> size_t \<Rightarrow> 'a warr" where
  "arr_one d r = \<lparr>wa_mask = 0, wa_cells = [\<lparr>sc_data = d, sc_round = r\<rparr>]\<rparr>"

definition arr_two :: "'a option \<Rightarrow> size_t \<Rightarrow> 'a warr" where
  "arr_two d r = \<lparr>wa_mask = 1, wa_cells = [\<lparr>sc_data = d, sc_round = r\<rparr>, empty_cell]\<rparr>"

lemma wa_slot_one [simp]: "wa_slot \<lparr>wa_mask = 0, wa_cells = cs\<rparr> i = 0"
  by (simp add: wa_slot_def slot_def)

lemmas one_defs = wc_one_def arr_one_def arr_two_def wa_cell_def wa_put_def

lemma wc_push_step: "reach I (wc_step n) s \<Longrightarrow> wo_push s s' \<Longrightarrow> reach I (wc_step n) s'"
  and wc_grow_step: "reach I (wc_step n) s \<Longrightarrow> wo_grow s s' \<Longrightarrow> reach I (wc_step n) s'"
  and wc_pop_step: "reach I (wc_step n) s \<Longrightarrow> wo_pop s s' \<Longrightarrow> reach I (wc_step n) s'"
  and wc_thief_step: "reach I (wc_step n) s \<Longrightarrow> wt_step n s s' \<Longrightarrow> reach I (wc_step n) s'"
  and wc_epoch_step: "reach I (wc_step n) s \<Longrightarrow> we_step n s s' \<Longrightarrow> reach I (wc_step n) s'"
  by (auto simp: wc_step_def intro: reach_step)

text \<open>The first element goes in; the second finds the queue full.\<close>

lemma wc_one_full:
  "reach (wc_init 1) (wc_step n) (wc_one [0 \<mapsto> arr_one (Some x) 1] 0 1 1 False [] O_out {#x#} (G_alloc y))"
proof -
  let ?R = "reach (wc_init 1) (wc_step n) :: 'a wsq_sys \<Rightarrow> bool"
  let ?S = "\<lambda>d r b P p. wc_one [0 \<mapsto> arr_one d r] 0 1 b False [] O_out P p :: 'a wsq_sys"
  have "nextPowerOfTwoChecked (1 :: size_t) = Inr 1" by code_simp
  moreover have "wa_new 1 = (arr_one None 0 :: 'a warr)" by (simp add: wa_new_def arr_one_def empty_cell_def)
  ultimately have "?R (?S None 0 0 {#} P_idle)"
    by (intro reach_init) (auto simp: wc_one_def wc_init_def max_cells_def ep_init_def)
  then have "?R (?S None 0 0 {#} (P_top x))"
    by (rule wc_push_step) (use p_call [of "?S None 0 0 {#} P_idle" x] in \<open>simp add: one_defs\<close>)
  then have "?R (?S None 0 0 {#} (P_wait x))"
    by (rule wc_push_step) (use p_room [of "?S None 0 0 {#} (P_top x)" x] in \<open>simp add: one_defs\<close>)
  then have "?R (?S None 0 0 {#} (P_data x))"
    by (rule wc_push_step) (use p_free [of "?S None 0 0 {#} (P_wait x)" x] in \<open>simp add: one_defs\<close>)
  then have "?R (?S (Some x) 0 0 {#x#} (P_round x))"
    by (rule wc_push_step) (use p_data [of "?S None 0 0 {#} (P_data x)" x] in \<open>simp add: one_defs\<close>)
  then have "?R (?S (Some x) 1 1 {#x#} P_idle)"
    by (rule wc_push_step) (use p_round [of "?S (Some x) 0 0 {#x#} (P_round x)" x] in \<open>simp add: one_defs\<close>)
  then have "?R (?S (Some x) 1 1 {#x#} (P_top y))"
    by (rule wc_push_step) (use p_call [of "?S (Some x) 1 1 {#x#} P_idle" y] in \<open>simp add: one_defs\<close>)
  then show ?thesis
    by (rule wc_push_step) (use p_full [of "?S (Some x) 1 1 {#x#} (P_top y)" y] in \<open>simp add: one_defs\<close>)
qed

text \<open>The owner closes the gate, waits for the window, moves the element and publishes the new array.\<close>

lemma wc_one_grows:
  "reach (wc_init 1) (wc_step n)
    (wc_one [0 \<mapsto> arr_one None 1, 1 \<mapsto> arr_two (Some x) 1] 1 2 1 True [] O_window {#x#} (G_free y 0))"
proof -
  let ?R = "reach (wc_init 1) (wc_step n) :: 'a wsq_sys \<Rightarrow> bool"
  let ?h = "[0 \<mapsto> arr_one (Some x) 1, 1 \<mapsto> arr_two None 0] :: nat \<rightharpoonup> 'a warr"
  let ?h' = "[0 \<mapsto> arr_one None 1, 1 \<mapsto> arr_two (Some x) 1] :: nat \<rightharpoonup> 'a warr"
  let ?E = "\<lambda>g buf ow. wc_one ?h 0 2 1 g buf ow {#x#} (G_enter y 1)"
  let ?W = "\<lambda>h k p. wc_one h k 2 1 True [] O_window {#x#} p"
  have two: "wa_new 2 = (arr_two None 0 :: 'a warr)" by (simp add: wa_new_def arr_two_def empty_cell_def) (simp add: numeral_eq_Suc)
  have "?R (?E False [] O_out)"
    by (rule wc_grow_step [OF wc_one_full [where x = x and y = y]])
      (use g_alloc [of "wc_one [0 \<mapsto> arr_one (Some x) 1] 0 1 1 False [] O_out {#x#} (G_alloc y)" y "arr_one (Some x) 1" 2] two
        in \<open>simp add: wc_one_def arr_one_def max_cells_def flip: numeral_2_eq_2\<close>)
  then have "?R (?E False [True] O_fence)"
    by (rule wc_grow_step)
      (use g_window [OF _ _ window_close, of "?E False [] O_out" y 1] in \<open>simp add: wc_one_def\<close>)
  then have "?R (?E True [] O_fence)"
    by (rule wc_epoch_step) (use e_drain [OF drain, of "?E False [True] O_fence" True "[]"] in \<open>simp add: wc_one_def\<close>)
  then have "?R (?E True [] O_spin)"
    by (rule wc_grow_step)
      (use g_window [OF _ _ window_fence, of "?E True [] O_fence" y 1] in \<open>simp add: wc_one_def\<close>)
  then have "?R (?E True [] O_window)"
    by (rule wc_grow_step)
      (use g_window [OF _ _ window_open, of "?E True [] O_spin" y 1] in \<open>simp add: wc_one_def\<close>)
  then have "?R (?W ?h 0 (G_move y 1 0 1))"
    by (rule wc_grow_step) (use g_top [of "?E True [] O_window" y 1] in \<open>simp add: wc_one_def\<close>)
  then have "?R (?W ?h' 0 (G_move y 1 1 1))"
    by (rule wc_grow_step)
      (use g_move [of "?W ?h 0 (G_move y 1 0 1)" y 1 0 1 "arr_one (Some x) 1" x "arr_two None 0"]
        in \<open>simp add: one_defs fun_upd_twist\<close>)
  then have "?R (?W ?h' 0 (G_publish y 1))"
    by (rule wc_grow_step) (use g_moved [of "?W ?h' 0 (G_move y 1 1 1)" y 1 1 1] in \<open>simp add: wc_one_def\<close>)
  then show ?thesis
    by (rule wc_grow_step) (use g_publish [of "?W ?h' 0 (G_publish y 1)" y 1] in \<open>simp add: wc_one_def\<close>)
qed

section \<open>Properties\<close>

text \<open>C20: the owner and fewer than \<open>2 ^ 32\<close> thieves on a growing queue, in any interleaving: an array a thief has
  loaded is the published one and has not been deleted (no use after free); while the owner moves
  elements, publishes and deletes inside its window, no thief is between its accesses; and an element
  pushed has been handed out, or is in the published array or the other array of a growth, or was
  abandoned in a deleted array: none is handed out twice or made up.\<close>

theorem wsq_concurrent_safe:
  assumes "n < 2 ^ 32" "reach (wc_init c) (wc_step n) s"
  shows "(loaded (wc_thief s u) = Some k \<longrightarrow> k = wc_array s \<and> wc_heap s k \<noteq> None) \<and>
    (in_window (wc_owner s) \<longrightarrow> wc_thief s u = V_out) \<and>
    wc_pushed s = wc_taken s + bag_at s (wc_array s) + spare_bag s + wc_dropped s"
proof -
  have d: "wc_safe n s" "wc_conserved s" using wc_reach_inv [OF assms] by (simp_all add: wc_inv_def)
  have "k = wc_array s \<and> wc_heap s k \<noteq> None" if "loaded (wc_thief s u) = Some k"
    using wc_safeD(3) [OF d(1) that] wc_safeD(7) [OF d(1), of k] by simp
  moreover have "wc_thief s u = V_out" if "in_window (wc_owner s)"
    by (rule wc_window_alone [OF d(1) wc_safeD(4) [OF d(1) that]])
  moreover have "wc_pushed s = wc_taken s + bag_at s (wc_array s) + spare_bag s + wc_dropped s"
    using d(2) by (simp add: wc_conserved_def)
  ultimately show ?thesis by blast
qed

text \<open>The owner has grown the queue and is about to delete the old array; and a thief has loaded the array.\<close>

theorem wsq_concurrent_safe_witness:
  "(\<exists>s. (1 :: nat) < 2 ^ 32 \<and> reach (wc_init 1) (wc_step 1) s \<and> wc_owner s = G_free (8 :: nat) 0 \<and>
      in_window (wc_owner s) \<and> wc_array s = 1 \<and> wc_heap s 0 \<noteq> None \<and> wc_heap s 1 \<noteq> None \<and> wc_pushed s = {#7#} \<and>
      wc_thief s 0 = V_out \<and> wc_pushed s = wc_taken s + bag_at s (wc_array s) + spare_bag s + wc_dropped s) \<and>
   (\<exists>s. reach (wc_init 2) (wc_step 1) (s :: nat wsq_sys) \<and> loaded (wc_thief s 0) = Some 0 \<and>
      0 = wc_array s \<and> wc_heap s 0 \<noteq> None)"
proof
  let ?s = "wc_one [0 \<mapsto> arr_one None 1, 1 \<mapsto> arr_two (Some 7) 1] 1 2 1 True [] O_window {#7#} (G_free 8 0) :: nat wsq_sys"
  have n: "(1 :: nat) < 2 ^ 32" by simp
  have r: "reach (wc_init 1) (wc_step 1) ?s" by (rule wc_one_grows)
  have "wc_thief ?s 0 = V_out" "wc_pushed ?s = wc_taken ?s + bag_at ?s (wc_array ?s) + spare_bag ?s + wc_dropped ?s"
    using wsq_concurrent_safe [OF n r, of 0] by (simp_all add: wc_one_def)
  then show "\<exists>s. (1 :: nat) < 2 ^ 32 \<and> reach (wc_init 1) (wc_step 1) s \<and> wc_owner s = G_free (8 :: nat) 0 \<and>
      in_window (wc_owner s) \<and> wc_array s = 1 \<and> wc_heap s 0 \<noteq> None \<and> wc_heap s 1 \<noteq> None \<and> wc_pushed s = {#7#} \<and>
      wc_thief s 0 = V_out \<and> wc_pushed s = wc_taken s + bag_at s (wc_array s) + spare_bag s + wc_dropped s"
    using n r by (intro exI [of _ ?s] conjI) (simp_all add: wc_one_def)
  let ?t = "wc_two 0 0 empty_cell empty_cell {#} {#} P_idle (V_round 0 0) :: nat wsq_sys"
  have "loaded (wc_thief ?t 0) = Some 0" by (simp add: wc_two_def)
  then have "0 = wc_array ?t \<and> wc_heap ?t 0 \<noteq> None"
    using wsq_concurrent_safe [OF n wc_two_loaded, of 0 0] by blast
  then show "\<exists>s. reach (wc_init 2) (wc_step 1) (s :: nat wsq_sys) \<and> loaded (wc_thief s 0) = Some 0 \<and>
      0 = wc_array s \<and> wc_heap s 0 \<noteq> None"
    using wc_two_loaded \<open>loaded (wc_thief ?t 0) = Some 0\<close> by blast
qed

text \<open>C21: \<open>pop\<close> can make the queue lose an element for good. In its normal case \<open>pop\<close> empties the last cell before it
  clears the cell's round, and does not move \<open>top\<close>. A thief that has stolen everything before it may see
  the old round, claim the position and get a null pointer, so that, when \<open>pop\<close> returns, \<open>top\<close> has overtaken
  \<open>bottom_\<close>. The next element pushed goes below \<open>top\<close>, and whatever the owner and the thief do from then on, it is never
  handed out. Moreover at most one more element ever goes in: the \<open>push\<close> after it waits for the cell of the lost
  element to become empty.\<close>

theorem wsq_pop_loses:
  "\<exists>r s. reach (wc_init 2) (wc_step 1) r \<and> wc_owner r = P_idle \<and> wc_thief r 0 = V_out \<and>
    wc_pushed r = {#x, y#} \<and> wc_taken r = {#x, y#} \<and> wc_bottom r < wc_top r \<and>
    (wc_step 1)\<^sup>*\<^sup>* r s \<and> wc_owner s = P_idle \<and> wc_thief s 0 = V_out \<and>
    wc_pushed s = {#x, y, z#} \<and> wc_taken s = {#x, y#} \<and> wc_bottom s = wc_top s \<and>
    (\<forall>s'. (wc_step 1)\<^sup>*\<^sup>* s s' \<longrightarrow> z \<in># wc_pushed s' - wc_taken s' \<and> size (wc_pushed s') \<le> size (wc_pushed s) + 1)"
proof -
  let ?R = "reach (wc_init 2) (wc_step 1) :: 'a wsq_sys \<Rightarrow> bool"
  let ?c = "\<lambda>d r. \<lparr>sc_data = d, sc_round = r\<rparr>"
  have r: "?R s'" if "?R s" "wo_pop s s'" for s s'
    by (rule wc_pop_step [OF that])
  have "?R (wc_two 0 1 (?c (Some x) 1) empty_cell {#x#} {#} P_idle V_out)"
    using wc_two_push [OF wc_two_start, of x] by (simp add: empty_cell_def)
  then have "?R (wc_two 0 2 (?c (Some x) 1) (?c (Some y) 2) {#x, y#} {#} P_idle V_out)" (is "reach _ _ ?s2")
    using wc_two_push_1 [of _ 0 _ empty_cell "{#x#}" _ _ y] by (simp add: empty_cell_def add_mset_commute)
  then have "?R (wc_two 0 2 (?c (Some x) 1) (?c (Some y) 2) {#x, y#} {#} D_top V_out)" (is "reach _ _ ?s3")
    by (rule r) (use d_call [of ?s2] in \<open>simp add: two_defs\<close>)
  then have "?R (wc_two 0 2 (?c (Some x) 1) (?c (Some y) 2) {#x, y#} {#} D_take V_out)" (is "reach _ _ ?s4")
    by (rule r) (use d_normal [of ?s3] in \<open>simp add: two_defs\<close>)
  then have "?R (wc_two 0 2 (?c (Some x) 1) (?c None 2) {#x, y#} {#y#} (D_clear y) V_out)"
    by (rule r) (use d_take [of ?s4 _ y] in \<open>simp add: two_defs\<close>)
  then have "?R (wc_two 2 2 empty_cell (?c None 2) {#x, y#} {#x, y#} (D_clear y) V_out)" (is "reach _ _ ?s7")
    by (intro wc_two_miss wc_two_steal)
  then have low: "?R (wc_two 2 1 empty_cell empty_cell {#x, y#} {#x, y#} P_idle V_out)" (is "reach _ _ ?r")
    by (rule r) (use d_clear [of ?s7 y] in \<open>simp add: two_defs empty_cell_def\<close>)
  have "reach (\<lambda>t. t = ?r) (wc_step 1) (wc_two 2 2 empty_cell (?c (Some z) 2) {#z, x, y#} {#x, y#} P_idle V_out)"
    (is "reach _ _ ?s") using wc_two_push_1 [OF reach_init [of "\<lambda>t. t = ?r", OF refl], of z] by (simp add: empty_cell_def)
  note run = reach_from [OF this]
  have s: "?R ?s" by (rule reach_rtranclp [OF low run])
  have b: "beyond_reach z ?s" by (simp add: beyond_reach_def wc_two_def)
  have "z \<in># wc_pushed s' - wc_taken s' \<and> size (wc_pushed s') \<le> size (wc_pushed ?s) + 1"
    if st: "(wc_step 1)\<^sup>*\<^sup>* ?s s'" for s'
  proof
    have b': "beyond_reach z s'" "pushes_left s' \<le> pushes_left ?s" using beyond_run [OF st b] by blast+
    show "z \<in># wc_pushed s' - wc_taken s'" by (rule beyond_lost [OF _ reach_rtranclp [OF s st] b'(1)]) simp
    show "size (wc_pushed s') \<le> size (wc_pushed ?s) + 1"
      using b'(2) by (simp add: pushes_left_def wc_two_def split: if_splits)
  qed
  then show ?thesis
    using low run by (intro exI [of _ ?r] exI [of _ ?s] conjI) (simp_all add: wc_two_def)
qed

text \<open>With the elements 1, 2 and 3; the owner then calls \<open>push\<close> for another one.\<close>

theorem wsq_pop_loses_witness:
  "\<exists>s s'. reach (wc_init 2) (wc_step 1) s \<and> wc_pushed s = {#1 :: nat, 2, 3#} \<and> wc_taken s = {#1, 2#} \<and>
    wc_step 1 s s' \<and> wc_owner s' = P_top 4 \<and> 3 \<in># wc_pushed s' - wc_taken s' \<and> size (wc_pushed s') \<le> 4"
proof -
  obtain r s :: "nat wsq_sys" where s: "reach (wc_init 2) (wc_step 1) r" "(wc_step 1)\<^sup>*\<^sup>* r s" "wc_owner s = P_idle"
      "wc_pushed s = {#1, 2, 3#}" "wc_taken s = {#1, 2#}"
    and lost: "\<And>s'. (wc_step 1)\<^sup>*\<^sup>* s s' \<Longrightarrow> 3 \<in># wc_pushed s' - wc_taken s' \<and> size (wc_pushed s') \<le> size (wc_pushed s) + 1"
    using wsq_pop_loses [of 1 2 3] by blast
  have step: "wc_step 1 s (s\<lparr>wc_owner := P_top 4\<rparr>)"
    using p_call [OF s(3), of 4] by (auto simp: wc_step_def)
  then have "(wc_step 1)\<^sup>*\<^sup>* s (s\<lparr>wc_owner := P_top 4\<rparr>)" by blast
  from lost [OF this] show ?thesis using reach_rtranclp [OF s(1,2)] s(4,5) step by (intro exI conjI) auto
qed

end
