(* ===== verification/Task_Model.thy ===== *)
theory Task_Model
  imports Prelude
begin

text \<open>
  What the pools run: \<open>Task\<close> (\<open>include/Task.h\<close>, \<open>src/Task.cpp\<close>), \<open>Worker\<close> (\<open>include/Worker.h\<close>,
  \<open>src/Worker.cpp\<close>), \<open>TaskTrace\<close> (\<open>include/TaskTrace.h\<close>), and the closures that \<open>submit\<close>,
  \<open>submitVoid\<close>, \<open>trySubmit\<close> and \<open>makeTraceableTask\<close> build, which are the same in \<open>ThreadPool\<close> and
  \<open>WorkStealingThreadPool\<close>.

  A callable is a function on the world \<open>'w\<close> it acts on, with the exception it throws, if any. The user's
  callables and the trace sink are parameters. \<open>std::function\<close>, \<open>std::bind\<close> and
  \<open>std::packaged_task\<close> are the standard library's: a packaged task stores the result or the
  exception of its call in the shared state of its future and does not throw.
\<close>

section \<open>\<open>Task\<close> and \<open>Worker\<close>\<close>

type_synonym 'w callable = "'w \<Rightarrow> exn option \<times> 'w"

record 'w task =
  t_func :: "'w callable option"

definition task_default :: "'w task" where
  "task_default = \<lparr>t_func = None\<rparr>"

definition task_make :: "'w callable \<Rightarrow> 'w task" where
  "task_make f = \<lparr>t_func = Some f\<rparr>"

definition task_setFunction :: "'w callable option \<Rightarrow> 'w task \<Rightarrow> 'w task" where
  "task_setFunction f t = t\<lparr>t_func := f\<rparr>"

definition task_execute :: "'w task \<Rightarrow> 'w \<Rightarrow> exn option \<times> 'w" where
  "task_execute t w = (case t_func t of None \<Rightarrow> (None, w) | Some f \<Rightarrow> f w)"

definition task_reset :: "'w task \<Rightarrow> 'w task" where
  "task_reset t = t\<lparr>t_func := None\<rparr>"

text \<open>A worker owns a thread until it has joined it; \<open>join\<close> also tells which thread it waits for.\<close>

record worker =
  wk_thread :: "nat option"

definition worker_make :: "nat \<Rightarrow> worker" where
  "worker_make t = \<lparr>wk_thread = Some t\<rparr>"

definition worker_join :: "worker \<Rightarrow> nat option \<times> worker" where
  "worker_join w = (case wk_thread w of None \<Rightarrow> (None, w) | Some t \<Rightarrow> (Some t, w\<lparr>wk_thread := None\<rparr>))"

section \<open>Task traces\<close>

record trace =
  tr_id :: u64
  tr_submit_ns :: u64
  tr_complete_ns :: u64

text \<open>The world of a pool's tasks: the user's state, the futures (by number), the counter of failed
  tasks, and the process-wide counter of task ids. \<open>clock\<close> is what \<open>nowNs\<close> reads.\<close>

datatype 'r future = Pending | Ready 'r | Raised exn | Broken_promise

record ('u, 'r) world =
  w_user :: 'u
  w_futures :: "nat \<Rightarrow> 'r future"
  w_failed :: u64
  w_next_id :: u64
  w_clock :: u64

definition nextTaskId :: "('u, 'r) world \<Rightarrow> u64 \<times> ('u, 'r) world" where
  "nextTaskId w = (w_next_id w, w\<lparr>w_next_id := w_next_id w + 1\<rparr>)"

definition nowNs :: "('u, 'r) world \<Rightarrow> u64" where
  "nowNs w = w_clock w"

section \<open>The closures\<close>

text \<open>A user function acts on the user's state and the clock and returns a result or throws.\<close>

type_synonym ('u, 'r) user_fun = "'u \<times> u64 \<Rightarrow> (exn + 'r) \<times> ('u \<times> u64)"

definition call_user :: "('u, 'r) user_fun \<Rightarrow> ('u, 'r) world \<Rightarrow> (exn + 'r) \<times> ('u, 'r) world" where
  "call_user f w = (let (r, (u, c)) = f (w_user w, w_clock w) in (r, w\<lparr>w_user := u, w_clock := c\<rparr>))"

text \<open>\<open>[task]() { (*task)(); }\<close> in \<open>submit\<close>; \<open>k\<close> is the future.\<close>

definition packaged :: "nat \<Rightarrow> ('u, 'r) user_fun \<Rightarrow> ('u, 'r) world callable" where
  "packaged k f w =
     (case call_user f w of
        (Inr r, w') \<Rightarrow> (None, w'\<lparr>w_futures := (w_futures w')(k := Ready r)\<rparr>)
      | (Inl e, w') \<Rightarrow> (None, w'\<lparr>w_futures := (w_futures w')(k := Raised e)\<rparr>))"

text \<open>\<open>try { bound(); } catch (...) { self->failed_tasks.fetch_add(1); }\<close> in \<open>submitVoid\<close> and
  \<open>trySubmit\<close>\<close>

definition guarded_void :: "('u, 'r) user_fun \<Rightarrow> ('u, 'r) world callable" where
  "guarded_void f w =
     (case call_user f w of
        (Inr r, w') \<Rightarrow> (None, w')
      | (Inl e, w') \<Rightarrow> (None, w'\<lparr>w_failed := w_failed w' + 1\<rparr>))"

type_synonym ('u, 'r) sink = "trace \<Rightarrow> ('u, 'r) world callable"

text \<open>The closure of \<open>makeTraceableTask\<close>: the body, and if it does not throw, the sink.\<close>

definition traced :: "('u, 'r) world callable \<Rightarrow> ('u, 'r) sink \<Rightarrow> u64 \<Rightarrow> u64 \<Rightarrow> ('u, 'r) world callable" where
  "traced body sink i t0 w =
     (case body w of
        (Some e, w') \<Rightarrow> (Some e, w')
      | (None, w') \<Rightarrow> sink \<lparr>tr_id = i, tr_submit_ns = t0, tr_complete_ns = nowNs w'\<rparr> w')"

text \<open>The tracing switch of a pool: \<open>trace_enabled\<close> and \<open>trace_sink\<close>.\<close>

record ('u, 'r) tracing =
  trc_enabled :: bool
  trc_sink :: "('u, 'r) sink option"

definition setTraceSink :: "('u, 'r) sink option \<Rightarrow> ('u, 'r) tracing \<Rightarrow> ('u, 'r) tracing" where
  "setTraceSink s t =
     (case s of
        Some f \<Rightarrow> (t\<lparr>trc_sink := Some f\<rparr>)\<lparr>trc_enabled := True\<rparr>
      | None \<Rightarrow> (t\<lparr>trc_enabled := False\<rparr>)\<lparr>trc_sink := None\<rparr>)"

definition makeTraceableTask ::
  "('u, 'r) tracing \<Rightarrow> ('u, 'r) world callable \<Rightarrow> ('u, 'r) world \<Rightarrow> ('u, 'r) world task \<times> ('u, 'r) world" where
  "makeTraceableTask t body w =
     (if \<not> trc_enabled t then (task_make body, w)
      else case trc_sink t of
        None \<Rightarrow> (task_make body, w)
      | Some sink \<Rightarrow>
          let (i, w') = nextTaskId w; t0 = nowNs w' in (task_make (traced body sink i t0), w'))"

text \<open>\<open>WorkStealingThreadPool\<close> has a copy of both functions.\<close>

definition ws_setTraceSink :: "('u, 'r) sink option \<Rightarrow> ('u, 'r) tracing \<Rightarrow> ('u, 'r) tracing" where
  "ws_setTraceSink s t =
     (case s of
        Some f \<Rightarrow> t\<lparr>trc_sink := Some f, trc_enabled := True\<rparr>
      | None \<Rightarrow> t\<lparr>trc_enabled := False, trc_sink := None\<rparr>)"

definition ws_makeTraceableTask ::
  "('u, 'r) tracing \<Rightarrow> ('u, 'r) world callable \<Rightarrow> ('u, 'r) world \<Rightarrow> ('u, 'r) world task \<times> ('u, 'r) world" where
  "ws_makeTraceableTask t body w =
     (if trc_enabled t then
        (case trc_sink t of
           Some sink \<Rightarrow>
             (let (i, w1) = nextTaskId w; t0 = nowNs w1 in
              (task_make (\<lambda>w2. case body w2 of
                  (Some e, w3) \<Rightarrow> (Some e, w3)
                | (None, w3) \<Rightarrow> sink \<lparr>tr_id = i, tr_submit_ns = t0, tr_complete_ns = nowNs w3\<rparr> w3), w1))
         | None \<Rightarrow> (task_make body, w))
      else (task_make body, w))"

text \<open>\<open>getFailedTaskCount\<close> of either pool\<close>

definition getFailedTaskCount :: "('u, 'r) world \<Rightarrow> u64" where
  "getFailedTaskCount w = w_failed w"

definition ws_getFailedTaskCount :: "('u, 'r) world \<Rightarrow> u64" where
  "ws_getFailedTaskCount w = w_failed w"

text \<open>The tasks that \<open>submit\<close> and \<open>submitVoid\<close> hand to the queue.\<close>

definition submit_task ::
  "('u, 'r) tracing \<Rightarrow> nat \<Rightarrow> ('u, 'r) user_fun \<Rightarrow> ('u, 'r) world \<Rightarrow> ('u, 'r) world task \<times> ('u, 'r) world" where
  "submit_task t k f w = makeTraceableTask t (packaged k f) w"

definition submitVoid_task ::
  "('u, 'r) tracing \<Rightarrow> ('u, 'r) user_fun \<Rightarrow> ('u, 'r) world \<Rightarrow> ('u, 'r) world task \<times> ('u, 'r) world" where
  "submitVoid_task t f w = makeTraceableTask t (guarded_void f) w"

section \<open>Properties\<close>

lemma packaged_result:
  "packaged k f w = (None, (snd (call_user f w))\<lparr>w_futures := (w_futures (snd (call_user f w)))
     (k := (case fst (call_user f w) of Inr r \<Rightarrow> Ready r | Inl e \<Rightarrow> Raised e))\<rparr>)"
  by (auto simp: packaged_def split: prod.splits sum.splits)

lemma guarded_void_result:
  "guarded_void f w = (None, (case fst (call_user f w) of
     Inr r \<Rightarrow> snd (call_user f w)
   | Inl e \<Rightarrow> (snd (call_user f w))\<lparr>w_failed := w_failed (snd (call_user f w)) + 1\<rparr>))"
  by (auto simp: guarded_void_def split: prod.splits sum.splits)

text \<open>C22: running the task that \<open>submit\<close> makes calls the user's function once, in the world as it is then: the user's
  state and the clock are what that one call leaves, and the future of the submission, and no other, holds its
  result or its exception. Running the one \<open>submitVoid\<close> makes calls it once too, and counts a failure exactly when it
  throws. With tracing on, the sink is then called once, with the id drawn at
  submission, the time of submission and the time after the body, also for a failed task; nothing but
  the sink can let an exception escape to the worker thread.\<close>

theorem submitted_tasks_run:
  "let (r, (u, c)) = f (w_user w, w_clock w);
       after_submit = w\<lparr>w_user := u, w_clock := c,
         w_futures := (w_futures w)(k := (case r of Inr v \<Rightarrow> Ready v | Inl e \<Rightarrow> Raised e))\<rparr>;
       after_void = w\<lparr>w_user := u, w_clock := c, w_failed := w_failed w + (case r of Inr v \<Rightarrow> 0 | Inl e \<Rightarrow> 1)\<rparr>;
       report = (\<lambda>w'. case (if trc_enabled t then trc_sink t else None) of
         None \<Rightarrow> (None, w')
       | Some sink \<Rightarrow> sink \<lparr>tr_id = w_next_id w0, tr_submit_ns = w_clock w0, tr_complete_ns = c\<rparr> w')
   in task_execute (fst (submit_task t k f w0)) w = report after_submit \<and>
      task_execute (fst (submitVoid_task t f w0)) w = report after_void"
  by (auto simp: submit_task_def submitVoid_task_def makeTraceableTask_def task_execute_def task_make_def
      traced_def nextTaskId_def nowNs_def packaged_def guarded_void_def call_user_def Let_def
      split: option.splits prod.splits sum.splits)

text \<open>What is proved of the tasks of \<open>ThreadPool\<close> holds of those of \<open>WorkStealingThreadPool\<close>.\<close>

lemma ws_tracing_same: "ws_setTraceSink = setTraceSink" "ws_makeTraceableTask = makeTraceableTask"
  by (simp_all add: fun_eq_iff ws_setTraceSink_def setTraceSink_def ws_makeTraceableTask_def makeTraceableTask_def
      traced_def [abs_def] Let_def split: option.splits prod.splits)

lemma task_reset_execute: "task_execute (task_reset t) w = (None, w)"
  by (simp add: task_execute_def task_reset_def)

lemma worker_join_once: "worker_join (snd (worker_join w)) = (None, snd (worker_join w))"
  by (simp add: worker_join_def split: option.splits)

end
