(* ===== verification/Memory_Pool.thy ===== *)
theory Memory_Pool
  imports Mutex_Guard Task_Model
begin

text \<open>
  \<open>include/MemoryPool.h\<close> and \<open>src/MemoryPool.cpp\<close>: a pool of \<open>Task\<close> objects in blocks of raw storage,
  with a free list. A task's address is its block and its index in the block. The operations run
  under \<open>mtx_\<close> (\<open>Mutex_Guard\<close>); \<open>release\<close> resets the task before it takes the lock, which is an access
  to memory only the releasing thread owns, so it appears only in the model with a store.

  Allocation failure (\<open>std::bad_alloc\<close>) is not modelled.
\<close>

section \<open>State and operations\<close>

type_synonym addr = "nat \<times> nat"

record mpool =
  mp_expandable :: bool
  mp_initial :: size_t
  mp_blocks :: "size_t list"
  mp_free :: "addr list"

definition block_slots :: "nat \<Rightarrow> size_t \<Rightarrow> addr list" where
  "block_slots b cap = map (Pair b) [0..<unat cap]"

definition mp_addBlock :: "size_t \<Rightarrow> mpool \<Rightarrow> mpool" where
  "mp_addBlock cap p =
     p\<lparr>mp_blocks := mp_blocks p @ [cap], mp_free := mp_free p @ block_slots (length (mp_blocks p)) cap\<rparr>"

definition mp_new :: "size_t \<Rightarrow> bool \<Rightarrow> mpool" where
  "mp_new capacity expandable =
     mp_addBlock capacity \<lparr>mp_expandable = expandable, mp_initial = capacity, mp_blocks = [], mp_free = []\<rparr>"

definition mp_acquire :: "mpool \<Rightarrow> addr option \<times> mpool" where
  "mp_acquire p =
     (if mp_free p = [] \<and> \<not> mp_expandable p then (None, p)
      else
        let p = (if mp_free p = [] then mp_addBlock (if 0 < mp_initial p then mp_initial p else 16) p else p) in
        (Some (last (mp_free p)), p\<lparr>mp_free := butlast (mp_free p)\<rparr>))"

definition mp_release :: "addr \<Rightarrow> mpool \<Rightarrow> mpool" where
  "mp_release a p = p\<lparr>mp_free := mp_free p @ [a]\<rparr>"

definition mp_available :: "mpool \<Rightarrow> size_t" where
  "mp_available p = of_nat (length (mp_free p))"

definition mp_capacity :: "mpool \<Rightarrow> size_t" where
  "mp_capacity p = sum_list (mp_blocks p)"

definition mp_blockCount :: "mpool \<Rightarrow> size_t" where
  "mp_blockCount p = of_nat (length (mp_blocks p))"

definition mp_empty :: "mpool \<Rightarrow> bool" where
  "mp_empty p \<longleftrightarrow> mp_available p = 0"

text \<open>The slots whose tasks \<open>~MemoryPool\<close> destroys, in order; then the blocks free their storage.\<close>

fun mp_destroy_from :: "nat \<Rightarrow> size_t list \<Rightarrow> addr list" where
  "mp_destroy_from b [] = []"
| "mp_destroy_from b (cap # blocks) = map (\<lambda>i. (b, i)) [0..<unat cap] @ mp_destroy_from (Suc b) blocks"

definition mp_destroy :: "mpool \<Rightarrow> addr list" where
  "mp_destroy p = mp_destroy_from 0 (mp_blocks p)"

datatype mp_op = M_acquire | M_release addr | M_available | M_capacity | M_blockCount | M_empty
datatype mp_res = M_ptr "addr option" | M_done | M_size size_t | M_bool bool

fun mp_body :: "mp_op \<Rightarrow> mpool \<Rightarrow> mp_res \<times> mpool" where
  "mp_body M_acquire p = map_prod M_ptr id (mp_acquire p)"
| "mp_body (M_release a) p = (M_done, mp_release a p)"
| "mp_body M_available p = (M_size (mp_available p), p)"
| "mp_body M_capacity p = (M_size (mp_capacity p), p)"
| "mp_body M_blockCount p = (M_size (mp_blockCount p), p)"
| "mp_body M_empty p = (M_bool (mp_empty p), p)"

type_synonym mp_sys = "(mp_op, mp_res, mpool) guarded"

definition mp_init :: "size_t \<Rightarrow> bool \<Rightarrow> mp_sys \<Rightarrow> bool" where
  "mp_init capacity expandable = guarded_init (mp_new capacity expandable)"

definition mp_step :: "mp_sys \<Rightarrow> mp_sys \<Rightarrow> bool" where
  "mp_step = guarded_step mp_body"

section \<open>Slots, free tasks and tasks in use\<close>

definition mp_slots :: "mpool \<Rightarrow> addr list" where
  "mp_slots p = concat (map (\<lambda>b. block_slots b (mp_blocks p ! b)) [0..<length (mp_blocks p)])"

text \<open>The addresses handed out and not yet released after a sequence of operations; \<open>None\<close> if one was
  released that was not handed out.\<close>

fun mp_in_use :: "addr list \<Rightarrow> (mp_op \<times> mp_res) list \<Rightarrow> addr list option" where
  "mp_in_use u [] = Some u"
| "mp_in_use u ((M_acquire, M_ptr (Some a)) # l) = mp_in_use (a # u) l"
| "mp_in_use u ((M_release a, r) # l) = (if a \<in> set u then mp_in_use (remove1 a u) l else None)"
| "mp_in_use u (_ # l) = mp_in_use u l"

text \<open>The blocks a pool can have: the first of the requested size, all others of the growth size.\<close>

definition mp_growth :: "size_t \<Rightarrow> size_t" where
  "mp_growth initial = (if 0 < initial then initial else 16)"

definition mp_ok :: "size_t \<Rightarrow> bool \<Rightarrow> mpool \<Rightarrow> addr list \<Rightarrow> bool" where
  "mp_ok c e p u \<longleftrightarrow>
     mp_expandable p = e \<and> mp_initial p = c \<and>
     (\<exists>k. mp_blocks p = c # replicate k (mp_growth c) \<and> (\<not> e \<longrightarrow> k = 0)) \<and>
     mset (mp_free p) + mset u = mset (mp_slots p)"

lemma mp_slots_addBlock: "mp_slots (mp_addBlock c p) = mp_slots p @ block_slots (length (mp_blocks p)) c"
proof -
  have "map (\<lambda>b. block_slots b ((mp_blocks p @ [c]) ! b)) [0..<length (mp_blocks p)] =
      map (\<lambda>b. block_slots b (mp_blocks p ! b)) [0..<length (mp_blocks p)]"
    by (rule map_cong) (simp_all add: nth_append)
  from arg_cong [OF this, of concat] show ?thesis by (simp add: mp_slots_def mp_addBlock_def)
qed

lemma mp_slots_frame [simp]: "mp_slots (p\<lparr>mp_free := f\<rparr>) = mp_slots p"
  by (simp add: mp_slots_def)

lemma set_block_slots: "set (block_slots b c) = {b} \<times> {..<unat c}"
  by (auto simp: block_slots_def)

lemma distinct_mp_slots: "distinct (mp_slots p)"
proof -
  have "distinct (concat (map (\<lambda>b. block_slots b (f b)) [0..<n]))" for f :: "nat \<Rightarrow> size_t" and n
    by (induction n) (auto simp: set_block_slots block_slots_def distinct_map inj_on_def)
  then show ?thesis by (simp add: mp_slots_def)
qed

lemma mp_okD:
  assumes "mp_ok c e p u"
  shows "distinct (mp_free p @ u)" "set (mp_free p) \<union> set u = set (mp_slots p)"
    "length (mp_free p) + length u = length (mp_slots p)"
proof -
  have m: "mset (mp_free p @ u) = mset (mp_slots p)" using assms by (simp add: mp_ok_def)
  show "distinct (mp_free p @ u)" using mset_eq_imp_distinct_iff [OF m] distinct_mp_slots by blast
  show "set (mp_free p) \<union> set u = set (mp_slots p)" using mset_eq_setD [OF m] by simp
  show "length (mp_free p) + length u = length (mp_slots p)" using mset_eq_length [OF m] by simp
qed

text \<open>The destructor destroys every slot once, free or in use.\<close>

lemma mp_destroy_from_slots:
  "mp_destroy_from b cs = concat (map (\<lambda>k. block_slots (b + k) (cs ! k)) [0..<length cs])"
proof (induction cs arbitrary: b)
  case (Cons c cs)
  have "[0..<length (c # cs)] = 0 # map Suc [0..<length cs]" by (simp add: upt_conv_Cons map_Suc_upt del: upt_Suc)
  then show ?case using Cons [of "Suc b"] by (simp add: block_slots_def comp_def del: upt_Suc)
qed simp

lemma mp_destroy_all:
  assumes "mp_ok c e p u"
  shows "distinct (mp_destroy p)" "mset (mp_destroy p) = mset (mp_free p) + mset u"
  using distinct_mp_slots [of p] assms by (simp_all add: mp_destroy_def mp_destroy_from_slots mp_slots_def mp_ok_def)

lemma mp_new_ok: "mp_ok c e (mp_new c e) []"
  by (auto simp: mp_ok_def mp_new_def mp_slots_addBlock) (simp_all add: mp_addBlock_def mp_slots_def)

lemma mp_growth_slots: "block_slots b (mp_growth c) \<noteq> []"
  by (auto simp: block_slots_def mp_growth_def word_neq_0_conv unat_gt_0)

lemma mp_acquire_ok:
  assumes ok: "mp_ok c e p u"
  shows "mp_free p = [] \<Longrightarrow> \<not> e \<Longrightarrow> mp_acquire p = (None, p)"
    and "mp_free p \<noteq> [] \<or> e \<Longrightarrow> \<exists>a p'. mp_acquire p = (Some a, p') \<and> mp_ok c e p' (a # u) \<and> a \<notin> set u"
proof -
  have e: "mp_expandable p = e" "mp_initial p = c" using ok by (simp_all add: mp_ok_def)
  show "mp_free p = [] \<Longrightarrow> \<not> e \<Longrightarrow> mp_acquire p = (None, p)" by (simp add: mp_acquire_def e)
  assume some: "mp_free p \<noteq> [] \<or> e"
  let ?p = "if mp_free p = [] then mp_addBlock (mp_growth c) p else p"
  have ok': "mp_ok c e ?p u"
  proof (cases "mp_free p = []")
    case True
    obtain k where k: "mp_blocks p = c # replicate k (mp_growth c)" using ok by (auto simp: mp_ok_def)
    have "\<exists>k. mp_blocks (mp_addBlock (mp_growth c) p) = c # replicate k (mp_growth c) \<and> (\<not> e \<longrightarrow> k = 0)"
      by (rule exI [of _ "Suc k"]) (use k True some in \<open>simp add: mp_addBlock_def replicate_append_same\<close>)
    moreover have "mset (mp_free (mp_addBlock (mp_growth c) p)) + mset u = mset (mp_slots (mp_addBlock (mp_growth c) p))"
      using ok True by (simp add: mp_ok_def mp_slots_addBlock) (simp add: mp_addBlock_def)
    moreover have "mp_expandable (mp_addBlock (mp_growth c) p) = e" "mp_initial (mp_addBlock (mp_growth c) p) = c"
      by (simp_all add: mp_addBlock_def e)
    ultimately show ?thesis using True unfolding mp_ok_def by simp
  qed (use ok in simp)
  define r where "r = ?p"
  have ok: "mp_ok c e r u" unfolding r_def by (rule ok')
  have ne: "mp_free r \<noteq> []" using mp_growth_slots by (simp add: r_def mp_addBlock_def)
  have acq: "mp_acquire p = (Some (last (mp_free r)), r\<lparr>mp_free := butlast (mp_free r)\<rparr>)"
    using some by (auto simp: r_def mp_acquire_def e mp_growth_def Let_def)
  have "mset (butlast (mp_free r)) + mset (last (mp_free r) # u) = mset (mp_slots r)"
    using ok mset_last_butlast [OF ne] unfolding mp_ok_def
    by (metis mset.simps(2) union_mset_add_mset_left union_mset_add_mset_right)
  then have ok'': "mp_ok c e (r\<lparr>mp_free := butlast (mp_free r)\<rparr>) (last (mp_free r) # u)"
    using ok by (simp add: mp_ok_def)
  from mp_okD(1) [OF this] have "last (mp_free r) \<notin> set u" by simp
  then show "\<exists>a p'. mp_acquire p = (Some a, p') \<and> mp_ok c e p' (a # u) \<and> a \<notin> set u"
    using acq ok'' by blast
qed

lemma mp_release_ok:
  assumes "mp_ok c e p u" "a \<in> set u"
  shows "mp_ok c e (mp_release a p) (remove1 a u)"
proof -
  have "mset (mp_free p @ [a]) + mset (remove1 a u) = mset (mp_free p) + mset u" using assms(2) by simp
  then show ?thesis using assms(1) unfolding mp_ok_def mp_release_def by simp
qed

lemma mp_run_ok:
  "mp_ok c e p u \<Longrightarrow> run_spec mp_body ops p = (rs, p') \<Longrightarrow> mp_in_use u (zip ops rs) = Some u' \<Longrightarrow> mp_ok c e p' u'"
proof (induction ops arbitrary: p u rs)
  case Nil
  then show ?case by simp
next
  case (Cons x ops)
  obtain r p1 where x: "mp_body x p = (r, p1)" by fastforce
  obtain rs' where rs: "rs = r # rs'" "run_spec mp_body ops p1 = (rs', p')"
    using Cons.prems(2) x by (auto simp: Let_def split: prod.splits)
  show ?case
  proof (cases x)
    case M_acquire
    show ?thesis
    proof (cases "mp_free p \<noteq> [] \<or> e")
      case True
      obtain a where a: "r = M_ptr (Some a)" "mp_ok c e p1 (a # u)"
        using mp_acquire_ok(2) [OF Cons.prems(1) True] x M_acquire by auto
      then show ?thesis using Cons.IH [OF a(2) rs(2)] Cons.prems(3) rs(1) M_acquire by simp
    next
      case False
      then have "r = M_ptr None" "p1 = p" using mp_acquire_ok(1) [OF Cons.prems(1)] x M_acquire by simp_all
      then show ?thesis using Cons.IH [of p u rs'] Cons.prems rs M_acquire by simp
    qed
  next
    case (M_release a)
    then have "a \<in> set u" "p1 = mp_release a p" using Cons.prems(3) rs(1) x by (auto split: if_splits)
    then show ?thesis
      using Cons.IH [of p1 "remove1 a u" rs'] mp_release_ok [OF Cons.prems(1)] Cons.prems(3) rs M_release by simp
  qed (use x Cons.IH [of p u rs'] Cons.prems rs in \<open>auto split: mp_res.splits\<close>)
qed

section \<open>The tasks in the blocks\<close>

text \<open>A pool with its storage, as one client uses it: it acquires tasks, sets their functions, and
  releases tasks it has acquired.\<close>

type_synonym 'w store = "addr \<Rightarrow> 'w task"

definition mps_new :: "size_t \<Rightarrow> bool \<Rightarrow> mpool \<times> 'w store" where
  "mps_new c e = (mp_new c e, (\<lambda>_. task_default))"

text \<open>\<open>new (p + i * sizeof(Task)) Task()\<close> constructs the tasks of a block that \<open>acquire\<close> adds.\<close>

definition mps_acquire :: "mpool \<times> 'w store \<Rightarrow> addr option \<times> (mpool \<times> 'w store)" where
  "mps_acquire s =
     (let (p, st) = s; (a, p') = mp_acquire p; new = set (mp_slots p') - set (mp_slots p) in
      (a, (p', \<lambda>x. if x \<in> new then task_default else st x)))"

definition mps_release :: "addr \<Rightarrow> mpool \<times> 'w store \<Rightarrow> mpool \<times> 'w store" where
  "mps_release a s = (let (p, st) = s in (mp_release a p, st(a := task_reset (st a))))"

definition mps_set :: "addr \<Rightarrow> 'w callable option \<Rightarrow> mpool \<times> 'w store \<Rightarrow> mpool \<times> 'w store" where
  "mps_set a f s = (let (p, st) = s in (p, st(a := task_setFunction f (st a))))"

text \<open>The steps of a client that respects ownership: \<open>u\<close> are the tasks it holds.\<close>

inductive mps_client :: "addr list \<times> mpool \<times> 'w store \<Rightarrow> addr list \<times> mpool \<times> 'w store \<Rightarrow> bool" where
  acquire: "mps_acquire s = (Some a, s') \<Longrightarrow> mps_client (u, s) (a # u, s')"
| exhausted: "mps_acquire s = (None, s') \<Longrightarrow> mps_client (u, s) (u, s')"
| assign: "a \<in> set u \<Longrightarrow> mps_client (u, s) (u, mps_set a f s)"
| release: "a \<in> set u \<Longrightarrow> mps_client (u, s) (remove1 a u, mps_release a s)"

definition mps_inv :: "size_t \<Rightarrow> bool \<Rightarrow> addr list \<times> mpool \<times> 'w store \<Rightarrow> bool" where
  "mps_inv c e x = (case x of (u, p, st) \<Rightarrow>
     mp_ok c e p u \<and> (\<forall>a\<in>set (mp_free p). st a = task_default))"

lemma mp_acquire_free:
  assumes ok: "mp_ok c e p u" and acq: "mp_acquire p = (a, p')"
  shows "set (mp_free p') \<subseteq> set (mp_free p) \<union> (set (mp_slots p') - set (mp_slots p))"
proof (cases "mp_free p = []")
  case True
  then have "set (mp_slots p) = set u" using mp_okD(2) [OF ok] by simp
  moreover have "set (mp_free p') \<subseteq> set (mp_slots p') \<and> set (mp_free p') \<inter> set u = {}"
  proof (cases e)
    case True
    then obtain b where "mp_ok c e p' (b # u)" using mp_acquire_ok(2) [OF ok] acq by auto
    from mp_okD(1,2) [OF this] show ?thesis by auto
  next
    case False
    then have "p' = p" using mp_acquire_ok(1) [OF ok] acq True by simp
    then show ?thesis using True by simp
  qed
  ultimately show ?thesis by blast
next
  case False
  then have "mp_free p' = butlast (mp_free p)" using acq by (auto simp: mp_acquire_def Let_def)
  then show ?thesis by (auto dest: in_set_butlastD)
qed

lemma mps_inv_step:
  assumes inv: "mps_inv c e x" and step: "mps_client x y"
  shows "mps_inv c e y"
  using step
proof cases
  case (acquire s a s' u)
  obtain p st where s: "s = (p, st)" by fastforce
  then have ok: "mp_ok c e p u" and st: "\<forall>a\<in>set (mp_free p). st a = task_default"
    using inv acquire(1) by (auto simp: mps_inv_def)
  obtain p' where p': "mp_acquire p = (Some a, p')"
      "s' = (p', \<lambda>x. if x \<in> set (mp_slots p') - set (mp_slots p) then task_default else st x)"
    using acquire(3) by (auto simp: mps_acquire_def s Let_def split: prod.splits)
  have "mp_ok c e p' (a # u)" using mp_acquire_ok [OF ok] p'(1) by (cases "mp_free p \<noteq> [] \<or> e") auto
  then show ?thesis
    using mp_acquire_free [OF ok p'(1)] ok st unfolding acquire(2) p'(2) by (auto simp: mps_inv_def)
next
  case (exhausted s s' u)
  obtain p st where s: "s = (p, st)" by fastforce
  then have ok: "mp_ok c e p u" and st: "\<forall>a\<in>set (mp_free p). st a = task_default"
    using inv exhausted(1) by (auto simp: mps_inv_def)
  obtain p' where p': "mp_acquire p = (None, p')"
      "s' = (p', \<lambda>x. if x \<in> set (mp_slots p') - set (mp_slots p) then task_default else st x)"
    using exhausted(3) by (auto simp: mps_acquire_def s Let_def split: prod.splits)
  then have "p' = p" using mp_acquire_ok [OF ok] by (cases "mp_free p \<noteq> [] \<or> e") auto
  then show ?thesis using ok st unfolding exhausted(2) p'(2) by (simp add: mps_inv_def)
next
  case (assign a u s f)
  obtain p st where s: "s = (p, st)" by fastforce
  then have "mp_ok c e p u" using inv assign(1) by (simp add: mps_inv_def)
  from mp_okD(1) [OF this] have "a \<notin> set (mp_free p)" using assign(3) by auto
  then show ?thesis using inv assign(1,2) s by (auto simp: mps_inv_def mps_set_def)
next
  case (release a u s)
  obtain p st where s: "s = (p, st)" by fastforce
  have "task_reset t = task_default" for t :: "'a task" by (simp add: task_reset_def task_default_def)
  then show ?thesis
    using inv release mp_release_ok [of c e p u a] s
    by (auto simp: mps_inv_def mps_release_def) (auto simp: mp_release_def)
qed

interpretation mps: inductive_invariant "\<lambda>x. x = ([], mps_new c e)" mps_client "mps_inv c e" for c e
proof unfold_locales
  show "x = ([], mps_new c e) \<Longrightarrow> mps_inv c e x" for x :: "addr list \<times> mpool \<times> 'a store"
    by (simp add: mps_inv_def mps_new_def mp_new_ok)
  show "mps_inv c e x \<Longrightarrow> mps_client x y \<Longrightarrow> mps_inv c e y" for x y :: "addr list \<times> mpool \<times> 'a store"
    by (rule mps_inv_step)
qed

section \<open>Properties\<close>

text \<open>C23: however many threads use the pool, as long as only tasks in use are released, no task is handed
  out twice: free tasks and tasks in use are different, and together they are exactly the slots
  of the blocks; the blocks are the first one and, in an expandable pool, blocks of the growth size.
  The next \<open>acquire\<close> fails exactly when the pool is not expandable and every slot is in use.\<close>

theorem memory_pool_partition:
  assumes "reach (mp_init c e) mp_step g" and "mp_in_use [] (g_log g) = Some u"
  shows "distinct (mp_free (g_object g) @ u) \<and> set (mp_free (g_object g)) \<union> set u = set (mp_slots (g_object g)) \<and>
    (\<exists>k. mp_blocks (g_object g) = c # replicate k (mp_growth c) \<and> (\<not> e \<longrightarrow> k = 0)) \<and>
    (case fst (mp_acquire (g_object g)) of
       None \<Rightarrow> \<not> e \<and> set u = set (mp_slots (g_object g))
     | Some a \<Rightarrow> a \<notin> set u)"
proof -
  have "run_spec mp_body (map fst (g_log g)) (mp_new c e) = (map snd (g_log g), g_object g)"
    using guarded_sequential [of "mp_new c e" mp_body g] assms(1) by (simp add: mp_init_def mp_step_def)
  moreover have "zip (map fst (g_log g)) (map snd (g_log g)) = g_log g" by (rule zip_map_fst_snd)
  ultimately have ok: "mp_ok c e (g_object g) u"
    using mp_run_ok [OF mp_new_ok] assms(2) by metis
  note d = mp_okD [OF ok]
  have "\<exists>k. mp_blocks (g_object g) = c # replicate k (mp_growth c) \<and> (\<not> e \<longrightarrow> k = 0)"
    using ok by (simp add: mp_ok_def)
  moreover have "case fst (mp_acquire (g_object g)) of
      None \<Rightarrow> \<not> e \<and> set u = set (mp_slots (g_object g)) | Some a \<Rightarrow> a \<notin> set u"
    using mp_acquire_ok [OF ok] d(2) by (cases "mp_free (g_object g) \<noteq> [] \<or> e") auto
  ultimately show ?thesis using d(1,2) by blast
qed

text \<open>C24: tasks are recycled clean: for a client that sets the functions only of tasks it has acquired and
  releases only those, every task \<open>acquire\<close> hands out has no function, whatever earlier users of the
  same storage have set, and is not one the client still holds.\<close>

theorem memory_pool_recycles_clean:
  assumes "reach (\<lambda>x. x = ([], mps_new c e)) mps_client (u, s)" and "mps_acquire s = (Some a, s')"
  shows "snd s' a = task_default \<and> a \<notin> set u \<and> task_execute (snd s' a) w = (None, w)"
proof -
  obtain p st where s: "s = (p, st)" by fastforce
  have inv: "mp_ok c e p u" "\<forall>x\<in>set (mp_free p). st x = task_default"
    using mps.inv_reach [OF assms(1)] by (simp_all add: s mps_inv_def)
  obtain p' where p': "mp_acquire p = (Some a, p')"
      "s' = (p', \<lambda>x. if x \<in> set (mp_slots p') - set (mp_slots p) then task_default else st x)"
    using assms(2) by (auto simp: mps_acquire_def s Let_def split: prod.splits)
  obtain b p'' where b: "mp_acquire p = (Some b, p'')" "mp_ok c e p'' (b # u)" "b \<notin> set u"
    using mp_acquire_ok [OF inv(1)] p'(1) by (cases "mp_free p \<noteq> [] \<or> e") auto
  then have a: "a \<in> set (mp_slots p')" "a \<notin> set u" using mp_okD(2) [OF b(2)] p'(1) by auto
  have "a \<in> set (mp_free p)" if "a \<in> set (mp_slots p)" using that a(2) mp_okD(2) [OF inv(1)] by blast
  then have "snd s' a = task_default" using a(1) inv(2) by (auto simp: p'(2))
  then show ?thesis using a(2) by (simp add: task_execute_def task_default_def)
qed

text \<open>The witnesses: a pool of one task; it is acquired, given a function, released and acquired again.\<close>

lemma mp_example:
  "\<exists>g. reach (mp_init 1 False) mp_step g \<and> g_log g = [(M_acquire, M_ptr (Some (0, 0)))]"
proof -
  let ?g0 = "\<lparr>g_object = mp_new 1 False, g_mutex = None, g_pc = (\<lambda>_. Outside), g_log = []\<rparr> :: mp_sys"
  have "reach (mp_init 1 False) mp_step ?g0" by (rule reach_init) (simp add: mp_init_def guarded_init_def)
  from reach_step [OF this, unfolded mp_step_def, OF guarded_step.call [of _ 0 _ M_acquire]]
  have "reach (mp_init 1 False) mp_step (?g0\<lparr>g_pc := (\<lambda>_. Outside)(0 := At_lock M_acquire)\<rparr>)"
    by (simp add: mp_step_def)
  from reach_step [OF this, unfolded mp_step_def, OF guarded_step.lock [of _ 0 M_acquire]]
  have "reach (mp_init 1 False) mp_step
      (?g0\<lparr>g_mutex := Some 0, g_pc := (\<lambda>_. Outside)(0 := Inside M_acquire)\<rparr>)" by (simp add: mp_step_def)
  from reach_step [OF this, unfolded mp_step_def, OF guarded_step.body_read [of _ 0 M_acquire]]
  have "reach (mp_init 1 False) mp_step
      (?g0\<lparr>g_mutex := Some 0, g_pc := (\<lambda>_. Outside)(0 := In_body M_acquire (mp_new 1 False))\<rparr>)"
    by (simp add: mp_step_def)
  then have r: "reach (mp_init 1 False) mp_step
      (?g0\<lparr>g_mutex := Some 0, g_pc := (\<lambda>_. Outside)(0 := In_body M_acquire (mp_new 1 False))\<rparr>)"
    (is "reach _ _ ?g") .
  have "guarded_step mp_body ?g (?g\<lparr>g_object := (mp_new 1 False)\<lparr>mp_free := []\<rparr>,
      g_pc := (g_pc ?g)(0 := At_unlock (M_ptr (Some (0, 0)))), g_log := g_log ?g @ [(M_acquire, M_ptr (Some (0, 0)))]\<rparr>)"
    by (rule guarded_step.body_write [of _ _ _ "mp_new 1 False"])
      (simp_all add: mp_new_def mp_acquire_def mp_addBlock_def block_slots_def)
  from reach_step [OF r, unfolded mp_step_def, OF this] show ?thesis
    unfolding mp_step_def by (intro exI conjI) (assumption, simp)
qed

theorem memory_pool_partition_witness:
  "\<exists>g. reach (mp_init 1 False) mp_step g \<and> distinct (mp_free (g_object g) @ [(0, 0)])"
proof -
  obtain g where g: "reach (mp_init 1 False) mp_step g" "g_log g = [(M_acquire, M_ptr (Some (0, 0)))]"
    using mp_example by blast
  have "mp_in_use [] (g_log g) = Some [(0, 0)]" by (simp add: g(2))
  then show ?thesis using memory_pool_partition [OF g(1)] g(1) by blast
qed

theorem memory_pool_recycles_clean_witness:
  "\<exists>s s'. reach (\<lambda>x. x = ([], mps_new 1 False :: mpool \<times> nat store)) mps_client ([], s) \<and>
     mps_acquire s = (Some (0, 0), s') \<and> snd s' (0, 0) = task_default"
proof -
  let ?s0 = "mps_new 1 False :: mpool \<times> nat store" and ?f = "Some (\<lambda>w. (None, w + 1)) :: nat callable option"
  let ?R = "reach (\<lambda>x. x = ([], ?s0)) mps_client"
  obtain s1 where s1: "mps_acquire ?s0 = (Some (0, 0), s1)"
    by (simp add: mps_new_def mps_acquire_def mp_new_def mp_acquire_def mp_addBlock_def block_slots_def)
  have "?R ([], ?s0)" by (rule reach_init) simp
  from reach_step [OF this mps_client.acquire [OF s1]] have "?R ([(0, 0)], s1)" .
  from reach_step [OF this mps_client.assign [of "(0, 0)" _ _ ?f]]
  have "?R ([(0, 0)], mps_set (0, 0) ?f s1)" by simp
  from reach_step [OF this mps_client.release [of "(0, 0)"]]
  have r: "?R ([], mps_release (0, 0) (mps_set (0, 0) ?f s1))" by simp
  obtain s2 where "mps_acquire (mps_release (0, 0) (mps_set (0, 0) ?f s1)) = (Some (0, 0), s2)"
    using s1
    by (auto simp: mps_new_def mps_acquire_def mp_new_def mp_acquire_def mp_addBlock_def block_slots_def
        mps_release_def mps_set_def mp_release_def)
  then show ?thesis using memory_pool_recycles_clean [OF r] r by blast
qed

end
