(* ===== verification/Thread_Pool.thy ===== *)
theory Thread_Pool
  imports Ring_Buffer
begin

text \<open>
  \<open>include/ThreadPool.h\<close> and \<open>src/ThreadPool.cpp\<close>: worker threads, a bounded ring of tasks behind one
  mutex, two condition variables, a rejection policy, and a shutdown that drains. The queue is the
  model of \<open>RingBuffer\<close>; what a task does when it is executed is in \<open>Task_Model\<close>, so a task is any value
  here and its execution a step.

  A critical section (from taking \<open>mtx\<close> to the point where it is released) is one step between a lock and an
  unlock step: \<open>tasks\<close> is accessed, and \<open>stop\<close> written, only under \<open>mtx\<close>. \<open>wait\<close> releases the mutex and goes
  to sleep in one step, as condition variables do; sleeping threads may wake without notification.
\<close>

section \<open>The critical sections\<close>

datatype policy = BLOCK | DISCARD | THROW

datatype 't admission = Wait | Rejected | Throws exn | Accepted_by "'t ring"

definition tp_push_checked :: "bool \<Rightarrow> 't \<Rightarrow> 't ring \<Rightarrow> 't admission" where
  "tp_push_checked stop x r =
     (if stop then Throws (Runtime_error ''submit on stopped ThreadPool.'') else Accepted_by (snd (rb_push x r)))"

text \<open>\<open>enqueueTask\<close> with the mutex held; \<open>Wait\<close> is a false predicate of \<open>not_full_cv.wait\<close>.\<close>

definition tp_enqueue :: "policy \<Rightarrow> bool \<Rightarrow> 't \<Rightarrow> 't ring \<Rightarrow> 't admission" where
  "tp_enqueue policy stop x r =
     (case policy of
        BLOCK \<Rightarrow> if stop \<or> \<not> rb_full r then tp_push_checked stop x r else Wait
      | DISCARD \<Rightarrow> if rb_full r then Rejected else tp_push_checked stop x r
      | THROW \<Rightarrow> if rb_full r then Throws (Runtime_error ''task queue is full.'') else tp_push_checked stop x r)"

definition tp_tryEnqueue :: "bool \<Rightarrow> 't \<Rightarrow> 't ring \<Rightarrow> 't admission" where
  "tp_tryEnqueue stop x r = (if stop \<or> rb_full r then Rejected else Accepted_by (snd (rb_push x r)))"

text \<open>A worker with the mutex held: the predicate of \<open>cv.wait\<close>, the exit test and \<open>tasks.pop\<close>.\<close>

datatype 't grab = Sleep | Leave | Again | Grab_throws exn | Grabbed 't "'t ring"

definition tp_grab :: "bool \<Rightarrow> 't ring \<Rightarrow> 't grab" where
  "tp_grab stop r =
     (if \<not> (stop \<or> \<not> rb_empty r) then Sleep
      else if stop \<and> rb_empty r then Leave
      else case rb_pop r of
             Inl e \<Rightarrow> Grab_throws e
           | Inr (None, r') \<Rightarrow> Again
           | Inr (Some x, r') \<Rightarrow> Grabbed x r')"

section \<open>Threads and steps\<close>

datatype 't wk_pc =
    K_lock | K_crit | K_asleep
  | K_notify 't                  \<comment> \<open>task popped, \<open>mtx\<close> held\<close>
  | K_unlock 't | K_busy 't | K_run 't | K_unbusy | K_complete
  | K_unlock_again | K_unlock_exit | K_exit
  | K_terminate                  \<comment> \<open>an exception has escaped the thread\<close>

datatype result = R_accepted | R_rejected | R_threw exn

datatype kind = Submit | Try

text \<open>Clients call \<open>submit\<close> or \<open>submitVoid\<close> (\<open>Submit\<close>), \<open>trySubmit\<close> (\<open>Try\<close>), or \<open>shutdown\<close> (\<open>H_\<close>).\<close>

datatype 't cl_pc =
    L_idle
  | L_try 't                     \<comment> \<open>\<open>trySubmit\<close> about to read \<open>stop\<close>\<close>
  | L_lock kind 't | L_crit kind 't | L_asleep 't
  | L_unlock result | L_notify | L_end result
  | H_lock | H_crit | H_unlock_return | H_unlock | H_notify_workers | H_notify_producers
  | H_spin | H_join nat | H_done

datatype tid = Wk nat | Cl nat

text \<open>\<open>tp_accepted\<close>, \<open>tp_started\<close>, \<open>tp_executed\<close> record the tasks put into the queue, taken out of it, and
  executed; no step reads them.\<close>

record 't pool =
  tp_ring :: "'t ring"
  tp_mtx :: "tid option"
  tp_stop :: bool
  tp_policy :: policy
  tp_active :: u32
  tp_submitted :: u64
  tp_completed :: u64
  tp_busy :: u64
  tp_wk :: "nat \<Rightarrow> 't wk_pc"
  tp_cl :: "nat \<Rightarrow> 't cl_pc"
  tp_accepted :: "'t list"
  tp_started :: "'t list"
  tp_executed :: "'t list"

definition tp_init :: "size_t \<Rightarrow> policy \<Rightarrow> 't pool \<Rightarrow> bool" where
  "tp_init queue_size p s \<longleftrightarrow>
     (\<exists>r. rb_new queue_size = Inr r \<and>
       s = \<lparr>tp_ring = r, tp_mtx = None, tp_stop = False, tp_policy = p, tp_active = 0, tp_submitted = 0,
            tp_completed = 0, tp_busy = 0, tp_wk = (\<lambda>_. K_lock), tp_cl = (\<lambda>_. L_idle),
            tp_accepted = [], tp_started = [], tp_executed = []\<rparr>)"

abbreviation wk_to :: "nat \<Rightarrow> 't wk_pc \<Rightarrow> 't pool \<Rightarrow> 't pool" where
  "wk_to i p s \<equiv> s\<lparr>tp_wk := (tp_wk s)(i := p)\<rparr>"

abbreviation cl_to :: "nat \<Rightarrow> 't cl_pc \<Rightarrow> 't pool \<Rightarrow> 't pool" where
  "cl_to c p s \<equiv> s\<lparr>tp_cl := (tp_cl s)(c := p)\<rparr>"

text \<open>The steps of \<open>n\<close> workers.\<close>

inductive wk_step :: "nat \<Rightarrow> 't pool \<Rightarrow> 't pool \<Rightarrow> bool" for n :: nat where
  w_lock: "i < n \<Longrightarrow> tp_wk s i = K_lock \<Longrightarrow> tp_mtx s = None \<Longrightarrow>
    wk_step n s (wk_to i K_crit (s\<lparr>tp_mtx := Some (Wk i)\<rparr>))"
| w_sleep: "i < n \<Longrightarrow> tp_wk s i = K_crit \<Longrightarrow> tp_grab (tp_stop s) (tp_ring s) = Sleep \<Longrightarrow>
    wk_step n s (wk_to i K_asleep (s\<lparr>tp_mtx := None\<rparr>))"
| w_leave: "i < n \<Longrightarrow> tp_wk s i = K_crit \<Longrightarrow> tp_grab (tp_stop s) (tp_ring s) = Leave \<Longrightarrow>
    wk_step n s (wk_to i K_unlock_exit s)"
| w_again: "i < n \<Longrightarrow> tp_wk s i = K_crit \<Longrightarrow> tp_grab (tp_stop s) (tp_ring s) = Again \<Longrightarrow>
    wk_step n s (wk_to i K_unlock_again s)"
| w_throw: "i < n \<Longrightarrow> tp_wk s i = K_crit \<Longrightarrow> tp_grab (tp_stop s) (tp_ring s) = Grab_throws e \<Longrightarrow>
    wk_step n s (wk_to i K_terminate s)"
| w_pop: "i < n \<Longrightarrow> tp_wk s i = K_crit \<Longrightarrow> tp_grab (tp_stop s) (tp_ring s) = Grabbed x r \<Longrightarrow>
    wk_step n s (wk_to i (K_notify x) (s\<lparr>tp_ring := r, tp_started := tp_started s @ [x]\<rparr>))"
| w_notify: "i < n \<Longrightarrow> tp_wk s i = K_notify x \<Longrightarrow> tp_cl s c = L_asleep y \<Longrightarrow>
    wk_step n s (wk_to i (K_unlock x) (cl_to c (L_lock Submit y) s))"
| w_notify_none: "i < n \<Longrightarrow> tp_wk s i = K_notify x \<Longrightarrow> (\<forall>c y. tp_cl s c \<noteq> L_asleep y) \<Longrightarrow>
    wk_step n s (wk_to i (K_unlock x) s)"
| w_unlock: "i < n \<Longrightarrow> tp_wk s i = K_unlock x \<Longrightarrow>
    wk_step n s (wk_to i (K_busy x) (s\<lparr>tp_mtx := None\<rparr>))"
| w_busy: "i < n \<Longrightarrow> tp_wk s i = K_busy x \<Longrightarrow>
    wk_step n s (wk_to i (K_run x) (s\<lparr>tp_busy := tp_busy s + 1\<rparr>))"
| w_run: "i < n \<Longrightarrow> tp_wk s i = K_run x \<Longrightarrow>
    wk_step n s (wk_to i K_unbusy (s\<lparr>tp_executed := tp_executed s @ [x]\<rparr>))"
| w_unbusy: "i < n \<Longrightarrow> tp_wk s i = K_unbusy \<Longrightarrow>
    wk_step n s (wk_to i K_complete (s\<lparr>tp_busy := tp_busy s - 1\<rparr>))"
| w_complete: "i < n \<Longrightarrow> tp_wk s i = K_complete \<Longrightarrow>
    wk_step n s (wk_to i K_lock (s\<lparr>tp_completed := tp_completed s + 1\<rparr>))"
| w_unlock_again: "i < n \<Longrightarrow> tp_wk s i = K_unlock_again \<Longrightarrow>
    wk_step n s (wk_to i K_lock (s\<lparr>tp_mtx := None\<rparr>))"
| w_unlock_exit: "i < n \<Longrightarrow> tp_wk s i = K_unlock_exit \<Longrightarrow>
    wk_step n s (wk_to i K_exit (s\<lparr>tp_mtx := None\<rparr>))"
| w_wake: "i < n \<Longrightarrow> tp_wk s i = K_asleep \<Longrightarrow> wk_step n s (wk_to i K_lock s)"

text \<open>\<open>submit\<close>, \<open>submitVoid\<close> and \<open>trySubmit\<close> by \<open>m\<close> clients.\<close>

definition admit :: "kind \<Rightarrow> 't \<Rightarrow> 't pool \<Rightarrow> 't admission" where
  "admit k x s = (case k of Submit \<Rightarrow> tp_enqueue (tp_policy s) (tp_stop s) x (tp_ring s)
                          | Try \<Rightarrow> tp_tryEnqueue (tp_stop s) x (tp_ring s))"

inductive cl_step :: "nat \<Rightarrow> nat \<Rightarrow> 't pool \<Rightarrow> 't pool \<Rightarrow> bool" for n m :: nat where
  c_submit: "c < m \<Longrightarrow> tp_cl s c = L_idle \<Longrightarrow>
    cl_step n m s (cl_to c (L_lock Submit x) (s\<lparr>tp_active := tp_active s + 1\<rparr>))"
| c_try: "c < m \<Longrightarrow> tp_cl s c = L_idle \<Longrightarrow>
    cl_step n m s (cl_to c (L_try x) (s\<lparr>tp_active := tp_active s + 1\<rparr>))"
| c_try_stopped: "c < m \<Longrightarrow> tp_cl s c = L_try x \<Longrightarrow> tp_stop s \<Longrightarrow>
    cl_step n m s (cl_to c (L_end R_rejected) s)"
| c_try_go: "c < m \<Longrightarrow> tp_cl s c = L_try x \<Longrightarrow> \<not> tp_stop s \<Longrightarrow>
    cl_step n m s (cl_to c (L_lock Try x) s)"
| c_lock: "c < m \<Longrightarrow> tp_cl s c = L_lock k x \<Longrightarrow> tp_mtx s = None \<Longrightarrow>
    cl_step n m s (cl_to c (L_crit k x) (s\<lparr>tp_mtx := Some (Cl c)\<rparr>))"
| c_wait: "c < m \<Longrightarrow> tp_cl s c = L_crit k x \<Longrightarrow> admit k x s = Wait \<Longrightarrow>
    cl_step n m s (cl_to c (L_asleep x) (s\<lparr>tp_mtx := None\<rparr>))"
| c_reject: "c < m \<Longrightarrow> tp_cl s c = L_crit k x \<Longrightarrow> admit k x s = Rejected \<Longrightarrow>
    cl_step n m s (cl_to c (L_unlock R_rejected) s)"
| c_throw: "c < m \<Longrightarrow> tp_cl s c = L_crit k x \<Longrightarrow> admit k x s = Throws e \<Longrightarrow>
    cl_step n m s (cl_to c (L_unlock (R_threw e)) s)"
| c_accept: "c < m \<Longrightarrow> tp_cl s c = L_crit k x \<Longrightarrow> admit k x s = Accepted_by r \<Longrightarrow>
    cl_step n m s (cl_to c (L_unlock R_accepted)
      (s\<lparr>tp_ring := r, tp_submitted := tp_submitted s + 1, tp_accepted := tp_accepted s @ [x]\<rparr>))"
| c_wake: "c < m \<Longrightarrow> tp_cl s c = L_asleep x \<Longrightarrow> cl_step n m s (cl_to c (L_lock Submit x) s)"
| c_unlock: "c < m \<Longrightarrow> tp_cl s c = L_unlock r \<Longrightarrow>
    cl_step n m s (cl_to c (if r = R_accepted then L_notify else L_end r) (s\<lparr>tp_mtx := None\<rparr>))"
| c_notify: "c < m \<Longrightarrow> tp_cl s c = L_notify \<Longrightarrow> i < n \<Longrightarrow> tp_wk s i = K_asleep \<Longrightarrow>
    cl_step n m s (cl_to c (L_end R_accepted) (wk_to i K_lock s))"
| c_notify_none: "c < m \<Longrightarrow> tp_cl s c = L_notify \<Longrightarrow> (\<forall>i<n. tp_wk s i \<noteq> K_asleep) \<Longrightarrow>
    cl_step n m s (cl_to c (L_end R_accepted) s)"
| c_end: "c < m \<Longrightarrow> tp_cl s c = L_end r \<Longrightarrow>
    cl_step n m s (cl_to c L_idle (s\<lparr>tp_active := tp_active s - 1\<rparr>))"

text \<open>\<open>shutdown\<close>, which the destructor calls too.\<close>

fun wake_worker :: "'t wk_pc \<Rightarrow> 't wk_pc" where
  "wake_worker K_asleep = K_lock"
| "wake_worker p = p"

fun wake_client :: "'t cl_pc \<Rightarrow> 't cl_pc" where
  "wake_client (L_asleep x) = L_lock Submit x"
| "wake_client p = p"

inductive sd_step :: "nat \<Rightarrow> nat \<Rightarrow> 't pool \<Rightarrow> 't pool \<Rightarrow> bool" for n m :: nat where
  h_call: "c < m \<Longrightarrow> tp_cl s c = L_idle \<Longrightarrow> sd_step n m s (cl_to c H_lock s)"
| h_lock: "c < m \<Longrightarrow> tp_cl s c = H_lock \<Longrightarrow> tp_mtx s = None \<Longrightarrow>
    sd_step n m s (cl_to c H_crit (s\<lparr>tp_mtx := Some (Cl c)\<rparr>))"
| h_again: "c < m \<Longrightarrow> tp_cl s c = H_crit \<Longrightarrow> tp_stop s \<Longrightarrow> sd_step n m s (cl_to c H_unlock_return s)"
| h_stop: "c < m \<Longrightarrow> tp_cl s c = H_crit \<Longrightarrow> \<not> tp_stop s \<Longrightarrow>
    sd_step n m s (cl_to c H_unlock (s\<lparr>tp_stop := True\<rparr>))"
| h_return: "c < m \<Longrightarrow> tp_cl s c = H_unlock_return \<Longrightarrow>
    sd_step n m s (cl_to c L_idle (s\<lparr>tp_mtx := None\<rparr>))"
| h_unlock: "c < m \<Longrightarrow> tp_cl s c = H_unlock \<Longrightarrow>
    sd_step n m s (cl_to c H_notify_workers (s\<lparr>tp_mtx := None\<rparr>))"
| h_notify_workers: "c < m \<Longrightarrow> tp_cl s c = H_notify_workers \<Longrightarrow>
    sd_step n m s (cl_to c H_notify_producers (s\<lparr>tp_wk := (\<lambda>i. wake_worker (tp_wk s i))\<rparr>))"
| h_notify_producers: "c < m \<Longrightarrow> tp_cl s c = H_notify_producers \<Longrightarrow>
    sd_step n m s (s\<lparr>tp_cl := (\<lambda>d. wake_client (tp_cl s d))(c := H_spin)\<rparr>)"
| h_spin: "c < m \<Longrightarrow> tp_cl s c = H_spin \<Longrightarrow> tp_active s \<noteq> 0 \<Longrightarrow> sd_step n m s s"
| h_spun: "c < m \<Longrightarrow> tp_cl s c = H_spin \<Longrightarrow> tp_active s = 0 \<Longrightarrow> sd_step n m s (cl_to c (H_join 0) s)"
| h_join: "c < m \<Longrightarrow> tp_cl s c = H_join k \<Longrightarrow> k < n \<Longrightarrow> tp_wk s k = K_exit \<Longrightarrow>
    sd_step n m s (cl_to c (H_join (Suc k)) s)"
| h_done: "c < m \<Longrightarrow> tp_cl s c = H_join n \<Longrightarrow> sd_step n m s (cl_to c H_done s)"

definition tp_step :: "nat \<Rightarrow> nat \<Rightarrow> 't pool \<Rightarrow> 't pool \<Rightarrow> bool" where
  "tp_step n m s s' \<longleftrightarrow> wk_step n s s' \<or> cl_step n m s s' \<or> sd_step n m s s'"

text \<open>The observers.\<close>

definition tp_getQueueSize :: "'t pool \<Rightarrow> size_t" where
  "tp_getQueueSize s = rb_size (tp_ring s)"

definition tp_getSubmittedTaskCount :: "'t pool \<Rightarrow> u64" where
  "tp_getSubmittedTaskCount s = tp_submitted s"

definition tp_getCompletedTaskCount :: "'t pool \<Rightarrow> u64" where
  "tp_getCompletedTaskCount s = tp_completed s"

definition tp_getBusyWorkerCount :: "'t pool \<Rightarrow> u64" where
  "tp_getBusyWorkerCount s = tp_busy s"

definition tp_getThreadCount :: "nat \<Rightarrow> 't pool \<Rightarrow> size_t" where
  "tp_getThreadCount n s = of_nat n"

definition tp_isStopping :: "'t pool \<Rightarrow> bool" where
  "tp_isStopping s \<longleftrightarrow> tp_stop s"

definition tp_idle :: "'t pool \<Rightarrow> bool" where
  "tp_idle s \<longleftrightarrow> tp_busy s = 0 \<and> rb_empty (tp_ring s)"

end
