(* ===== verification/Thread_Pool_Correct.thy ===== *)
theory Thread_Pool_Correct
  imports Thread_Pool
begin

text \<open>
  What \<open>ThreadPool\<close> guarantees, for any number of workers, clients and interleavings: the mutex, the
  accounting of tasks and counters, the exit of workers, \<open>shutdown\<close>, and the two condition variables. Each
  group is an invariant of the steps of \<open>Thread_Pool\<close>.
\<close>

section \<open>The critical sections\<close>

lemma tp_grab_empty: "rb_ok r \<Longrightarrow> rb_list r = [] \<Longrightarrow> tp_grab stop r = (if stop then Leave else Sleep)"
  by (simp add: tp_grab_def rb_empty_list)

lemma tp_grab_task:
  assumes "rb_ok r" "rb_list r = x # xs"
  shows "\<exists>r'. tp_grab stop r = Grabbed x r' \<and> rb_ok r' \<and> rb_list r' = xs \<and> rb_capacity r' = rb_capacity r"
  using rb_pop_some [OF assms] assms by (auto simp: tp_grab_def rb_empty_list)

lemma tp_grab_result:
  assumes "rb_ok r"
  shows "tp_grab stop r = Sleep \<longleftrightarrow> \<not> stop \<and> rb_list r = []"
    and "tp_grab stop r = Leave \<longleftrightarrow> stop \<and> rb_list r = []"
    and "tp_grab stop r \<noteq> Again" and "tp_grab stop r \<noteq> Grab_throws e"
proof -
  have "tp_grab stop r = Sleep \<and> \<not> stop \<and> rb_list r = [] \<or> tp_grab stop r = Leave \<and> stop \<and> rb_list r = [] \<or>
      (\<exists>x r'. tp_grab stop r = Grabbed x r') \<and> rb_list r \<noteq> []"
    using tp_grab_empty [OF assms, of stop] tp_grab_task [OF assms] by (cases "rb_list r") (simp, metis list.distinct(1))
  then show "tp_grab stop r = Sleep \<longleftrightarrow> \<not> stop \<and> rb_list r = []"
    "tp_grab stop r = Leave \<longleftrightarrow> stop \<and> rb_list r = []"
    "tp_grab stop r \<noteq> Again" "tp_grab stop r \<noteq> Grab_throws e" by auto
qed

lemma tp_grab_taken:
  assumes "rb_ok r" "tp_grab stop r = Grabbed x r'"
  shows "rb_ok r' \<and> rb_list r = x # rb_list r' \<and> rb_capacity r' = rb_capacity r"
proof (cases "rb_list r")
  case Nil
  then show ?thesis using tp_grab_empty [OF assms(1), of stop] assms(2) by (simp split: if_splits)
next
  case (Cons y ys)
  then show ?thesis using tp_grab_task [OF assms(1) Cons, of stop] assms(2) by auto
qed

text \<open>\<open>tasks.push\<close> is called with its result ignored; it never fails there.\<close>

lemma tp_push_checked_result:
  assumes "rb_ok r" "\<not> rb_full r"
  shows "tp_push_checked stop x r = Accepted_by r' \<Longrightarrow>
      \<not> stop \<and> rb_ok r' \<and> rb_list r' = rb_list r @ [x] \<and> rb_capacity r' = rb_capacity r"
  using rb_push_room [OF assms, of x] by (auto simp: tp_push_checked_def split: if_splits)

lemma admit_accepted:
  assumes "rb_ok (tp_ring s)" "admit k x s = Accepted_by r'"
  shows "\<not> tp_stop s \<and> \<not> rb_full (tp_ring s) \<and> rb_ok r' \<and> rb_list r' = rb_list (tp_ring s) @ [x] \<and>
    rb_capacity r' = rb_capacity (tp_ring s)"
proof -
  have "\<not> rb_full (tp_ring s) \<and> tp_push_checked (tp_stop s) x (tp_ring s) = Accepted_by r'"
    using assms(2)
    by (auto simp: admit_def tp_enqueue_def tp_tryEnqueue_def tp_push_checked_def split: kind.splits policy.splits if_splits)
  then show ?thesis using tp_push_checked_result [OF assms(1)] by blast
qed

lemma admit_wait:
  "admit k x s = Wait \<longleftrightarrow> k = Submit \<and> tp_policy s = BLOCK \<and> \<not> tp_stop s \<and> rb_full (tp_ring s)"
  by (auto simp: admit_def tp_enqueue_def tp_tryEnqueue_def tp_push_checked_def split: kind.splits policy.splits)

lemma admit_block:
  "\<not> tp_stop s \<Longrightarrow> tp_policy s = BLOCK \<Longrightarrow> admit Submit x s \<noteq> Rejected \<and> admit Submit x s \<noteq> Throws e"
  by (simp add: admit_def tp_enqueue_def tp_push_checked_def)

section \<open>Accounting\<close>

text \<open>What a worker contributes: the task in its hand, one to \<open>busy_workers\<close>, one task executed and
  not yet counted as completed.\<close>

fun hand :: "'t wk_pc \<Rightarrow> 't multiset" where
  "hand (K_notify x) = {#x#}"
| "hand (K_unlock x) = {#x#}"
| "hand (K_busy x) = {#x#}"
| "hand (K_run x) = {#x#}"
| "hand _ = {#}"

fun counted_busy :: "'t wk_pc \<Rightarrow> u64" where
  "counted_busy (K_run x) = 1"
| "counted_busy K_unbusy = 1"
| "counted_busy _ = 0"

fun uncounted :: "'t wk_pc \<Rightarrow> u64" where
  "uncounted K_unbusy = 1"
| "uncounted K_complete = 1"
| "uncounted _ = 0"

definition tp_account :: "nat \<Rightarrow> 't pool \<Rightarrow> bool" where
  "tp_account n s \<longleftrightarrow>
     rb_ok (tp_ring s) \<and> tp_accepted s = tp_started s @ rb_list (tp_ring s) \<and>
     tp_submitted s = of_nat (length (tp_accepted s)) \<and>
     mset (tp_started s) = mset (tp_executed s) + (\<Sum>i<n. hand (tp_wk s i)) \<and>
     tp_busy s = 0 + (\<Sum>i<n. counted_busy (tp_wk s i)) \<and>
     of_nat (length (tp_executed s)) = tp_completed s + (\<Sum>i<n. uncounted (tp_wk s i)) \<and>
     (\<forall>i. tp_wk s i \<noteq> K_terminate)"

text \<open>One step of a worker, as an exchange between the worker and the pool.\<close>

definition exchange :: "'t pool \<Rightarrow> 't pool \<Rightarrow> 't wk_pc \<Rightarrow> 't wk_pc \<Rightarrow> bool" where
  "exchange s s' q p \<longleftrightarrow>
     p \<noteq> K_terminate \<and> rb_ok (tp_ring s') \<and>
     tp_accepted s' = tp_accepted s \<and> tp_submitted s' = tp_submitted s \<and>
     tp_started s' @ rb_list (tp_ring s') = tp_started s @ rb_list (tp_ring s) \<and>
     mset (tp_started s') + mset (tp_executed s) + hand q = mset (tp_started s) + mset (tp_executed s') + hand p \<and>
     tp_busy s' + counted_busy q = tp_busy s + counted_busy p \<and>
     of_nat (length (tp_executed s')) + tp_completed s + uncounted q =
       of_nat (length (tp_executed s)) + tp_completed s' + uncounted p"

lemma wk_step_exchange:
  assumes "wk_step n s s'" "rb_ok (tp_ring s)"
  shows "\<exists>i<n. tp_wk s' = (tp_wk s)(i := tp_wk s' i) \<and> exchange s s' (tp_wk s i) (tp_wk s' i)"
  using assms(1)
proof cases
  case (w_pop i x r)
  then show ?thesis
    using tp_grab_taken [OF assms(2) w_pop(4)] by (intro exI [of _ i]) (simp add: exchange_def)
qed (rule exI, rule conjI, assumption, simp add: exchange_def assms(2) tp_grab_result(3,4) [OF assms(2)])+


lemma wk_step_account:
  assumes a: "tp_account n s" and st: "wk_step n s s'"
  shows "tp_account n s'"
proof -
  note a = a [unfolded tp_account_def]
  obtain i where i: "i < n" "tp_wk s' = (tp_wk s)(i := tp_wk s' i)" "exchange s s' (tp_wk s i) (tp_wk s' i)"
    using wk_step_exchange [OF st] a by blast
  note e = i(3) [unfolded exchange_def]
  have "mset (tp_started s') = mset (tp_executed s') + (\<Sum>u<n. hand (((tp_wk s)(i := tp_wk s' i)) u))"
    by (rule balance [where b = "mset (tp_executed s)", OF _ i(1)]) (use a e in auto)
  moreover have "tp_busy s' = 0 + (\<Sum>u<n. counted_busy (((tp_wk s)(i := tp_wk s' i)) u))"
    by (rule balance [where b = 0, OF _ i(1)]) (use a e in auto)
  moreover have "of_nat (length (tp_executed s')) =
      tp_completed s' + (\<Sum>u<n. uncounted (((tp_wk s)(i := tp_wk s' i)) u))"
    by (rule balance [where b = "tp_completed s", OF _ i(1)]) (use a e in auto)
  moreover have "tp_wk s' u \<noteq> K_terminate" for u using a e i(2) by (cases "u = i") (auto, metis fun_upd_other)
  ultimately show ?thesis
    unfolding tp_account_def using a e i(2) by auto
qed

text \<open>Steps that leave the tasks alone: at most they wake workers.\<close>

definition only_wakes :: "(nat \<Rightarrow> 't wk_pc) \<Rightarrow> (nat \<Rightarrow> 't wk_pc) \<Rightarrow> bool" where
  "only_wakes pc pc' \<longleftrightarrow> (\<forall>i. pc' i = pc i \<or> pc i = K_asleep \<and> pc' i = K_lock)"

lemma only_wakes_weights:
  assumes "only_wakes pc pc'"
  shows "hand (pc' i) = hand (pc i)" "counted_busy (pc' i) = counted_busy (pc i)"
    "uncounted (pc' i) = uncounted (pc i)" "pc' i = K_terminate \<longleftrightarrow> pc i = K_terminate"
    "pc' i = K_exit \<longleftrightarrow> pc i = K_exit" "pc' i = K_unlock_exit \<longleftrightarrow> pc i = K_unlock_exit"
  using assms unfolding only_wakes_def by (smt (verit) hand.simps counted_busy.simps uncounted.simps wk_pc.distinct)+

lemma only_wakes_intros [intro, simp]:
  "only_wakes pc pc" "pc i = K_asleep \<Longrightarrow> only_wakes pc (pc(i := K_lock))" "only_wakes pc (\<lambda>i. wake_worker (pc i))"
proof -
  show "only_wakes pc (\<lambda>i. wake_worker (pc i))"
    unfolding only_wakes_def
  proof
    fix i show "wake_worker (pc i) = pc i \<or> pc i = K_asleep \<and> wake_worker (pc i) = K_lock" by (cases "pc i") auto
  qed
qed (auto simp: only_wakes_def)

lemma tp_account_frame:
  assumes "tp_account n s" "only_wakes (tp_wk s) (tp_wk s')"
    and "tp_ring s' = tp_ring s" "tp_accepted s' = tp_accepted s" "tp_started s' = tp_started s"
    "tp_executed s' = tp_executed s" "tp_submitted s' = tp_submitted s" "tp_completed s' = tp_completed s"
    "tp_busy s' = tp_busy s"
  shows "tp_account n s'"
  using assms by (simp add: tp_account_def only_wakes_weights [OF assms(2)])

lemma cl_step_account:
  assumes a: "tp_account n s" and st: "cl_step n m s s'"
  shows "tp_account n s'"
  using st
proof cases
  case (c_accept c k x r)
  then show ?thesis using a admit_accepted [of s k x r] by (simp add: tp_account_def)
qed (rule tp_account_frame [OF a]; simp)+

lemma sd_step_account:
  assumes a: "tp_account n s" and st: "sd_step n m s s'"
  shows "tp_account n s'"
  using st by cases (rule tp_account_frame [OF a]; simp)+

lemma tp_init_account: "tp_init q p s \<Longrightarrow> tp_account n s"
  by (auto simp: tp_init_def tp_account_def rb_new_ok)


section \<open>The mutex\<close>

fun wk_holds :: "'t wk_pc \<Rightarrow> bool" where
  "wk_holds K_crit = True"
| "wk_holds (K_notify x) = True"
| "wk_holds (K_unlock x) = True"
| "wk_holds K_unlock_again = True"
| "wk_holds K_unlock_exit = True"
| "wk_holds _ = False"

fun cl_holds :: "'t cl_pc \<Rightarrow> bool" where
  "cl_holds (L_crit k x) = True"
| "cl_holds (L_unlock r) = True"
| "cl_holds H_crit = True"
| "cl_holds H_unlock_return = True"
| "cl_holds H_unlock = True"
| "cl_holds _ = False"

definition tp_lock :: "'t pool \<Rightarrow> bool" where
  "tp_lock s \<longleftrightarrow> (\<forall>i. wk_holds (tp_wk s i) \<longleftrightarrow> tp_mtx s = Some (Wk i)) \<and>
     (\<forall>c. cl_holds (tp_cl s c) \<longleftrightarrow> tp_mtx s = Some (Cl c))"

lemma wake_holds [simp]: "wk_holds (wake_worker p) = wk_holds p" "cl_holds (wake_client q) = cl_holds q"
  by (cases p; simp) (cases q; simp)

lemma wk_step_lock:
  assumes "tp_account n s" "tp_lock s" "wk_step n s s'"
  shows "tp_lock s'"
  using assms(3)
proof cases
  case (w_throw i e)
  then show ?thesis using tp_grab_result(4) [of "tp_ring s"] assms(1) by (auto simp: tp_account_def)
qed (use assms(2) in \<open>auto simp: tp_lock_def\<close>, (metis wk_holds.simps cl_holds.simps)+)

lemma cl_step_lock:
  assumes "tp_lock s" "cl_step n m s s'"
  shows "tp_lock s'"
  using assms(2)
  by cases (use assms(1) in \<open>auto simp: tp_lock_def\<close>, (metis wk_holds.simps cl_holds.simps)+)

lemma sd_step_lock:
  assumes "tp_lock s" "sd_step n m s s'"
  shows "tp_lock s'"
  using assms(2)
  by cases (use assms(1) in \<open>auto simp: tp_lock_def\<close>, (metis wk_holds.simps cl_holds.simps)+)


section \<open>Exit of the workers and shutdown\<close>

text \<open>What is known at each point of \<open>shutdown\<close> after \<open>stop\<close> has been set.\<close>

fun shut_ok :: "nat \<Rightarrow> 't pool \<Rightarrow> 't cl_pc \<Rightarrow> bool" where
  "shut_ok n s H_unlock = tp_stop s"
| "shut_ok n s H_notify_workers = tp_stop s"
| "shut_ok n s H_notify_producers = tp_stop s"
| "shut_ok n s H_spin = tp_stop s"
| "shut_ok n s (H_join k) = (tp_stop s \<and> (\<forall>i<k. tp_wk s i = K_exit))"
| "shut_ok n s H_done = (tp_stop s \<and> (\<forall>i<n. tp_wk s i = K_exit))"
| "shut_ok n s _ = True"

definition tp_exit :: "nat \<Rightarrow> 't pool \<Rightarrow> bool" where
  "tp_exit n s \<longleftrightarrow>
     (\<forall>i. tp_wk s i \<in> {K_unlock_exit, K_exit} \<longrightarrow> tp_stop s \<and> rb_list (tp_ring s) = []) \<and>
     (\<forall>c. shut_ok n s (tp_cl s c))"

lemma shut_ok_mono:
  assumes "tp_stop s \<longrightarrow> tp_stop s'" "\<And>i. tp_wk s i = K_exit \<Longrightarrow> tp_wk s' i = K_exit"
  shows "shut_ok n s p \<Longrightarrow> shut_ok n s' p"
  using assms by (cases p) auto

lemma shut_ok_wake: "shut_ok n s (wake_client p) = shut_ok n s p"
  by (cases p) auto

lemma wk_step_frame:
  assumes "wk_step n s s'"
  shows "tp_stop s' = tp_stop s" "tp_policy s' = tp_policy s" "tp_active s' = tp_active s"
    "tp_wk s i = K_exit \<Longrightarrow> tp_wk s' i = K_exit"
    "tp_cl s' c = tp_cl s c \<or> (\<exists>x. tp_cl s c = L_asleep x \<and> tp_cl s' c = L_lock Submit x)"
  using assms by (cases; auto)+

lemma wk_step_exit:
  assumes a: "tp_account n s" and e: "tp_exit n s" and st: "wk_step n s s'"
  shows "tp_exit n s'"
proof -
  have ok: "rb_ok (tp_ring s)" using a by (simp add: tp_account_def)
  have "tp_stop s' \<and> rb_list (tp_ring s') = []" if "tp_wk s' i \<in> {K_unlock_exit, K_exit}" for i
    using st
  proof cases
    case (w_pop j x r)
    then have "tp_wk s i \<in> {K_unlock_exit, K_exit}" using that by (auto split: if_splits)
    then show ?thesis using e tp_grab_taken [OF ok w_pop(4)] by (auto simp: tp_exit_def)
  qed (use e that tp_grab_result(2) [OF ok] in \<open>auto simp: tp_exit_def split: if_splits\<close>)
  moreover have "shut_ok n s' (tp_cl s c)" for c
    using e shut_ok_mono [of s s' n] wk_step_frame(1,4) [OF st] by (auto simp: tp_exit_def)
  then have "shut_ok n s' (tp_cl s' c)" for c
    using wk_step_frame(5) [OF st, of c] by auto
  ultimately show ?thesis by (auto simp: tp_exit_def)
qed

lemma cl_step_frame:
  assumes "cl_step n m s s'"
  shows "tp_stop s' = tp_stop s" "tp_policy s' = tp_policy s" "only_wakes (tp_wk s) (tp_wk s')"
    "shut_ok n s' (tp_cl s' c) \<or> tp_cl s' c = tp_cl s c"
  using assms by (cases; auto)+

lemma cl_step_exit:
  assumes a: "tp_account n s" and e: "tp_exit n s" and st: "cl_step n m s s'"
  shows "tp_exit n s'"
proof -
  note w = only_wakes_weights [OF cl_step_frame(3) [OF st]]
  have "tp_stop s' \<and> rb_list (tp_ring s') = []" if "tp_wk s' i \<in> {K_unlock_exit, K_exit}" for i
  proof -
    have s: "tp_stop s \<and> rb_list (tp_ring s) = []" using that w(5,6) [of i] e by (auto simp: tp_exit_def)
    from st show ?thesis
      by cases (use s a admit_accepted [of s] in \<open>force simp: tp_account_def\<close>)+
  qed
  moreover have "shut_ok n s' (tp_cl s c)" for c
    using e shut_ok_mono [of s s' n] cl_step_frame(1) [OF st] w(5) by (auto simp: tp_exit_def)
  then have "shut_ok n s' (tp_cl s' c)" for c
    using cl_step_frame(4) [OF st, of c] by metis
  ultimately show ?thesis by (auto simp: tp_exit_def)
qed

lemma sd_step_frame:
  assumes "sd_step n m s s'"
  shows "tp_stop s \<longrightarrow> tp_stop s'" "tp_policy s' = tp_policy s" "only_wakes (tp_wk s) (tp_wk s')"
    "tp_ring s' = tp_ring s" "tp_active s' = tp_active s"
  using assms by (cases; auto)+

lemma sd_step_exit:
  assumes e: "tp_exit n s" and st: "sd_step n m s s'"
  shows "tp_exit n s'"
proof -
  note w = only_wakes_weights [OF sd_step_frame(3) [OF st]]
  have "tp_stop s' \<and> rb_list (tp_ring s') = []" if "tp_wk s' i \<in> {K_unlock_exit, K_exit}" for i
    using that w(5,6) [of i] e sd_step_frame(1,4) [OF st] by (auto simp: tp_exit_def)
  moreover have old: "shut_ok n s' (tp_cl s c)" for c
    using e shut_ok_mono [of s s' n] sd_step_frame(1) [OF st] w(5) by (auto simp: tp_exit_def)
  have "shut_ok n s' (tp_cl s' c)" for c
    using st
  proof cases
    case (h_join d k)
    then show ?thesis using old [of c] old [of d] by (auto simp: less_Suc_eq)
  qed (use old [of c] e in \<open>auto simp: tp_exit_def shut_ok_wake dest: spec [where x = _]\<close>)
  ultimately show ?thesis by (auto simp: tp_exit_def)
qed


section \<open>Wake-ups\<close>

text \<open>Workers that are about to look into the queue; clients about to notify one.\<close>

fun seeking :: "'t wk_pc \<Rightarrow> nat" where
  "seeking K_lock = 1"
| "seeking K_crit = 1"
| "seeking K_unlock_again = 1"
| "seeking _ = 0"

fun notifying :: "'t cl_pc \<Rightarrow> nat" where
  "notifying (L_unlock R_accepted) = 1"
| "notifying L_notify = 1"
| "notifying _ = 0"

definition tp_wake_workers :: "nat \<Rightarrow> nat \<Rightarrow> 't pool \<Rightarrow> bool" where
  "tp_wake_workers n m s \<longleftrightarrow> (\<exists>i<n. tp_wk s i = K_asleep) \<longrightarrow>
     length (rb_list (tp_ring s)) \<le> (\<Sum>i<n. seeking (tp_wk s i)) + (\<Sum>c<m. notifying (tp_cl s c))"

text \<open>Clients about to enter the critical section of \<open>enqueueTask\<close>; workers about to notify one.\<close>

fun entering :: "'t cl_pc \<Rightarrow> nat" where
  "entering (L_lock Submit x) = 1"
| "entering (L_crit Submit x) = 1"
| "entering _ = 0"

fun freeing :: "'t wk_pc \<Rightarrow> nat" where
  "freeing (K_notify x) = 1"
| "freeing _ = 0"

definition tp_wake_clients :: "nat \<Rightarrow> nat \<Rightarrow> 't pool \<Rightarrow> bool" where
  "tp_wake_clients n m s \<longleftrightarrow>
     (\<forall>c x. tp_cl s c = L_asleep x \<longrightarrow> c < m \<and> tp_policy s = BLOCK) \<and>
     ((\<exists>c x. tp_cl s c = L_asleep x) \<longrightarrow> \<not> tp_stop s \<longrightarrow>
       unat (rb_capacity (tp_ring s)) \<le>
         length (rb_list (tp_ring s)) + (\<Sum>i<n. freeing (tp_wk s i)) + (\<Sum>c<m. entering (tp_cl s c)))"

text \<open>Once \<open>stop\<close> is set, somebody sleeps only as long as \<open>shutdown\<close> has not notified everybody.\<close>

definition tp_wake_stop :: "nat \<Rightarrow> nat \<Rightarrow> 't pool \<Rightarrow> bool" where
  "tp_wake_stop n m s \<longleftrightarrow> tp_stop s \<longrightarrow>
     ((\<exists>i. tp_wk s i = K_asleep) \<longrightarrow> (\<exists>c<m. tp_cl s c \<in> {H_unlock, H_notify_workers})) \<and>
     ((\<exists>c x. tp_cl s c = L_asleep x) \<longrightarrow>
       (\<exists>c<m. tp_cl s c \<in> {H_unlock, H_notify_workers, H_notify_producers}))"

text \<open>\<open>active_submits\<close> counts the calls of \<open>submit\<close>, \<open>submitVoid\<close> and \<open>trySubmit\<close> in flight.\<close>

fun in_flight :: "'t cl_pc \<Rightarrow> u32" where
  "in_flight (L_try x) = 1"
| "in_flight (L_lock k x) = 1"
| "in_flight (L_crit k x) = 1"
| "in_flight (L_asleep x) = 1"
| "in_flight (L_unlock r) = 1"
| "in_flight L_notify = 1"
| "in_flight (L_end r) = 1"
| "in_flight _ = 0"

definition tp_in_flight :: "nat \<Rightarrow> 't pool \<Rightarrow> bool" where
  "tp_in_flight m s \<longleftrightarrow> (\<forall>c x. tp_cl s c = L_asleep x \<longrightarrow> c < m) \<and>
     tp_active s = 0 + (\<Sum>c<m. in_flight (tp_cl s c))"

lemma wake_client_in_flight [simp]: "in_flight (wake_client p) = in_flight p"
  by (cases p) auto

lemma cl_step_in_flight:
  assumes "tp_in_flight m s" "cl_step n m s s'"
  shows "tp_in_flight m s'"
proof -
  have "\<exists>c<m. tp_cl s' = (tp_cl s)(c := tp_cl s' c) \<and>
      tp_active s' + in_flight (tp_cl s c) = tp_active s + in_flight (tp_cl s' c)"
    using assms(2) by cases (rule exI, rule conjI, assumption, simp)+
  then obtain c where c: "c < m" "tp_cl s' = (tp_cl s)(c := tp_cl s' c)"
      "tp_active s' + in_flight (tp_cl s c) = tp_active s + in_flight (tp_cl s' c)" by blast
  have "tp_active s' = 0 + (\<Sum>u<m. in_flight (((tp_cl s)(c := tp_cl s' c)) u))"
    by (rule balance [where b = 0, OF _ c(1)]) (use assms(1) c(3) in \<open>auto simp: tp_in_flight_def\<close>)
  moreover have "\<forall>d x. tp_cl s' d = L_asleep x \<longrightarrow> d < m"
    using assms(1) c(1,2) by (metis fun_upd_other tp_in_flight_def)
  ultimately show ?thesis using c(2) by (simp add: tp_in_flight_def)
qed

lemma tp_in_flight_frame:
  assumes "tp_in_flight m s" "tp_active s' = tp_active s"
    "\<And>c. in_flight (tp_cl s' c) = in_flight (tp_cl s c)" "\<And>c x. tp_cl s' c = L_asleep x \<Longrightarrow> tp_cl s c = L_asleep x"
  shows "tp_in_flight m s'"
  using assms by (auto simp: tp_in_flight_def)

lemma wk_step_in_flight:
  assumes "tp_in_flight m s" "wk_step n s s'"
  shows "tp_in_flight m s'"
proof (rule tp_in_flight_frame [OF assms(1) wk_step_frame(3) [OF assms(2)]])
  show "in_flight (tp_cl s' c) = in_flight (tp_cl s c)" for c
    using wk_step_frame(5) [OF assms(2), of c] by auto
  show "tp_cl s c = L_asleep x" if "tp_cl s' c = L_asleep x" for c x
    using wk_step_frame(5) [OF assms(2), of c] that by auto
qed

lemma sd_step_in_flight: "tp_in_flight m s \<Longrightarrow> sd_step n m s s' \<Longrightarrow> tp_in_flight m s'"
proof (rule tp_in_flight_frame)
  assume "sd_step n m s s'"
  then show "in_flight (tp_cl s' c) = in_flight (tp_cl s c)" for c by cases auto
  show "tp_cl s c = L_asleep x" if "tp_cl s' c = L_asleep x" for c x
    using \<open>sd_step n m s s'\<close> that by cases (auto split: if_splits elim: wake_client.elims)
qed (auto dest: sd_step_frame(5))


lemma wk_step_seeking:
  assumes ok: "rb_ok (tp_ring s)" and st: "wk_step n s s'"
  shows "\<exists>i<n. tp_wk s' = (tp_wk s)(i := tp_wk s' i) \<and>
    (rb_list (tp_ring s') = [] \<or> tp_wk s' i \<noteq> K_asleep \<and>
      length (rb_list (tp_ring s')) + seeking (tp_wk s i) \<le> length (rb_list (tp_ring s)) + seeking (tp_wk s' i))"
  using st
proof cases
  case (w_pop i x r)
  then show ?thesis using tp_grab_taken [OF ok w_pop(4)] by (intro exI [of _ i]) simp
qed (rule exI, rule conjI, assumption, simp add: tp_grab_result [OF ok])+

lemma wk_step_wake_workers:
  assumes ok: "rb_ok (tp_ring s)" and w: "tp_wake_workers n m s" and st: "wk_step n s s'"
  shows "tp_wake_workers n m s'"
proof -
  obtain i where i: "i < n" "tp_wk s' = (tp_wk s)(i := tp_wk s' i)"
      "rb_list (tp_ring s') = [] \<or> tp_wk s' i \<noteq> K_asleep \<and>
       length (rb_list (tp_ring s')) + seeking (tp_wk s i) \<le> length (rb_list (tp_ring s)) + seeking (tp_wk s' i)"
    using wk_step_seeking [OF ok st] by blast
  have "(\<Sum>u<n. seeking (tp_wk s' u)) + seeking (tp_wk s i) = (\<Sum>u<n. seeking (tp_wk s u)) + seeking (tp_wk s' i)"
    using sum_thread_update [OF i(1), of seeking "tp_wk s" "tp_wk s' i"] i(2) by simp
  moreover have "notifying (tp_cl s' c) = notifying (tp_cl s c)" for c
    using wk_step_frame(5) [OF st, of c] by auto
  moreover have "\<exists>j<n. tp_wk s j = K_asleep" if "\<exists>j<n. tp_wk s' j = K_asleep" "tp_wk s' i \<noteq> K_asleep"
    using that i(2) by (metis fun_upd_other)
  ultimately show ?thesis using w i(3) by (auto simp: tp_wake_workers_def)
qed

lemma tp_wake_workers_frame:
  assumes "tp_wake_workers n m s" "tp_wk s' = tp_wk s" "tp_ring s' = tp_ring s"
    "\<And>c. notifying (tp_cl s' c) = notifying (tp_cl s c)"
  shows "tp_wake_workers n m s'"
  using assms by (simp add: tp_wake_workers_def)

lemma cl_step_wake_workers:
  assumes ok: "rb_ok (tp_ring s)" and w: "tp_wake_workers n m s" and st: "cl_step n m s s'"
  shows "tp_wake_workers n m s'"
  using st
proof cases
  case (c_accept c k x r)
  then show ?thesis
    using w admit_accepted [OF ok c_accept(4)]
      sum_thread_update [OF c_accept(2), of notifying "tp_cl s" "L_unlock R_accepted"]
    by (auto simp: tp_wake_workers_def)
next
  case (c_unlock c r)
  then show ?thesis
    using w sum_thread_update [OF c_unlock(2), of notifying "tp_cl s" "if r = R_accepted then L_notify else L_end r"]
    by (cases r) (auto simp: tp_wake_workers_def)
next
  case (c_notify c i)
  then show ?thesis
    using w sum_thread_update [OF c_notify(2), of notifying "tp_cl s" "L_end R_accepted"]
      sum_thread_update [OF c_notify(4), of seeking "tp_wk s" K_lock]
    by (auto simp: tp_wake_workers_def)
next
  case (c_notify_none c)
  then show ?thesis by (auto simp: tp_wake_workers_def)
qed (rule tp_wake_workers_frame [OF w]; simp)+

lemma sd_step_wake_workers:
  assumes w: "tp_wake_workers n m s" and st: "sd_step n m s s'"
  shows "tp_wake_workers n m s'"
  using st
proof cases
  case (h_notify_workers c)
  have "wake_worker (tp_wk s i) \<noteq> K_asleep" for i by (cases "tp_wk s i") auto
  then show ?thesis using h_notify_workers by (simp add: tp_wake_workers_def)
next
  case (h_notify_producers c)
  have "notifying (wake_client (tp_cl s d)) = notifying (tp_cl s d)" for d by (cases "tp_cl s d") auto
  then show ?thesis using h_notify_producers by (intro tp_wake_workers_frame [OF w]) auto
qed (rule tp_wake_workers_frame [OF w]; simp)+


lemma tp_wake_clients_frame:
  assumes "tp_wake_clients n m s" "tp_policy s' = tp_policy s" "tp_stop s \<longrightarrow> tp_stop s'" "tp_ring s' = tp_ring s"
    "\<And>c x. tp_cl s' c = L_asleep x \<Longrightarrow> tp_cl s c = L_asleep x"
    "\<And>i. freeing (tp_wk s' i) = freeing (tp_wk s i)" "\<And>c. entering (tp_cl s c) \<le> entering (tp_cl s' c)"
  shows "tp_wake_clients n m s'"
proof -
  have "(\<Sum>c<m. entering (tp_cl s c)) \<le> (\<Sum>c<m. entering (tp_cl s' c))"
    by (rule sum_mono) (rule assms(7))
  then show ?thesis
    using assms(1) assms(5) assms(3) unfolding tp_wake_clients_def
    by (simp add: assms(2,4,6)) (meson add_le_cancel_left le_trans)
qed

lemma wk_step_wake_clients:
  assumes ok: "rb_ok (tp_ring s)" and w: "tp_wake_clients n m s" and st: "wk_step n s s'"
  shows "tp_wake_clients n m s'"
  using st
proof cases
  case (w_pop i x r)
  then show ?thesis
    using w tp_grab_taken [OF ok w_pop(4)] sum_thread_update [OF w_pop(2), of freeing "tp_wk s" "K_notify x"]
    by (auto simp: tp_wake_clients_def)
next
  case (w_notify i x c y)
  have c: "c < m" using w w_notify(4) by (auto simp: tp_wake_clients_def)
  then show ?thesis
    using w w_notify sum_thread_update [OF w_notify(2), of freeing "tp_wk s" "K_unlock x"]
      sum_thread_update [OF c, of entering "tp_cl s" "L_lock Submit y"]
    by (auto simp: tp_wake_clients_def)
next
  case (w_notify_none i x)
  then show ?thesis by (auto simp: tp_wake_clients_def)
qed (rule tp_wake_clients_frame [OF w]; simp split: if_splits)+

lemma cl_step_wake_clients:
  assumes ok: "rb_ok (tp_ring s)" and w: "tp_wake_clients n m s" and st: "cl_step n m s s'"
  shows "tp_wake_clients n m s'"
  using st
proof cases
  case (c_wait c k x)
  then show ?thesis
    using w admit_wait [of k x s] rb_full_list [OF ok] by (auto simp: tp_wake_clients_def)
next
  case (c_reject c k x)
  then show ?thesis
    using w admit_block [of s x] sum_thread_update [OF c_reject(2), of entering "tp_cl s" "L_unlock R_rejected"]
    by (cases k) (auto simp: tp_wake_clients_def)
next
  case (c_throw c k x e)
  then show ?thesis
    using w admit_block [of s x e] sum_thread_update [OF c_throw(2), of entering "tp_cl s" "L_unlock (R_threw e)"]
    by (cases k) (auto simp: tp_wake_clients_def)
next
  case (c_accept c k x r)
  have "entering (L_crit k x) \<le> 1" by (cases k) auto
  then show ?thesis
    using c_accept w admit_accepted [OF ok c_accept(4)]
      sum_thread_update [OF c_accept(2), of entering "tp_cl s" "L_unlock R_accepted"]
    by (auto simp: tp_wake_clients_def)
next
  case (c_lock c k x)
  then show ?thesis by (cases k) (rule tp_wake_clients_frame [OF w]; simp split: if_splits)+
qed (rule tp_wake_clients_frame [OF w]; simp split: if_splits)+

lemma sd_step_wake_clients:
  assumes w: "tp_wake_clients n m s" and st: "sd_step n m s s'"
  shows "tp_wake_clients n m s'"
  using st
proof cases
  case (h_notify_workers c)
  have "freeing (wake_worker (tp_wk s i)) = freeing (tp_wk s i)" for i by (cases "tp_wk s i") auto
  then show ?thesis using h_notify_workers by (intro tp_wake_clients_frame [OF w]) (auto split: if_splits)
next
  case (h_notify_producers c)
  have "wake_client (tp_cl s d) \<noteq> L_asleep x" for d x by (cases "tp_cl s d") auto
  then show ?thesis using h_notify_producers by (auto simp: tp_wake_clients_def)
qed (rule tp_wake_clients_frame [OF w]; simp split: if_splits)+

lemma tp_wake_stop_frame:
  assumes "tp_wake_stop n m s" "tp_stop s' = tp_stop s"
    "\<And>i. tp_stop s \<Longrightarrow> tp_wk s' i = K_asleep \<Longrightarrow> tp_wk s i = K_asleep"
    "\<And>c x. tp_stop s \<Longrightarrow> tp_cl s' c = L_asleep x \<Longrightarrow> tp_cl s c = L_asleep x"
    "\<And>c. tp_cl s c \<in> {H_unlock, H_notify_workers, H_notify_producers} \<Longrightarrow> tp_cl s' c = tp_cl s c"
  shows "tp_wake_stop n m s'"
proof -
  have h: "\<exists>c<m. tp_cl s' c \<in> A" if "\<exists>c<m. tp_cl s c \<in> A" "A \<subseteq> {H_unlock, H_notify_workers, H_notify_producers}" for A
    using that assms(5) by (metis subsetD)
  show ?thesis
    unfolding tp_wake_stop_def
  proof (intro impI conjI)
    assume st: "tp_stop s'"
    then have s: "tp_stop s" using assms(2) by simp
    show "\<exists>c<m. tp_cl s' c \<in> {H_unlock, H_notify_workers}" if "\<exists>i. tp_wk s' i = K_asleep"
      by (rule h) (use that assms(1) assms(3) [OF s] s in \<open>unfold tp_wake_stop_def, blast+\<close>)
    show "\<exists>c<m. tp_cl s' c \<in> {H_unlock, H_notify_workers, H_notify_producers}" if "\<exists>c x. tp_cl s' c = L_asleep x"
      by (rule h) (use that assms(1) assms(4) [OF s] s in \<open>unfold tp_wake_stop_def, blast+\<close>)
  qed
qed

lemma wk_step_wake_stop:
  assumes ok: "rb_ok (tp_ring s)" and w: "tp_wake_stop n m s" and st: "wk_step n s s'"
  shows "tp_wake_stop n m s'"
proof (rule tp_wake_stop_frame [OF w wk_step_frame(1) [OF st]])
  show "tp_cl s' c = tp_cl s c" if "tp_cl s c \<in> {H_unlock, H_notify_workers, H_notify_producers}" for c
    using wk_step_frame(5) [OF st, of c] that by auto
  show "tp_cl s c = L_asleep x" if "tp_cl s' c = L_asleep x" for c x
    using wk_step_frame(5) [OF st, of c] that by auto
  show "tp_wk s i = K_asleep" if "tp_wk s' i = K_asleep" "tp_stop s" for i
    using st by cases (use that tp_grab_result(1) [OF ok] in \<open>auto split: if_splits\<close>)
qed

lemma cl_step_wake_stop:
  assumes w: "tp_wake_stop n m s" and st: "cl_step n m s s'"
  shows "tp_wake_stop n m s'"
proof (rule tp_wake_stop_frame [OF w cl_step_frame(1) [OF st]])
  show "tp_cl s' c = tp_cl s c" if "tp_cl s c \<in> {H_unlock, H_notify_workers, H_notify_producers}" for c
    using st by cases (use that in auto)
  show "tp_cl s c = L_asleep x" if "tp_cl s' c = L_asleep x" "tp_stop s" for c x
    using st by cases (use that admit_wait [of _ _ s] in \<open>auto split: if_splits\<close>)
  show "tp_wk s i = K_asleep" if "tp_wk s' i = K_asleep" for i
    using cl_step_frame(3) [OF st] that unfolding only_wakes_def by (metis wk_pc.distinct(3))
qed

lemma sd_step_wake_stop:
  assumes e: "tp_exit n s" and w: "tp_wake_stop n m s" and st: "sd_step n m s s'"
  shows "tp_wake_stop n m s'"
  using st
proof cases
  case (h_notify_workers c)
  have "wake_worker (tp_wk s i) \<noteq> K_asleep" for i by (cases "tp_wk s i") auto
  then show ?thesis using h_notify_workers by (auto simp: tp_wake_stop_def intro!: exI [of _ c])
next
  case (h_notify_producers c)
  have "wake_client (tp_cl s d) \<noteq> L_asleep x" for d x by (cases "tp_cl s d") auto
  moreover have "wake_client (tp_cl s d) = tp_cl s d" if "tp_cl s d \<in> {H_unlock, H_notify_workers}" for d
    using that by auto
  ultimately show ?thesis
    using h_notify_producers w unfolding tp_wake_stop_def by (auto; metis cl_pc.distinct)
next
  case (h_stop c)
  then show ?thesis by (auto simp: tp_wake_stop_def)
next
  case (h_unlock c)
  then show ?thesis by (auto simp: tp_wake_stop_def)
qed (rule tp_wake_stop_frame [OF w]; auto split: if_splits)+


section \<open>The invariant\<close>

definition tp_inv :: "nat \<Rightarrow> nat \<Rightarrow> 't pool \<Rightarrow> bool" where
  "tp_inv n m s \<longleftrightarrow> tp_account n s \<and> tp_lock s \<and> tp_exit n s \<and> tp_wake_workers n m s \<and>
     tp_wake_clients n m s \<and> tp_wake_stop n m s \<and> tp_in_flight m s"

lemmas wk_step_layers = wk_step_account wk_step_lock wk_step_exit wk_step_wake_workers
  wk_step_wake_clients wk_step_wake_stop wk_step_in_flight
lemmas cl_step_layers = cl_step_account cl_step_lock cl_step_exit cl_step_wake_workers
  cl_step_wake_clients cl_step_wake_stop cl_step_in_flight
lemmas sd_step_layers = sd_step_account sd_step_lock sd_step_exit sd_step_wake_workers
  sd_step_wake_clients sd_step_wake_stop sd_step_in_flight

lemma tp_account_ok: "tp_account n s \<Longrightarrow> rb_ok (tp_ring s)"
  by (simp add: tp_account_def)

lemma tp_init_inv: "tp_init q p s \<Longrightarrow> tp_inv n m s"
  using tp_init_account [of q p s n]
  by (auto simp: tp_inv_def tp_init_def tp_lock_def tp_exit_def tp_wake_workers_def tp_wake_clients_def
      tp_wake_stop_def tp_in_flight_def)

lemma tp_step_inv: "tp_inv n m s \<Longrightarrow> tp_step n m s s' \<Longrightarrow> tp_inv n m s'"
  unfolding tp_step_def tp_inv_def
  by (meson tp_account_ok wk_step_layers cl_step_layers sd_step_layers)

interpretation tp: inductive_invariant "tp_init q p" "tp_step n m" "tp_inv n m" for q p n m
  by unfold_locales (auto intro: tp_init_inv tp_step_inv)

lemma tp_capacity:
  assumes "reach (tp_init q p) (tp_step n m) s"
  shows "unat q \<le> unat (rb_capacity (tp_ring s)) \<and> tp_policy s = p"
  using assms
proof (induction rule: reach.induct)
  case (reach_init s)
  then show ?case using rb_new_ok(3) [of q] by (auto simp: tp_init_def)
next
  case (reach_step s t)
  then have ok: "rb_ok (tp_ring s)" using tp.inv_reach [of q p n m s] by (simp add: tp_inv_def tp_account_def)
  have "rb_capacity (tp_ring t) = rb_capacity (tp_ring s) \<and> tp_policy t = tp_policy s"
    using reach_step(2) unfolding tp_step_def
  proof (elim disjE)
    assume st: "wk_step n s t"
    then have "rb_capacity (tp_ring t) = rb_capacity (tp_ring s)"
      by cases (use tp_grab_taken [OF ok] in force)+
    then show ?thesis using wk_step_frame(2) [OF st] by simp
  next
    assume st: "cl_step n m s t"
    then have "rb_capacity (tp_ring t) = rb_capacity (tp_ring s)"
      by cases (use admit_accepted [OF ok] in force)+
    then show ?thesis using cl_step_frame(2) [OF st] by simp
  qed (auto dest: sd_step_frame(2,4))
  then show ?case using reach_step.IH by simp
qed

section \<open>The counter of completed tasks\<close>

text \<open>As a number it never runs ahead of the tasks executed, so the counter does not wrap below zero.\<close>

fun finishing :: "'t wk_pc \<Rightarrow> nat" where
  "finishing K_unbusy = 1"
| "finishing K_complete = 1"
| "finishing _ = 0"

definition tp_counts :: "nat \<Rightarrow> 't pool \<Rightarrow> bool" where
  "tp_counts n t \<longleftrightarrow> (\<exists>k. tp_completed t = of_nat k \<and> length (tp_executed t) = k + (\<Sum>i<n. finishing (tp_wk t i)))"

lemma wk_step_finishing:
  assumes "wk_step n t t'"
  shows "\<exists>i<n. tp_wk t' = (tp_wk t)(i := tp_wk t' i) \<and>
    (tp_completed t' = tp_completed t \<and>
       length (tp_executed t') + finishing (tp_wk t i) = length (tp_executed t) + finishing (tp_wk t' i) \<or>
     tp_completed t' = tp_completed t + 1 \<and> tp_executed t' = tp_executed t \<and>
       finishing (tp_wk t i) = 1 \<and> finishing (tp_wk t' i) = 0)"
  using assms by cases (rule exI, rule conjI, assumption, simp)+

lemma wk_step_counts:
  assumes "tp_counts n t" "wk_step n t t'"
  shows "tp_counts n t'"
proof -
  obtain k where k: "tp_completed t = of_nat k" "length (tp_executed t) = k + (\<Sum>i<n. finishing (tp_wk t i))"
    using assms(1) by (auto simp: tp_counts_def)
  obtain i where i: "i < n" "tp_wk t' = (tp_wk t)(i := tp_wk t' i)"
      "tp_completed t' = tp_completed t \<and>
         length (tp_executed t') + finishing (tp_wk t i) = length (tp_executed t) + finishing (tp_wk t' i) \<or>
       tp_completed t' = tp_completed t + 1 \<and> tp_executed t' = tp_executed t \<and>
         finishing (tp_wk t i) = 1 \<and> finishing (tp_wk t' i) = 0"
    using wk_step_finishing [OF assms(2)] by blast
  have sum: "(\<Sum>u<n. finishing (tp_wk t' u)) + finishing (tp_wk t i) = (\<Sum>u<n. finishing (tp_wk t u)) + finishing (tp_wk t' i)"
    using sum_thread_update [OF i(1), of finishing "tp_wk t" "tp_wk t' i"] i(2) by simp
  from i(3) show ?thesis
  proof
    assume "tp_completed t' = tp_completed t \<and>
      length (tp_executed t') + finishing (tp_wk t i) = length (tp_executed t) + finishing (tp_wk t' i)"
    then show ?thesis using k sum by (auto simp: tp_counts_def intro!: exI [of _ k])
  next
    assume "tp_completed t' = tp_completed t + 1 \<and> tp_executed t' = tp_executed t \<and>
      finishing (tp_wk t i) = 1 \<and> finishing (tp_wk t' i) = 0"
    then show ?thesis using k sum by (auto simp: tp_counts_def add.commute intro!: exI [of _ "k + 1"])
  qed
qed

lemma counts_frame:
  assumes "tp_counts n t" "only_wakes (tp_wk t) (tp_wk t')" "tp_completed t' = tp_completed t"
    "tp_executed t' = tp_executed t"
  shows "tp_counts n t'"
proof -
  have "finishing (tp_wk t' i) = finishing (tp_wk t i)" for i
    using assms(2) unfolding only_wakes_def by (metis finishing.simps)
  then show ?thesis using assms by (simp add: tp_counts_def)
qed

lemma tp_step_counts:
  assumes "tp_counts n t" "tp_step n m t t'"
  shows "tp_counts n t'"
  using assms(2) unfolding tp_step_def
proof (elim disjE)
  assume st: "cl_step n m t t'"
  then show ?thesis by cases (rule counts_frame [OF assms(1)]; simp)+
next
  assume st: "sd_step n m t t'"
  then show ?thesis by cases (rule counts_frame [OF assms(1)]; simp)+
qed (rule wk_step_counts [OF assms(1)])

interpretation counts: inductive_invariant "tp_init q p" "tp_step n m" "tp_counts n" for q p n m
proof
  show "tp_counts n s" if "tp_init q p s" for s :: "'b pool" using that by (auto simp: tp_init_def tp_counts_def)
qed (rule tp_step_counts)

lemma executed_given:
  assumes "reach (tp_init q p) (tp_step n m) t"
  shows "mset (tp_executed t) \<subseteq># mset (tp_accepted t)"
  using tp.inv_reach [OF assms] by (auto simp: tp_inv_def tp_account_def)

lemma completed_bound:
  assumes "reach (tp_init q p) (tp_step n m) t"
  shows "unat (tp_completed t) \<le> length (tp_executed t)"
proof -
  obtain k where "tp_completed t = of_nat k" "k \<le> length (tp_executed t)"
    using counts.inv_reach [OF assms] by (auto simp: tp_counts_def)
  then show ?thesis by (simp add: unat_of_nat)
qed

end
