(* ===== verification/Thread_Pool_Properties.thy ===== *)
theory Thread_Pool_Properties
  imports Thread_Pool_Correct
begin

text \<open>
  The properties of \<open>ThreadPool\<close> over every reachable state of \<open>tp_step n m\<close> (\<open>n\<close> workers, \<open>m\<close> client threads),
  from the invariant of \<open>Thread_Pool_Correct\<close>, and the runs that show what the pool does in three corner
  cases.
\<close>

section \<open>Runs\<close>

lemma tp_wk: "wk_step n s t \<Longrightarrow> reach I (tp_step n m) s \<Longrightarrow> reach I (tp_step n m) t"
  and tp_cl: "cl_step n m s t \<Longrightarrow> reach I (tp_step n m) s \<Longrightarrow> reach I (tp_step n m) t"
  and tp_sd: "sd_step n m s t \<Longrightarrow> reach I (tp_step n m) s \<Longrightarrow> reach I (tp_step n m) t"
  by (auto simp: tp_step_def intro: reach_step)

text \<open>A client submits a task while the workers have not started.\<close>

lemma tp_run_submit:
  fixes x :: 't and r :: "'t ring"
  assumes "rb_new q = Inr r" "\<not> rb_full r"
  shows "\<exists>s. reach (tp_init q p) (tp_step n 1) s \<and> tp_wk s = (\<lambda>_. K_lock) \<and>
    tp_cl s = (\<lambda>_. L_idle)(0 := L_end R_accepted) \<and> tp_mtx s = None \<and> \<not> tp_stop s \<and> tp_active s = 1 \<and>
    rb_ok (tp_ring s) \<and> rb_list (tp_ring s) = [x] \<and> tp_busy s = 0 \<and> tp_accepted s = [x] \<and> tp_started s = [] \<and>
    tp_executed s = []"
proof -
  note rok = rb_new_ok(1,2) [OF assms(1)]
  let ?R = "reach (tp_init q p) (tp_step n 1) :: 't pool \<Rightarrow> bool"
  define s0 :: "'t pool" where "s0 = \<lparr>tp_ring = r, tp_mtx = None, tp_stop = False, tp_policy = p, tp_active = 0,
    tp_submitted = 0, tp_completed = 0, tp_busy = 0, tp_wk = (\<lambda>_. K_lock), tp_cl = (\<lambda>_. L_idle),
    tp_accepted = [], tp_started = [], tp_executed = []\<rparr>"
  have "?R s0" using assms(1) by (auto intro: reach_init simp: tp_init_def s0_def)
  note d = s0_def
  obtain r1 where r1: "rb_push x r = (True, r1)" "rb_ok r1" "rb_list r1 = [x]"
    using rb_push_room [OF rok(1) assms(2), of x] rok(2) by auto
  define s1 where "s1 = cl_to 0 (L_lock Submit x) (s0\<lparr>tp_active := tp_active s0 + 1\<rparr>)"
  have "?R s1" unfolding s1_def by (rule tp_cl [OF c_submit \<open>?R s0\<close>]) (simp_all add: d)
  note d = d s1_def
  define s2 where "s2 = cl_to 0 (L_crit Submit x) (s1\<lparr>tp_mtx := Some (Cl 0)\<rparr>)"
  have "?R s2" unfolding s2_def by (rule tp_cl [OF c_lock \<open>?R s1\<close>]) (simp_all add: d)
  note d = d s2_def
  have adm: "admit Submit x s2 = Accepted_by r1"
    using assms(2) r1(1) by (simp add: d admit_def tp_enqueue_def tp_push_checked_def split: policy.splits)
  define s3 where "s3 = cl_to 0 (L_unlock R_accepted)
      (s2\<lparr>tp_ring := r1, tp_submitted := tp_submitted s2 + 1, tp_accepted := tp_accepted s2 @ [x]\<rparr>)"
  have "?R s3" unfolding s3_def
    by (rule tp_cl [OF c_accept [where k = Submit] \<open>?R s2\<close>]) (simp_all add: adm, simp_all add: d)
  note d = d s3_def
  define s4 where "s4 = cl_to 0 (if R_accepted = R_accepted then L_notify else L_end R_accepted) (s3\<lparr>tp_mtx := None\<rparr>)"
  have "?R s4" unfolding s4_def by (rule tp_cl [OF c_unlock \<open>?R s3\<close>]) (simp_all add: d)
  note d = d s4_def
  define s5 where "s5 = cl_to 0 (L_end R_accepted) s4"
  have "?R s5" unfolding s5_def by (rule tp_cl [OF c_notify_none \<open>?R s4\<close>]) (simp_all add: d)
  note d = d s5_def
  show ?thesis by (rule exI [of _ s5]) (use \<open>?R s5\<close> r1 in \<open>simp add: d fun_eq_iff\<close>)
qed

text \<open>The only worker takes the task.\<close>

lemma tp_run_take:
  fixes x :: 't and r :: "'t ring"
  assumes "rb_new q = Inr r" "\<not> rb_full r"
  shows "\<exists>s. reach (tp_init q p) (tp_step 1 1) s \<and> tp_wk s = (\<lambda>_. K_lock)(0 := K_busy x) \<and>
    tp_cl s = (\<lambda>_. L_idle)(0 := L_end R_accepted) \<and> tp_mtx s = None \<and> \<not> tp_stop s \<and> tp_active s = 1 \<and>
    rb_ok (tp_ring s) \<and> rb_list (tp_ring s) = [] \<and> tp_busy s = 0 \<and> tp_accepted s = [x] \<and> tp_executed s = []"
proof -
  let ?R = "reach (tp_init q p) (tp_step 1 1) :: 't pool \<Rightarrow> bool"
  obtain s where s: "?R s" "tp_wk s = (\<lambda>_. K_lock)" "tp_cl s = (\<lambda>_. L_idle)(0 := L_end R_accepted)"
      "tp_mtx s = None" "\<not> tp_stop s" "tp_active s = 1" "rb_ok (tp_ring s)" "rb_list (tp_ring s) = [x]"
      "tp_busy s = 0" "tp_accepted s = [x]" "tp_executed s = []"
    using tp_run_submit [OF assms, of p 1 x] by blast
  obtain r2 where r2: "tp_grab False (tp_ring s) = Grabbed x r2" "rb_ok r2" "rb_list r2 = []"
    using tp_grab_task [OF s(7,8)] by blast
  note d = s(2-)
  define s6 where "s6 = wk_to 0 K_crit (s\<lparr>tp_mtx := Some (Wk 0)\<rparr>)"
  have "?R s6" unfolding s6_def by (rule tp_wk [OF w_lock \<open>?R s\<close>]) (simp_all add: d)
  note d = d s6_def
  define s7 where "s7 = wk_to 0 (K_notify x) (s6\<lparr>tp_ring := r2, tp_started := tp_started s6 @ [x]\<rparr>)"
  have "?R s7" unfolding s7_def by (rule tp_wk [OF w_pop \<open>?R s6\<close>]) (simp_all add: d r2(1))
  note d = d s7_def
  define s8 where "s8 = wk_to 0 (K_unlock x) s7"
  have "?R s8" unfolding s8_def by (rule tp_wk [OF w_notify_none \<open>?R s7\<close>]) (simp_all add: d)
  note d = d s8_def
  define s9 where "s9 = wk_to 0 (K_busy x) (s8\<lparr>tp_mtx := None\<rparr>)"
  have "?R s9" unfolding s9_def by (rule tp_wk [OF w_unlock \<open>?R s8\<close>]) (simp_all add: d)
  note d = d s9_def
  show ?thesis by (rule exI [of _ s9]) (use \<open>?R s9\<close> r2 in \<open>simp add: d fun_eq_iff\<close>)
qed

text \<open>The worker executes it.\<close>

lemma tp_run_execute:
  fixes x :: 't and r :: "'t ring"
  assumes "rb_new q = Inr r" "\<not> rb_full r"
  shows "\<exists>s. reach (tp_init q p) (tp_step 1 1) s \<and> tp_wk s = (\<lambda>_. K_lock) \<and>
    tp_cl s = (\<lambda>_. L_idle)(0 := L_end R_accepted) \<and> tp_mtx s = None \<and> \<not> tp_stop s \<and> tp_active s = 1 \<and>
    rb_ok (tp_ring s) \<and> rb_list (tp_ring s) = [] \<and> tp_accepted s = [x] \<and> tp_executed s = [x]"
proof -
  let ?R = "reach (tp_init q p) (tp_step 1 1) :: 't pool \<Rightarrow> bool"
  obtain s where s: "?R s" "tp_wk s = (\<lambda>_. K_lock)(0 := K_busy x)" "tp_cl s = (\<lambda>_. L_idle)(0 := L_end R_accepted)"
      "tp_mtx s = None" "\<not> tp_stop s" "tp_active s = 1" "rb_ok (tp_ring s)" "rb_list (tp_ring s) = []"
      "tp_busy s = 0" "tp_accepted s = [x]" "tp_executed s = []"
    using tp_run_take [OF assms, of p x] by blast
  note d = s(2-)
  define s1 where "s1 = wk_to 0 (K_run x) (s\<lparr>tp_busy := tp_busy s + 1\<rparr>)"
  have "?R s1" unfolding s1_def by (rule tp_wk [OF w_busy \<open>?R s\<close>]) (simp_all add: d)
  note d = d s1_def
  define s2 where "s2 = wk_to 0 K_unbusy (s1\<lparr>tp_executed := tp_executed s1 @ [x]\<rparr>)"
  have "?R s2" unfolding s2_def by (rule tp_wk [OF w_run \<open>?R s1\<close>]) (simp_all add: d)
  note d = d s2_def
  define s3 where "s3 = wk_to 0 K_complete (s2\<lparr>tp_busy := tp_busy s2 - 1\<rparr>)"
  have "?R s3" unfolding s3_def by (rule tp_wk [OF w_unbusy \<open>?R s2\<close>]) (simp_all add: d)
  note d = d s3_def
  define s4 where "s4 = wk_to 0 K_lock (s3\<lparr>tp_completed := tp_completed s3 + 1\<rparr>)"
  have "?R s4" unfolding s4_def by (rule tp_wk [OF w_complete \<open>?R s3\<close>]) (simp_all add: d)
  note d = d s4_def
  show ?thesis by (rule exI [of _ s4]) (use \<open>?R s4\<close> in \<open>simp add: d fun_eq_iff\<close>)
qed


text \<open>The client returns from \<open>submit\<close> and calls \<open>shutdown\<close>, which comes to waiting for submissions in
  flight and then to joining the workers.\<close>

lemma tp_run_spin:
  fixes s :: "'t pool"
  assumes "reach I (tp_step n 1) s" "tp_wk s = (\<lambda>_. K_lock)" "tp_cl s = (\<lambda>_. L_idle)(0 := L_end R_accepted)"
    "tp_mtx s = None" "\<not> tp_stop s" "tp_active s = 1"
  shows "\<exists>t. reach I (tp_step n 1) t \<and> tp_cl t = (\<lambda>_. L_idle)(0 := H_spin) \<and> tp_mtx t = None \<and> tp_stop t \<and>
    tp_active t = 0 \<and> tp_wk t = (\<lambda>_. K_lock) \<and> tp_ring t = tp_ring s \<and> tp_accepted t = tp_accepted s \<and> tp_executed t = tp_executed s"
proof -
  let ?R = "reach I (tp_step n 1)"
  note d = assms(2-)
  define s1 where "s1 = cl_to 0 L_idle (s\<lparr>tp_active := tp_active s - 1\<rparr>)"
  have "?R s1" unfolding s1_def by (rule tp_cl [OF c_end \<open>?R s\<close>]) (simp_all add: d)
  note d = d s1_def
  define s2 where "s2 = cl_to 0 H_lock s1"
  have "?R s2" unfolding s2_def by (rule tp_sd [OF h_call \<open>?R s1\<close>]) (simp_all add: d)
  note d = d s2_def
  define s3 where "s3 = cl_to 0 H_crit (s2\<lparr>tp_mtx := Some (Cl 0)\<rparr>)"
  have "?R s3" unfolding s3_def by (rule tp_sd [OF h_lock \<open>?R s2\<close>]) (simp_all add: d)
  note d = d s3_def
  define s4 where "s4 = cl_to 0 H_unlock (s3\<lparr>tp_stop := True\<rparr>)"
  have "?R s4" unfolding s4_def by (rule tp_sd [OF h_stop \<open>?R s3\<close>]) (simp_all add: d)
  note d = d s4_def
  define s5 where "s5 = cl_to 0 H_notify_workers (s4\<lparr>tp_mtx := None\<rparr>)"
  have "?R s5" unfolding s5_def by (rule tp_sd [OF h_unlock \<open>?R s4\<close>]) (simp_all add: d)
  note d = d s5_def
  define s6 where "s6 = cl_to 0 H_notify_producers (s5\<lparr>tp_wk := (\<lambda>i. wake_worker (tp_wk s5 i))\<rparr>)"
  have "?R s6" unfolding s6_def by (rule tp_sd [OF h_notify_workers \<open>?R s5\<close>]) (simp_all add: d)
  note d = d s6_def
  define s7 where "s7 = s6\<lparr>tp_cl := (\<lambda>d. wake_client (tp_cl s6 d))(0 := H_spin)\<rparr>"
  have "?R s7" unfolding s7_def by (rule tp_sd [OF h_notify_producers \<open>?R s6\<close>]) (simp_all add: d)
  note d = d s7_def
  show ?thesis by (rule exI [of _ s7]) (use \<open>?R s7\<close> in \<open>simp add: d fun_eq_iff\<close>)
qed

lemma tp_run_shutdown:
  fixes s :: "'t pool"
  assumes "reach I (tp_step n 1) s" "tp_wk s = (\<lambda>_. K_lock)" "tp_cl s = (\<lambda>_. L_idle)(0 := L_end R_accepted)"
    "tp_mtx s = None" "\<not> tp_stop s" "tp_active s = 1"
  shows "\<exists>t. reach I (tp_step n 1) t \<and> tp_cl t = (\<lambda>_. L_idle)(0 := H_join 0) \<and> tp_mtx t = None \<and> tp_stop t \<and>
    tp_wk t = (\<lambda>_. K_lock) \<and> tp_ring t = tp_ring s \<and> tp_accepted t = tp_accepted s \<and> tp_executed t = tp_executed s"
proof -
  obtain t where t: "reach I (tp_step n 1) t" "tp_cl t = (\<lambda>_. L_idle)(0 := H_spin)" "tp_mtx t = None" "tp_stop t"
      "tp_active t = 0" "tp_wk t = (\<lambda>_. K_lock)" "tp_ring t = tp_ring s" "tp_accepted t = tp_accepted s"
      "tp_executed t = tp_executed s"
    using tp_run_spin [OF assms] by blast
  have "reach I (tp_step n 1) (cl_to 0 (H_join 0) t)" by (rule tp_sd [OF h_spun t(1)]) (simp_all add: t)
  then show ?thesis by (intro exI [of _ "cl_to 0 (H_join 0) t"]) (simp add: t fun_eq_iff)
qed

text \<open>The worker finds the queue empty, exits, and is joined.\<close>

lemma tp_run_done:
  fixes x :: 't and r :: "'t ring"
  assumes "rb_new q = Inr r" "\<not> rb_full r"
  shows "\<exists>s. reach (tp_init q p) (tp_step 1 1) s \<and> tp_cl s 0 = H_done \<and> tp_accepted s = [x] \<and> tp_executed s = [x]"
proof -
  let ?R = "reach (tp_init q p) (tp_step 1 1) :: 't pool \<Rightarrow> bool"
  obtain s' where s': "?R s'" "tp_wk s' = (\<lambda>_. K_lock)" "tp_cl s' = (\<lambda>_. L_idle)(0 := L_end R_accepted)"
      "tp_mtx s' = None" "\<not> tp_stop s'" "tp_active s' = 1" "rb_ok (tp_ring s')" "rb_list (tp_ring s') = []"
      "tp_accepted s' = [x]" "tp_executed s' = [x]"
    using tp_run_execute [OF assms, of p x] by blast
  obtain s where s: "?R s" "tp_cl s = (\<lambda>_. L_idle)(0 := H_join 0)" "tp_mtx s = None" "tp_stop s"
      "tp_wk s = (\<lambda>_. K_lock)" "tp_ring s = tp_ring s'" "tp_accepted s = [x]" "tp_executed s = [x]"
    using tp_run_shutdown [OF s'(1-6)] s'(9,10) by auto
  have leave: "tp_grab True (tp_ring s') = Leave" using s'(7,8) by (simp add: tp_grab_empty)
  note d = s(2-)
  define s1 where "s1 = wk_to 0 K_crit (s\<lparr>tp_mtx := Some (Wk 0)\<rparr>)"
  have "?R s1" unfolding s1_def by (rule tp_wk [OF w_lock \<open>?R s\<close>]) (simp_all add: d)
  note d = d s1_def
  define s2 where "s2 = wk_to 0 K_unlock_exit s1"
  have "?R s2" unfolding s2_def by (rule tp_wk [OF w_leave \<open>?R s1\<close>]) (simp_all add: d leave)
  note d = d s2_def
  define s3 where "s3 = wk_to 0 K_exit (s2\<lparr>tp_mtx := None\<rparr>)"
  have "?R s3" unfolding s3_def by (rule tp_wk [OF w_unlock_exit \<open>?R s2\<close>]) (simp_all add: d)
  note d = d s3_def
  define s4 where "s4 = cl_to 0 (H_join (Suc 0)) s3"
  have "?R s4" unfolding s4_def by (rule tp_sd [OF h_join \<open>?R s3\<close>]) (simp_all add: d)
  note d = d s4_def
  define s5 where "s5 = cl_to 0 H_done s4"
  have "?R s5" unfolding s5_def by (rule tp_sd [OF h_done \<open>?R s4\<close>]) (simp_all add: d)
  show ?thesis by (rule exI [of _ s5]) (use \<open>?R s5\<close> in \<open>simp add: d s5_def\<close>)
qed

lemma rb_new_2_room: "\<exists>r. rb_new 2 = Inr (r :: 't ring) \<and> \<not> rb_full r"
proof -
  obtain r :: "'t ring" where r: "rb_new 2 = Inr r" using rb_new_total [of 2] by auto
  show ?thesis using r rb_full_list [OF rb_new_ok(1) [OF r]] rb_new_ok(2,3) [OF r] by auto
qed

section \<open>Properties\<close>

text \<open>C25: whatever the interleaving, the tasks accepted are, in order, those the workers have started
  followed by those in the queue (FIFO); every started task has been executed exactly once or is in the
  hand of exactly one worker; the queue stays within its capacity; \<open>submitted_tasks\<close>, \<open>completed_tasks\<close>
  and \<open>busy_workers\<close> count what they should (modulo the width of the counters).\<close>

theorem thread_pool_exactly_once:
  assumes "reach (tp_init q p) (tp_step n m) s"
  shows "tp_accepted s = tp_started s @ rb_list (tp_ring s) \<and>
    mset (tp_started s) = mset (tp_executed s) + (\<Sum>i<n. hand (tp_wk s i)) \<and>
    length (rb_list (tp_ring s)) = unat (tp_getQueueSize s) \<and> tp_getQueueSize s \<le> rb_capacity (tp_ring s) \<and>
    tp_submitted s = of_nat (length (tp_accepted s)) \<and>
    tp_busy s = (\<Sum>i<n. counted_busy (tp_wk s i)) \<and>
    tp_completed s + (\<Sum>i<n. uncounted (tp_wk s i)) = of_nat (length (tp_executed s))"
proof -
  note a = tp.inv_reach [OF assms, unfolded tp_inv_def tp_account_def]
  have "rb_size (tp_ring s) \<le> rb_capacity (tp_ring s)" using a by (simp add: rb_ok_def word_le_nat_alt)
  then show ?thesis using a rb_list_length [of "tp_ring s"] by (simp add: tp_getQueueSize_def)
qed

text \<open>C27: at most one thread is inside a critical section at any time. While a worker sleeps, the
  queue never holds more tasks than there are workers about to look into it and clients about to notify
  one; while a producer sleeps in a running pool, the queue never has more free places than there are
  workers about to notify a producer and producers about to enter. Once \<open>stop\<close> is set, threads sleep only
  until \<open>shutdown\<close> has notified all.\<close>

theorem thread_pool_no_lost_wakeup:
  assumes "reach (tp_init q p) (tp_step n m) s"
  shows "(\<forall>i j. wk_holds (tp_wk s i) \<longrightarrow> wk_holds (tp_wk s j) \<longrightarrow> i = j) \<and>
    (\<forall>c d. cl_holds (tp_cl s c) \<longrightarrow> cl_holds (tp_cl s d) \<longrightarrow> c = d) \<and>
    (\<forall>i c. wk_holds (tp_wk s i) \<longrightarrow> \<not> cl_holds (tp_cl s c)) \<and>
    ((\<exists>i<n. tp_wk s i = K_asleep) \<longrightarrow>
      length (rb_list (tp_ring s)) \<le> (\<Sum>i<n. seeking (tp_wk s i)) + (\<Sum>c<m. notifying (tp_cl s c))) \<and>
    ((\<exists>c x. tp_cl s c = L_asleep x) \<longrightarrow> \<not> tp_stop s \<longrightarrow>
      unat (rb_capacity (tp_ring s)) - length (rb_list (tp_ring s)) \<le>
        (\<Sum>i<n. freeing (tp_wk s i)) + (\<Sum>c<m. entering (tp_cl s c))) \<and>
    (tp_stop s \<longrightarrow> (\<exists>i. tp_wk s i = K_asleep) \<longrightarrow> (\<exists>c<m. tp_cl s c \<in> {H_unlock, H_notify_workers})) \<and>
    (tp_stop s \<longrightarrow> (\<exists>c x. tp_cl s c = L_asleep x) \<longrightarrow>
      (\<exists>c<m. tp_cl s c \<in> {H_unlock, H_notify_workers, H_notify_producers}))"
proof -
  note i = tp.inv_reach [OF assms, unfolded tp_inv_def]
  have l: "tp_lock s" and w: "tp_wake_workers n m s" and c: "tp_wake_clients n m s" and t: "tp_wake_stop n m s"
    using i by auto
  show ?thesis
    using l w c t
    by (intro conjI)
      (simp_all add: tp_lock_def tp_wake_workers_def tp_wake_clients_def tp_wake_stop_def, auto)
qed


text \<open>Nothing is accepted once \<open>stop\<close> is set.\<close>

lemma tp_step_stopped:
  assumes "tp_inv n m s" "tp_stop s" "tp_step n m s t"
  shows "tp_stop t \<and> tp_accepted t = tp_accepted s"
  using assms(3) unfolding tp_step_def
proof (elim disjE)
  assume st: "wk_step n s t"
  then have "tp_accepted t = tp_accepted s" by cases auto
  then show ?thesis using wk_step_frame(1) [OF st] assms(2) by simp
next
  assume st: "cl_step n m s t"
  then have "tp_accepted t = tp_accepted s"
  proof cases
    case (c_accept c k x r)
    then show ?thesis using admit_accepted [OF _ c_accept(4)] assms(1,2) by (simp add: tp_inv_def tp_account_def)
  qed simp_all
  then show ?thesis using cl_step_frame(1) [OF st] assms(2) by simp
next
  assume st: "sd_step n m s t"
  then have "tp_accepted t = tp_accepted s" by cases auto
  then show ?thesis using sd_step_frame(1) [OF st] assms(2) by simp
qed

lemma tp_steps_stopped:
  assumes "(tp_step n m)\<^sup>*\<^sup>* s t" "tp_inv n m s" "tp_stop s"
  shows "tp_inv n m t \<and> tp_stop t \<and> tp_accepted t = tp_accepted s"
  using assms by (induction rule: rtranclp_induct) (auto dest: tp_step_stopped tp_step_inv)

lemma tp_shutdown_done:
  assumes "reach (tp_init q p) (tp_step n m) s" "0 < n" "tp_cl s c = H_done"
  shows "tp_stop s" "tp_wk s = (\<lambda>i. if i < n then K_exit else tp_wk s i)" "rb_list (tp_ring s) = []"
    "mset (tp_executed s) = mset (tp_accepted s)" "tp_busy s = 0"
    "tp_completed s = of_nat (length (tp_executed s))" "tp_submitted s = of_nat (length (tp_accepted s))"
proof -
  note inv = tp.inv_reach [OF assms(1)]
  note a = inv [unfolded tp_inv_def tp_account_def]
  have e: "tp_stop s" "\<forall>i<n. tp_wk s i = K_exit"
    using inv assms(3) unfolding tp_inv_def tp_exit_def by (metis shut_ok.simps(6))+
  then have r: "rb_list (tp_ring s) = []"
    using inv assms(2) unfolding tp_inv_def tp_exit_def by blast
  have "(\<Sum>i<n. hand (tp_wk s i)) = {#}" "(\<Sum>i<n. counted_busy (tp_wk s i)) = 0" "(\<Sum>i<n. uncounted (tp_wk s i)) = 0"
    using e(2) by simp_all
  then show "mset (tp_executed s) = mset (tp_accepted s)" "tp_busy s = 0"
    "tp_completed s = of_nat (length (tp_executed s))" "tp_submitted s = of_nat (length (tp_accepted s))"
    using a r by simp_all
  show "tp_stop s" "rb_list (tp_ring s) = []" by (rule e(1), rule r)
  show "tp_wk s = (\<lambda>i. if i < n then K_exit else tp_wk s i)" using e(2) by (auto simp: fun_eq_iff)
qed

text \<open>C26: when \<open>shutdown\<close> of a pool with at least one worker has run through, every accepted task has been
  executed, exactly once, the queue is empty, no worker is busy, all accepted tasks are counted as
  completed, and whatever is called afterwards, nothing is accepted any more.\<close>

theorem thread_pool_shutdown_drains:
  assumes "reach (tp_init q p) (tp_step n m) s" "0 < n" "tp_cl s c = H_done"
  shows "mset (tp_executed s) = mset (tp_accepted s) \<and> rb_list (tp_ring s) = [] \<and> tp_busy s = 0 \<and>
    tp_completed s = tp_submitted s \<and> (\<forall>i<n. tp_wk s i = K_exit) \<and>
    (\<forall>t. (tp_step n m)\<^sup>*\<^sup>* s t \<longrightarrow> tp_accepted t = tp_accepted s)"
proof -
  note d = tp_shutdown_done [OF assms]
  have "tp_completed s = tp_submitted s" using d(6,7) mset_eq_length [OF d(4)] by simp
  moreover have "\<forall>i<n. tp_wk s i = K_exit" by (subst d(2)) simp
  moreover have "\<forall>t. (tp_step n m)\<^sup>*\<^sup>* s t \<longrightarrow> tp_accepted t = tp_accepted s"
    using tp_steps_stopped [OF _ tp.inv_reach [OF assms(1)] d(1)] by blast
  ultimately show ?thesis using d(3-5) by blast
qed

theorem thread_pool_shutdown_drains_witness:
  "\<exists>s. reach (tp_init 2 BLOCK) (tp_step 1 1) s \<and> tp_cl s 0 = H_done \<and> tp_executed s = [42 :: nat] \<and>
    tp_completed s = 1 \<and> tp_busy s = 0"
proof -
  obtain r :: "nat ring" where r: "rb_new 2 = Inr r" "\<not> rb_full r" using rb_new_2_room by blast
  obtain s where s: "reach (tp_init 2 BLOCK) (tp_step 1 1) s" "tp_cl s 0 = H_done" "tp_accepted s = [42 :: nat]"
      "tp_executed s = [42]"
    using tp_run_done [OF r, of BLOCK 42] by blast
  have "tp_submitted s = 1" using tp.inv_reach [OF s(1)] s(3) by (simp add: tp_inv_def tp_account_def)
  then show ?thesis using thread_pool_shutdown_drains [OF s(1) _ s(2)] s by auto
qed

theorem thread_pool_exactly_once_witness:
  "\<exists>s. reach (tp_init 2 BLOCK) (tp_step 1 1) s \<and> tp_accepted s = [42 :: nat] \<and> tp_executed s = [] \<and>
    mset (tp_started s) = (\<Sum>i<1. hand (tp_wk s i)) \<and> tp_wk s 0 = K_busy 42"
proof -
  obtain r :: "nat ring" where r: "rb_new 2 = Inr r" "\<not> rb_full r" using rb_new_2_room by blast
  obtain s where s: "reach (tp_init 2 BLOCK) (tp_step 1 1) s" "tp_wk s = (\<lambda>_. K_lock)(0 := K_busy 42)"
      "tp_accepted s = [42 :: nat]" "tp_executed s = []"
    using tp_run_take [OF r, of BLOCK 42] by blast
  then show ?thesis using thread_pool_exactly_once [OF s(1)] by (intro exI [of _ s]) auto
qed

theorem thread_pool_no_lost_wakeup_witness:
  "\<exists>s. reach (tp_init 2 BLOCK) (tp_step 1 1) s \<and> tp_accepted s = [42 :: nat] \<and>
    (\<forall>i j. wk_holds (tp_wk s i) \<longrightarrow> wk_holds (tp_wk s j) \<longrightarrow> i = j)"
proof -
  obtain r :: "nat ring" where r: "rb_new 2 = Inr r" "\<not> rb_full r" using rb_new_2_room by blast
  obtain s where s: "reach (tp_init 2 BLOCK) (tp_step 1 1) s" "tp_accepted s = [42 :: nat]"
    using tp_run_take [OF r, of BLOCK 42] by blast
  then show ?thesis by (intro exI [of _ s]) (simp add: thread_pool_no_lost_wakeup [OF s(1), THEN conjunct1])
qed

text \<open>\<open>active_submits\<close> is a 32-bit counter.\<close>

lemma in_flight_count:
  fixes m :: nat and pc :: "nat \<Rightarrow> 't cl_pc"
  assumes "m < 2 ^ 32"
  shows "(\<Sum>c<m. in_flight (pc c)) = 0 \<longleftrightarrow> (\<forall>c<m. in_flight (pc c) = 0)"
proof
  let ?k = "\<lambda>c. unat (in_flight (pc c))"
  assume z: "(\<Sum>c<m. in_flight (pc c)) = 0"
  have w: "(of_nat (\<Sum>c<m. ?k c) :: u32) = (\<Sum>c<m. in_flight (pc c))" by (simp add: of_nat_sum)
  have "in_flight p \<in> {0, 1}" for p :: "'t cl_pc" by (cases p) auto
  then have "?k c \<le> 1" for c by (metis insertE order_refl singletonD unat_0 unat_1 zero_le)
  then have "(\<Sum>c<m. ?k c) \<le> m" using sum_bounded_above [of "{..<m}" ?k 1] by simp
  then have "(\<Sum>c<m. ?k c) < 2 ^ 32" using assms by simp
  moreover have "unat (of_nat (\<Sum>c<m. ?k c) :: u32) = 0" using z w by simp
  ultimately have "(\<Sum>c<m. ?k c) = 0" by (simp add: unat_of_nat del: of_nat_sum)
  then show "\<forall>c<m. in_flight (pc c) = 0" by (simp add: unat_eq_zero)
qed simp


text \<open>\<open>shutdown\<close> goes on to join the workers, and so comes to destroying the members, only when no
  call of \<open>submit\<close>, \<open>submitVoid\<close> or \<open>trySubmit\<close> is in flight (for fewer than \<open>2 ^ 32\<close> threads).\<close>

theorem thread_pool_shutdown_waits:
  assumes "reach (tp_init q p) (tp_step n m) s" "m < 2 ^ 32"
    and "sd_step n m s s'" "tp_cl s c = H_spin" "tp_cl s' c = H_join 0"
  shows "\<forall>d<m. in_flight (tp_cl s' d) = 0 \<and> in_flight (tp_cl s d) = 0"
proof -
  have "tp_active s = 0 \<and> (\<forall>d. in_flight (tp_cl s' d) = in_flight (tp_cl s d))"
    using assms(3)
    by cases (use assms(4,5) in \<open>auto split: if_splits elim: wake_client.elims\<close>)
  moreover have "tp_in_flight m s" using tp.inv_reach [OF assms(1)] by (simp add: tp_inv_def)
  ultimately show ?thesis
    using in_flight_count [OF assms(2), of "tp_cl s"] by (simp add: tp_in_flight_def)
qed

text \<open>C30: what becomes of a submission that is in the critical section, for each policy: it waits only
  under \<open>BLOCK\<close>, when the queue is full and the pool runs; it is rejected by \<open>trySubmit\<close> when the pool
  is stopped or full, and under \<open>DISCARD\<close> when the queue is full, even on a stopped pool; it throws
  \<open>task queue is full\<close> under \<open>THROW\<close> on a full queue, and \<open>submit on stopped ThreadPool\<close> on a stopped pool
  otherwise; and it is accepted exactly when the pool runs and has room, which puts the task at the end
  of the queue (the result of \<open>push\<close> is ignored, rightly).\<close>

theorem thread_pool_admission:
  assumes "reach (tp_init q p) (tp_step n m) s" "tp_cl s c = L_crit k x"
  defines "full \<equiv> length (rb_list (tp_ring s)) = unat (rb_capacity (tp_ring s))"
  shows "(admit k x s = Wait \<longleftrightarrow> k = Submit \<and> p = BLOCK \<and> \<not> tp_stop s \<and> full) \<and>
    (admit k x s = Rejected \<longleftrightarrow> k = Try \<and> (tp_stop s \<or> full) \<or> k = Submit \<and> p = DISCARD \<and> full) \<and>
    (\<forall>e. admit k x s = Throws e \<longleftrightarrow> k = Submit \<and>
       (p = THROW \<and> full \<and> e = Runtime_error ''task queue is full.'' \<or>
        tp_stop s \<and> (full \<longrightarrow> p = BLOCK) \<and> e = Runtime_error ''submit on stopped ThreadPool.'')) \<and>
    (\<forall>r. admit k x s = Accepted_by r \<longrightarrow> rb_ok r \<and> rb_list r = rb_list (tp_ring s) @ [x]) \<and>
    ((\<exists>r. admit k x s = Accepted_by r) \<longleftrightarrow> \<not> tp_stop s \<and> \<not> full)"
proof -
  have ok: "rb_ok (tp_ring s)" using tp.inv_reach [OF assms(1)] by (simp add: tp_inv_def tp_account_def)
  have f: "full \<longleftrightarrow> rb_full (tp_ring s)" by (simp add: full_def rb_full_list [OF ok])
  have p: "tp_policy s = p" using tp_capacity [OF assms(1)] by simp
  have "admit k x s = Accepted_by r \<Longrightarrow> rb_ok r \<and> rb_list r = rb_list (tp_ring s) @ [x]" for r
    using admit_accepted [OF ok, of k x r] by blast
  then show ?thesis
    unfolding f
    by (auto simp: admit_def p tp_enqueue_def tp_tryEnqueue_def tp_push_checked_def split: kind.splits policy.splits if_splits)
qed

text \<open>\<open>idle\<close> may answer true while an accepted task has been taken out of the queue and not yet
  executed: the worker counts itself busy only after it has released the mutex, so the comment's promise
  (idle means nobody executes and nothing waits) does not extend to a task in a worker's hand.\<close>

theorem thread_pool_idle_early:
  "\<exists>s. reach (tp_init 2 BLOCK) (tp_step 1 1) s \<and> tp_mtx s = None \<and> tp_idle s \<and>
    tp_accepted s = [42 :: nat] \<and> tp_executed s = []"
proof -
  obtain r :: "nat ring" where r: "rb_new 2 = Inr r" "\<not> rb_full r" using rb_new_2_room by blast
  obtain s where s: "reach (tp_init 2 BLOCK) (tp_step 1 1) s" "tp_mtx s = None" "rb_ok (tp_ring s)"
      "rb_list (tp_ring s) = []" "tp_busy s = 0" "tp_accepted s = [42 :: nat]" "tp_executed s = []"
    using tp_run_take [OF r, of BLOCK 42] by blast
  then show ?thesis using rb_empty_list [OF s(3)] by (auto simp: tp_idle_def)
qed

text \<open>A pool without workers accepts a task, and its \<open>shutdown\<close> returns without executing it.\<close>

lemma thread_pool_without_workers:
  "\<exists>s. reach (tp_init 2 BLOCK) (tp_step 0 1) s \<and> tp_cl s 0 = H_done \<and> tp_accepted s = [42 :: nat] \<and> tp_executed s = []"
proof -
  let ?R = "reach (tp_init 2 BLOCK) (tp_step 0 1) :: nat pool \<Rightarrow> bool"
  obtain r :: "nat ring" where r: "rb_new 2 = Inr r" "\<not> rb_full r" using rb_new_2_room by blast
  obtain s where s: "?R s" "tp_wk s = (\<lambda>_. K_lock)" "tp_cl s = (\<lambda>_. L_idle)(0 := L_end R_accepted)" "tp_mtx s = None"
      "\<not> tp_stop s" "tp_active s = 1" "tp_accepted s = [42]" "tp_executed s = []"
    using tp_run_submit [OF r, of BLOCK 0 42] by blast
  obtain t where t: "?R t" "tp_cl t = (\<lambda>_. L_idle)(0 := H_join 0)" "tp_accepted t = [42]" "tp_executed t = []"
    using tp_run_shutdown [OF s(1-6)] s(7,8) by auto
  have "?R (cl_to 0 H_done t)" by (rule tp_sd [OF h_done \<open>?R t\<close>]) (simp_all add: t)
  then show ?thesis by (rule exI [of _ "cl_to 0 H_done t", OF conjI]) (simp add: t)
qed


theorem thread_pool_shutdown_waits_witness:
  "\<exists>s s'. reach (tp_init 2 BLOCK) (tp_step 1 1) s \<and> sd_step 1 1 s s' \<and> tp_cl s' 0 = H_join 0 \<and>
    tp_accepted s' = [42 :: nat] \<and> (\<forall>d<1. in_flight (tp_cl s' d) = 0)"
proof -
  obtain r :: "nat ring" where r: "rb_new 2 = Inr r" "\<not> rb_full r" using rb_new_2_room by blast
  obtain u where u: "reach (tp_init 2 BLOCK) (tp_step 1 1) u" "tp_wk u = (\<lambda>_. K_lock)"
      "tp_cl u = (\<lambda>_. L_idle)(0 := L_end R_accepted)" "tp_mtx u = None" "\<not> tp_stop u" "tp_active u = 1"
      "tp_accepted u = [42 :: nat]"
    using tp_run_submit [OF r, of BLOCK 1 42] by blast
  obtain s where s: "reach (tp_init 2 BLOCK) (tp_step 1 1) s" "tp_cl s = (\<lambda>_. L_idle)(0 := H_spin)" "tp_active s = 0"
      "tp_accepted s = [42 :: nat]"
    using tp_run_spin [OF u(1-6)] u(7) by auto
  have st: "sd_step 1 1 s (cl_to 0 (H_join 0) s)" by (rule h_spun) (simp_all add: s)
  show ?thesis
    using thread_pool_shutdown_waits [OF s(1) _ st, of 0] s st
    by (intro exI [of _ s] exI [of _ "cl_to 0 (H_join 0) s"]) simp
qed

theorem thread_pool_admission_witness:
  "\<exists>s :: nat pool. reach (tp_init 2 DISCARD) (tp_step 1 1) s \<and> tp_cl s 0 = L_crit Submit 42 \<and>
    (\<exists>r. admit Submit 42 s = Accepted_by r)"
proof -
  obtain r :: "nat ring" where r: "rb_new 2 = Inr r" "\<not> rb_full r" using rb_new_2_room by blast
  let ?R = "reach (tp_init 2 DISCARD) (tp_step 1 1) :: nat pool \<Rightarrow> bool"
  define s0 :: "nat pool" where "s0 = \<lparr>tp_ring = r, tp_mtx = None, tp_stop = False, tp_policy = DISCARD, tp_active = 0,
    tp_submitted = 0, tp_completed = 0, tp_busy = 0, tp_wk = (\<lambda>_. K_lock), tp_cl = (\<lambda>_. L_idle),
    tp_accepted = [], tp_started = [], tp_executed = []\<rparr>"
  have "?R s0" using r(1) by (auto intro: reach_init simp: tp_init_def s0_def)
  define s1 where "s1 = cl_to 0 (L_lock Submit 42) (s0\<lparr>tp_active := tp_active s0 + 1\<rparr>)"
  have "?R s1" unfolding s1_def by (rule tp_cl [OF c_submit \<open>?R s0\<close>]) (simp_all add: s0_def)
  define s2 where "s2 = cl_to 0 (L_crit Submit 42) (s1\<lparr>tp_mtx := Some (Cl 0)\<rparr>)"
  have s2: "?R s2" unfolding s2_def by (rule tp_cl [OF c_lock \<open>?R s1\<close>]) (simp_all add: s0_def s1_def)
  have c: "tp_cl s2 0 = L_crit Submit 42" "tp_ring s2 = r" "\<not> tp_stop s2" by (simp_all add: s0_def s1_def s2_def)
  have "length (rb_list r) \<noteq> unat (rb_capacity r)" using r rb_full_list [OF rb_new_ok(1) [OF r(1)]] by simp
  then show ?thesis using thread_pool_admission [OF s2 c(1)] s2 c by (intro exI [of _ s2]) auto
qed

end
