(* ===== verification/Thread_Pool_Progress.thy ===== *)
theory Thread_Pool_Progress
  imports Thread_Pool_Properties
begin

text \<open>
  \<open>ThreadPool\<close> comes to rest: if nobody starts another call, the threads have only a bounded number of
  steps left, and they stop only where every call has returned and every accepted task has been executed.
  Busy waiting and spurious wake-ups do not count as steps: neither the bound nor the
  end may depend on them.
\<close>

section \<open>Working steps\<close>

definition spurious :: "nat \<Rightarrow> nat \<Rightarrow> 't pool \<Rightarrow> 't pool \<Rightarrow> bool" where
  "spurious n m s s' \<longleftrightarrow>
     (\<exists>i<n. tp_wk s i = K_asleep \<and> s' = wk_to i K_lock s) \<or>
     (\<exists>c<m. \<exists>x. tp_cl s c = L_asleep x \<and> s' = cl_to c (L_lock Submit x) s)"

definition tp_works :: "nat \<Rightarrow> nat \<Rightarrow> 't pool \<Rightarrow> 't pool \<Rightarrow> bool" where
  "tp_works n m s s' \<longleftrightarrow> tp_step n m s s' \<and> s' \<noteq> s \<and> \<not> spurious n m s s' \<and>
     (\<forall>c. tp_cl s c = L_idle \<longrightarrow> tp_cl s' c = L_idle)"

definition tp_rests :: "nat \<Rightarrow> nat \<Rightarrow> 't pool \<Rightarrow> bool" where
  "tp_rests n m s \<longleftrightarrow> \<not> (\<exists>s'. tp_works n m s s')"

section \<open>The steps left\<close>

text \<open>What a thread can still do on its own; a task in the queue is worth 10 steps of a worker. Waking a worker
  gives it 3 steps and waking a producer 2, which the one who notifies pays.\<close>

fun wk_left :: "'t wk_pc \<Rightarrow> nat" where
  "wk_left (K_notify x) = 11"
| "wk_left (K_unlock x) = 8"
| "wk_left (K_busy x) = 7"
| "wk_left (K_run x) = 6"
| "wk_left K_unbusy = 5"
| "wk_left K_complete = 4"
| "wk_left K_unlock_again = 4"
| "wk_left K_lock = 3"
| "wk_left K_crit = 2"
| "wk_left K_unlock_exit = 1"
| "wk_left _ = 0"

fun cl_left :: "nat \<Rightarrow> nat \<Rightarrow> 't cl_pc \<Rightarrow> nat" where
  "cl_left n m (L_try x) = 21"
| "cl_left n m (L_lock k x) = 20"
| "cl_left n m (L_crit k x) = 19"
| "cl_left n m (L_asleep x) = 18"
| "cl_left n m (L_unlock r) = 6"
| "cl_left n m L_notify = 5"
| "cl_left n m (L_end r) = 1"
| "cl_left n m H_lock = 4 * n + 2 * m + 7"
| "cl_left n m H_crit = 4 * n + 2 * m + 6"
| "cl_left n m H_unlock = 4 * n + 2 * m + 5"
| "cl_left n m H_notify_workers = 4 * n + 2 * m + 4"
| "cl_left n m H_notify_producers = n + 2 * m + 3"
| "cl_left n m H_spin = n + 2"
| "cl_left n m (H_join k) = n - k + 1"
| "cl_left n m H_unlock_return = 1"
| "cl_left n m _ = 0"

definition tp_left :: "nat \<Rightarrow> nat \<Rightarrow> 't pool \<Rightarrow> nat" where
  "tp_left n m s = 10 * length (rb_list (tp_ring s)) + (\<Sum>i<n. wk_left (tp_wk s i)) + (\<Sum>c<m. cl_left n m (tp_cl s c))"

lemma left_worker:
  assumes "\<exists>i<n. tp_wk s' = (tp_wk s)(i := tp_wk s' i) \<and> tp_cl s' = tp_cl s \<and>
    10 * length (rb_list (tp_ring s')) + wk_left (tp_wk s' i) < 10 * length (rb_list (tp_ring s)) + wk_left (tp_wk s i)"
  shows "tp_left n m s' < tp_left n m s"
proof -
  obtain i where i: "i < n" "tp_wk s' = (tp_wk s)(i := tp_wk s' i)" "tp_cl s' = tp_cl s"
      "10 * length (rb_list (tp_ring s')) + wk_left (tp_wk s' i) < 10 * length (rb_list (tp_ring s)) + wk_left (tp_wk s i)"
    using assms by blast
  have "(\<Sum>u<n. wk_left (tp_wk s' u)) + wk_left (tp_wk s i) = (\<Sum>u<n. wk_left (tp_wk s u)) + wk_left (tp_wk s' i)"
    using sum_thread_update [OF i(1), of wk_left "tp_wk s" "tp_wk s' i"] i(2) by simp
  then show ?thesis using i(3,4) by (simp add: tp_left_def)
qed

lemma left_client:
  assumes "\<exists>c<m. tp_cl s' = (tp_cl s)(c := tp_cl s' c) \<and> tp_wk s' = tp_wk s \<and>
    10 * length (rb_list (tp_ring s')) + cl_left n m (tp_cl s' c) <
      10 * length (rb_list (tp_ring s)) + cl_left n m (tp_cl s c)"
  shows "tp_left n m s' < tp_left n m s"
proof -
  obtain c where c: "c < m" "tp_cl s' = (tp_cl s)(c := tp_cl s' c)" "tp_wk s' = tp_wk s"
      "10 * length (rb_list (tp_ring s')) + cl_left n m (tp_cl s' c) <
        10 * length (rb_list (tp_ring s)) + cl_left n m (tp_cl s c)"
    using assms by blast
  have "(\<Sum>u<m. cl_left n m (tp_cl s' u)) + cl_left n m (tp_cl s c) = (\<Sum>u<m. cl_left n m (tp_cl s u)) + cl_left n m (tp_cl s' c)"
    using sum_thread_update [OF c(1), of "cl_left n m" "tp_cl s" "tp_cl s' c"] c(2) by simp
  then show ?thesis using c(3,4) by (simp add: tp_left_def)
qed

lemma wk_works_left:
  assumes inv: "tp_inv n m s" and st: "wk_step n s s'" and sp: "\<not> spurious n m s s'"
  shows "tp_left n m s' < tp_left n m s"
proof -
  have ok: "rb_ok (tp_ring s)" using inv by (simp add: tp_inv_def tp_account_def)
  from st show ?thesis
  proof cases
    case (w_pop i x r)
    then show ?thesis
      using tp_grab_taken [OF ok w_pop(4)] by (intro left_worker exI [of _ i]) simp
  next
    case (w_notify i x c y)
    have c: "c < m" using inv w_notify(4) by (auto simp: tp_inv_def tp_wake_clients_def)
    show ?thesis
      using sum_thread_update [OF w_notify(2), of wk_left "tp_wk s" "K_unlock x"]
        sum_thread_update [OF c, of "cl_left n m" "tp_cl s" "L_lock Submit y"] w_notify
      by (simp add: tp_left_def)
  next
    case (w_wake i)
    then show ?thesis using sp by (auto simp: spurious_def)
  qed (rule left_worker, rule exI, rule conjI, assumption, simp add: tp_grab_result(3,4) [OF ok])+
qed

lemma cl_works_left:
  assumes inv: "tp_inv n m s" and st: "cl_step n m s s'" and sp: "\<not> spurious n m s s'"
    and idle: "\<forall>c. tp_cl s c = L_idle \<longrightarrow> tp_cl s' c = L_idle"
  shows "tp_left n m s' < tp_left n m s"
proof -
  have ok: "rb_ok (tp_ring s)" using inv by (simp add: tp_inv_def tp_account_def)
  from st show ?thesis
  proof cases
    case (c_submit c x)
    then show ?thesis using idle by (auto split: if_splits)
  next
    case (c_try c x)
    then show ?thesis using idle by (auto split: if_splits)
  next
    case (c_accept c k x r)
    then show ?thesis
      using admit_accepted [OF ok c_accept(4)] by (intro left_client exI [of _ c]) simp
  next
    case (c_wake c x)
    then show ?thesis using sp by (auto simp: spurious_def)
  next
    case (c_notify c i)
    show ?thesis
      using sum_thread_update [OF c_notify(4), of wk_left "tp_wk s" K_lock]
        sum_thread_update [OF c_notify(2), of "cl_left n m" "tp_cl s" "L_end R_accepted"] c_notify
      by (simp add: tp_left_def)
  qed (rule left_client, rule exI, rule conjI, assumption, simp)+
qed

lemma sd_works_left:
  assumes st: "sd_step n m s s'" and ne: "s' \<noteq> s"
    and idle: "\<forall>c. tp_cl s c = L_idle \<longrightarrow> tp_cl s' c = L_idle"
  shows "tp_left n m s' < tp_left n m s"
  using st
proof cases
  case (h_call c)
  then show ?thesis using idle by (auto split: if_splits)
next
  case (h_notify_workers c)
  have "wk_left (wake_worker p) \<le> wk_left p + 3" for p :: "'a wk_pc" by (cases p) auto
  then have "(\<Sum>i<n. wk_left (wake_worker (tp_wk s i))) \<le> (\<Sum>i<n. wk_left (tp_wk s i) + 3)"
    by (intro sum_mono)
  then show ?thesis
    using sum_thread_update [OF h_notify_workers(2), of "cl_left n m" "tp_cl s" H_notify_producers] h_notify_workers
    by (simp add: tp_left_def sum.distrib)
next
  case (h_notify_producers c)
  have "cl_left n m (wake_client p) \<le> cl_left n m p + 2" for p :: "'a cl_pc" by (cases p) auto
  then have "(\<Sum>d<m. cl_left n m (wake_client (tp_cl s d))) \<le> (\<Sum>d<m. cl_left n m (tp_cl s d) + 2)"
    by (intro sum_mono)
  also have "\<dots> = (\<Sum>d<m. cl_left n m (tp_cl s d)) + 2 * m" by (simp only: sum.distrib) simp
  finally show ?thesis
    using sum_thread_update [OF h_notify_producers(2), of "cl_left n m" "\<lambda>d. wake_client (tp_cl s d)" H_spin]
      h_notify_producers
    by (simp add: tp_left_def sum.distrib)
next
  case (h_spin c)
  then show ?thesis using ne by simp
qed (rule left_client, rule exI, rule conjI, assumption, simp)+

lemma tp_works_left:
  assumes "tp_inv n m s" "tp_works n m s s'"
  shows "tp_left n m s' < tp_left n m s"
  using assms wk_works_left cl_works_left sd_works_left unfolding tp_works_def tp_step_def by blast

section \<open>Where the threads stop\<close>

lemma works_wk:
  assumes st: "wk_step n s s'" and i: "tp_wk s' i \<noteq> tp_wk s i" "tp_wk s i \<noteq> K_asleep"
  shows "tp_works n m s s'"
proof -
  have "s' \<noteq> s" using i(1) by auto
  moreover have "\<not> spurious n m s s'" using i unfolding spurious_def by (auto split: if_splits)
  moreover have "tp_cl s' c = L_idle" if "tp_cl s c = L_idle" for c
    using wk_step_frame(5) [OF st, of c] that by auto
  ultimately show ?thesis using st by (auto simp: tp_works_def tp_step_def)
qed

lemma works_cl:
  assumes st: "cl_step n m s s' \<or> sd_step n m s s'"
    and c: "tp_cl s' c \<noteq> tp_cl s c" "\<forall>x. tp_cl s c \<noteq> L_asleep x"
    and idle: "\<And>d. tp_cl s d = L_idle \<Longrightarrow> tp_cl s' d = L_idle"
  shows "tp_works n m s s'"
proof -
  have "s' \<noteq> s" using c(1) by auto
  moreover have "\<not> spurious n m s s'" using c unfolding spurious_def by (auto split: if_splits)
  ultimately show ?thesis using st idle by (auto simp: tp_works_def tp_step_def)
qed

lemma rest_worker:
  assumes ok: "rb_ok (tp_ring s)" and nt: "tp_wk s i \<noteq> K_terminate" and r: "tp_rests n m s" and i: "i < n"
  shows "tp_wk s i = K_asleep \<or> tp_wk s i = K_exit \<or> tp_wk s i = K_lock \<and> tp_mtx s \<noteq> None"
proof -
  have no: False if "wk_step n s s'" "tp_wk s' i \<noteq> tp_wk s i" "tp_wk s i \<noteq> K_asleep" for s'
    using r works_wk [OF that, of m] unfolding tp_rests_def by blast
  show ?thesis
  proof (cases "tp_wk s i")
    case K_lock
    then show ?thesis using no [OF w_lock [OF i K_lock]] by auto
  next
    case K_crit
    have False
    proof (cases "tp_grab (tp_stop s) (tp_ring s)")
      case Sleep
      show ?thesis by (rule no [OF w_sleep [OF i K_crit Sleep]]) (simp_all add: K_crit)
    next
      case Leave
      show ?thesis by (rule no [OF w_leave [OF i K_crit Leave]]) (simp_all add: K_crit)
    next
      case (Grabbed x r')
      show ?thesis by (rule no [OF w_pop [OF i K_crit Grabbed]]) (simp_all add: K_crit)
    qed (use tp_grab_result(3,4) [OF ok] in simp_all)
    then show ?thesis ..
  next
    case (K_notify x)
    have False
    proof (cases "\<exists>c y. tp_cl s c = L_asleep y")
      case True
      then obtain c y where c: "tp_cl s c = L_asleep y" by blast
      show ?thesis by (rule no [OF w_notify [OF i K_notify c]]) (simp_all add: K_notify)
    next
      case False
      show ?thesis by (rule no [OF w_notify_none [OF i K_notify]]) (use False in \<open>simp_all add: K_notify\<close>)
    qed
    then show ?thesis ..
  next
    case (K_unlock x)
    have False by (rule no [OF w_unlock [OF i K_unlock]]) (simp_all add: K_unlock)
    then show ?thesis ..
  next
    case (K_busy x)
    have False by (rule no [OF w_busy [OF i K_busy]]) (simp_all add: K_busy)
    then show ?thesis ..
  next
    case (K_run x)
    have False by (rule no [OF w_run [OF i K_run]]) (simp_all add: K_run)
    then show ?thesis ..
  next
    case K_unbusy
    have False by (rule no [OF w_unbusy [OF i K_unbusy]]) (simp_all add: K_unbusy)
    then show ?thesis ..
  next
    case K_complete
    have False by (rule no [OF w_complete [OF i K_complete]]) (simp_all add: K_complete)
    then show ?thesis ..
  next
    case K_unlock_again
    have False by (rule no [OF w_unlock_again [OF i K_unlock_again]]) (simp_all add: K_unlock_again)
    then show ?thesis ..
  next
    case K_unlock_exit
    have False by (rule no [OF w_unlock_exit [OF i K_unlock_exit]]) (simp_all add: K_unlock_exit)
    then show ?thesis ..
  qed (use nt in simp_all)
qed

text \<open>The steps a client can always take.\<close>

fun free_client :: "'t cl_pc \<Rightarrow> bool" where
  "free_client (L_try x) = True"
| "free_client (L_crit k x) = True"
| "free_client (L_unlock r) = True"
| "free_client L_notify = True"
| "free_client (L_end r) = True"
| "free_client H_crit = True"
| "free_client H_unlock_return = True"
| "free_client H_unlock = True"
| "free_client H_notify_workers = True"
| "free_client H_notify_producers = True"
| "free_client _ = False"

lemma free_client_step:
  assumes "c < m" "free_client (tp_cl s c)"
  shows "\<exists>s'. (cl_step n m s s' \<or> sd_step n m s s') \<and> tp_cl s' c \<noteq> tp_cl s c \<and>
    (\<forall>d. tp_cl s d = L_idle \<longrightarrow> tp_cl s' d = L_idle)"
proof (cases "tp_cl s c")
  case (L_try x)
  show ?thesis
  proof (cases "tp_stop s")
    case True
    show ?thesis by (intro exI conjI disjI1, rule c_try_stopped [OF assms(1) L_try True]) (simp_all add: L_try)
  next
    case False
    show ?thesis by (intro exI conjI disjI1, rule c_try_go [OF assms(1) L_try False]) (simp_all add: L_try)
  qed
next
  case (L_crit k x)
  show ?thesis
  proof (cases "admit k x s")
    case Wait
    show ?thesis by (intro exI conjI disjI1, rule c_wait [OF assms(1) L_crit Wait]) (simp_all add: L_crit)
  next
    case Rejected
    show ?thesis by (intro exI conjI disjI1, rule c_reject [OF assms(1) L_crit Rejected]) (simp_all add: L_crit)
  next
    case (Throws e)
    show ?thesis by (intro exI conjI disjI1, rule c_throw [OF assms(1) L_crit Throws]) (simp_all add: L_crit)
  next
    case (Accepted_by r)
    show ?thesis by (intro exI conjI disjI1, rule c_accept [OF assms(1) L_crit Accepted_by]) (simp_all add: L_crit)
  qed
next
  case (L_unlock r)
  show ?thesis by (intro exI conjI disjI1, rule c_unlock [OF assms(1) L_unlock]) (simp_all add: L_unlock)
next
  case L_notify
  show ?thesis
  proof (cases "\<exists>i<n. tp_wk s i = K_asleep")
    case True
    then obtain i where i: "i < n" "tp_wk s i = K_asleep" by blast
    show ?thesis by (intro exI conjI disjI1, rule c_notify [OF assms(1) L_notify i]) (simp_all add: L_notify)
  next
    case False
    show ?thesis by (intro exI conjI disjI1, rule c_notify_none [OF assms(1) L_notify]) (use False in \<open>simp_all add: L_notify\<close>)
  qed
next
  case (L_end r)
  show ?thesis by (intro exI conjI disjI1, rule c_end [OF assms(1) L_end]) (simp_all add: L_end)
next
  case H_crit
  show ?thesis
  proof (cases "tp_stop s")
    case True
    show ?thesis by (intro exI conjI disjI2, rule h_again [OF assms(1) H_crit True]) (simp_all add: H_crit)
  next
    case False
    show ?thesis by (intro exI conjI disjI2, rule h_stop [OF assms(1) H_crit False]) (simp_all add: H_crit)
  qed
next
  case H_unlock_return
  show ?thesis by (intro exI conjI disjI2, rule h_return [OF assms(1) H_unlock_return]) (simp_all add: H_unlock_return)
next
  case H_unlock
  show ?thesis by (intro exI conjI disjI2, rule h_unlock [OF assms(1) H_unlock]) (simp_all add: H_unlock)
next
  case H_notify_workers
  show ?thesis by (intro exI conjI disjI2, rule h_notify_workers [OF assms(1) H_notify_workers]) (simp_all add: H_notify_workers)
next
  case H_notify_producers
  show ?thesis by (intro exI conjI disjI2, rule h_notify_producers [OF assms(1) H_notify_producers]) (simp_all add: H_notify_producers)
qed (use assms(2) in simp_all)

lemma rest_client:
  assumes r: "tp_rests n m s" and c: "c < m"
  shows "\<not> free_client (tp_cl s c)"
    and "tp_mtx s = None \<Longrightarrow> tp_cl s c \<noteq> L_lock k x" and "tp_mtx s = None \<Longrightarrow> tp_cl s c \<noteq> H_lock"
    and "tp_active s = 0 \<Longrightarrow> tp_cl s c \<noteq> H_spin" and "tp_cl s c \<noteq> H_join n"
    and "k' < n \<Longrightarrow> tp_wk s k' = K_exit \<Longrightarrow> tp_cl s c \<noteq> H_join k'"
proof -
  have no: False if "cl_step n m s s' \<or> sd_step n m s s'" "tp_cl s' c \<noteq> tp_cl s c" "\<forall>x. tp_cl s c \<noteq> L_asleep x"
      "\<And>d. tp_cl s d = L_idle \<Longrightarrow> tp_cl s' d = L_idle" for s'
    using r works_cl [OF that] unfolding tp_rests_def by blast
  show "\<not> free_client (tp_cl s c)"
  proof
    assume f: "free_client (tp_cl s c)"
    then have "\<forall>x. tp_cl s c \<noteq> L_asleep x" by auto
    then show False using free_client_step [OF c f, of n] no by blast
  qed
  show "tp_cl s c \<noteq> L_lock k x" if "tp_mtx s = None"
  proof
    assume l: "tp_cl s c = L_lock k x"
    show False by (rule no [OF disjI1, OF c_lock [OF c l that]]) (use l in auto)
  qed
  show "tp_cl s c \<noteq> H_lock" if "tp_mtx s = None"
  proof
    assume l: "tp_cl s c = H_lock"
    show False by (rule no [OF disjI2, OF h_lock [OF c l that]]) (use l in auto)
  qed
  show "tp_cl s c \<noteq> H_spin" if "tp_active s = 0"
  proof
    assume l: "tp_cl s c = H_spin"
    show False by (rule no [OF disjI2, OF h_spun [OF c l that]]) (use l in auto)
  qed
  show "tp_cl s c \<noteq> H_join n"
  proof
    assume l: "tp_cl s c = H_join n"
    show False by (rule no [OF disjI2, OF h_done [OF c l]]) (use l in auto)
  qed
  show "tp_cl s c \<noteq> H_join k'" if "k' < n" "tp_wk s k' = K_exit"
  proof
    assume l: "tp_cl s c = H_join k'"
    show False by (rule no [OF disjI2, OF h_join [OF c l that]]) (use l in auto)
  qed
qed

text \<open>Threads that do not exist stay where they started.\<close>

definition tp_range :: "nat \<Rightarrow> nat \<Rightarrow> 't pool \<Rightarrow> bool" where
  "tp_range n m s \<longleftrightarrow> (\<forall>i\<ge>n. tp_wk s i = K_lock) \<and> (\<forall>c\<ge>m. tp_cl s c = L_idle) \<and> (\<forall>c k. tp_cl s c = H_join k \<longrightarrow> k \<le> n)"

lemma tp_step_range:
  assumes r: "tp_range n m s" and w: "\<forall>c x. tp_cl s c = L_asleep x \<longrightarrow> c < m" and st: "tp_step n m s s'"
  shows "tp_range n m s'"
  using st unfolding tp_step_def
proof (elim disjE)
  assume "wk_step n s s'"
  then show ?thesis by cases (use r w in \<open>auto simp: tp_range_def\<close>)
next
  assume "cl_step n m s s'"
  then show ?thesis by cases (use r in \<open>auto simp: tp_range_def\<close>)
next
  assume "sd_step n m s s'"
  then show ?thesis
  proof cases
    case (h_notify_producers c)
    have "wake_client (tp_cl s d) = H_join k \<longleftrightarrow> tp_cl s d = H_join k" for d k by (cases "tp_cl s d") auto
    then show ?thesis using r h_notify_producers by (auto simp: tp_range_def)
  qed (use r in \<open>auto simp: tp_range_def\<close>)
qed

lemma tp_reach_range:
  assumes "reach (tp_init q p) (tp_step n m) s"
  shows "tp_range n m s"
  using assms
proof (induction rule: reach.induct)
  case (reach_init s)
  then show ?case by (auto simp: tp_init_def tp_range_def)
next
  case (reach_step s t)
  then show ?case
    using tp_step_range [of n m s t] tp.inv_reach [of q p n m s] by (auto simp: tp_inv_def tp_wake_clients_def)
qed

text \<open>At rest.\<close>

definition tp_finished :: "nat \<Rightarrow> nat \<Rightarrow> 't pool \<Rightarrow> bool" where
  "tp_finished n m s \<longleftrightarrow> (\<forall>c<m. tp_cl s c = L_idle \<or> tp_cl s c = H_done) \<and>
     (\<forall>i<n. tp_wk s i = (if tp_stop s then K_exit else K_asleep)) \<and>
     mset (tp_executed s) = mset (tp_accepted s) \<and> rb_list (tp_ring s) = [] \<and> tp_mtx s = None"

lemma rests_finished:
  assumes inv: "tp_inv n m s" and rg: "tp_range n m s" and n: "0 < n" and m: "m < 2 ^ 32" and r: "tp_rests n m s"
  shows "tp_finished n m s"
proof -
  note i = inv [unfolded tp_inv_def]
  have ok: "rb_ok (tp_ring s)" and nt: "tp_wk s j \<noteq> K_terminate" for j using i by (simp_all add: tp_account_def)
  note wk = rest_worker [OF ok nt r] and cl = rest_client [OF r]
  have mtx: "tp_mtx s = None"
  proof (rule ccontr)
    assume "tp_mtx s \<noteq> None"
    then obtain t where t: "tp_mtx s = Some t" by blast
    show False
    proof (cases t)
      case (Wk j)
      then have h: "wk_holds (tp_wk s j)" using i t by (simp add: tp_lock_def)
      then have "j < n" using h rg by (cases "j < n") (simp_all add: tp_range_def)
      then show False using wk [of j] h by auto
    next
      case (Cl c)
      then have h: "cl_holds (tp_cl s c)" using i t by (simp add: tp_lock_def)
      then have "c < m" using h rg by (cases "c < m") (simp_all add: tp_range_def)
      then show False using cl(1) [of c] h by (cases "tp_cl s c") auto
    qed
  qed
  have w: "tp_wk s j = K_asleep \<or> tp_wk s j = K_exit" if "j < n" for j using wk [OF that] mtx by blast
  have c0: "tp_cl s c = L_idle \<or> tp_cl s c = H_done \<or> tp_cl s c = H_spin \<or> (\<exists>k. tp_cl s c = H_join k) \<or> (\<exists>x. tp_cl s c = L_asleep x)"
    if "c < m" for c using cl(1-3) [OF that] mtx by (cases "tp_cl s c") auto
  have zero: "seeking (tp_wk s j) = 0" "freeing (tp_wk s j) = 0" if "j < n" for j using w [OF that] by auto
  have zero': "notifying (tp_cl s c) = 0" "entering (tp_cl s c) = 0" if "c < m" for c using c0 [OF that] by auto
  have empty: "rb_list (tp_ring s) = [] \<and> (\<forall>j<n. tp_wk s j = (if tp_stop s then K_exit else K_asleep))"
  proof (cases "tp_stop s")
    case True
    have "tp_wk s j \<noteq> K_asleep" if "j < n" for j
    proof
      assume "tp_wk s j = K_asleep"
      then obtain c where "c < m" "tp_cl s c \<in> {H_unlock, H_notify_workers}"
        using i True unfolding tp_wake_stop_def by blast
      then show False using c0 [of c] by auto
    qed
    then have "\<forall>j<n. tp_wk s j = K_exit" using w by blast
    then show ?thesis using i n True unfolding tp_exit_def by auto
  next
    case False
    then have "\<forall>j<n. tp_wk s j = K_asleep" using w i unfolding tp_exit_def by blast
    then show ?thesis using i n False zero zero' unfolding tp_wake_workers_def by auto
  qed
  have awake: "tp_cl s c \<noteq> L_asleep x" for c x
  proof
    assume a: "tp_cl s c = L_asleep x"
    show False
    proof (cases "tp_stop s")
      case True
      then obtain d where "d < m" "tp_cl s d \<in> {H_unlock, H_notify_workers, H_notify_producers}"
        using i a unfolding tp_wake_stop_def by blast
      then show False using c0 [of d] by auto
    next
      case False
      then have "unat (rb_capacity (tp_ring s)) \<le> 0"
        using i a empty zero zero' unfolding tp_wake_clients_def by auto
      then show False using ok is_cap_nonzero [of "rb_capacity (tp_ring s)"] by (simp add: rb_ok_def)
    qed
  qed
  have "\<forall>c<m. in_flight (tp_cl s c) = 0" using c0 awake by fastforce
  then have "tp_active s = 0" using i by (simp add: tp_in_flight_def)
  then have "tp_cl s c \<noteq> H_spin" if "c < m" for c using cl(4) [OF that] by blast
  moreover have "tp_cl s c \<noteq> H_join k" if "c < m" for c k
  proof
    assume j: "tp_cl s c = H_join k"
    have "shut_ok n s (tp_cl s c)" using i unfolding tp_exit_def by blast
    then have "tp_stop s" using j by simp
    then have "k < n \<Longrightarrow> tp_wk s k = K_exit" using empty by simp
    moreover have "k \<le> n" using rg j unfolding tp_range_def by blast
    ultimately show False using cl(5,6) [OF that] j by (metis le_neq_implies_less)
  qed
  ultimately have "\<forall>c<m. tp_cl s c = L_idle \<or> tp_cl s c = H_done" using c0 awake by blast
  moreover have "hand (tp_wk s j) = {#}" if "j < n" for j using w [OF that] by auto
  then have "(\<Sum>j<n. hand (tp_wk s j)) = {#}" by simp
  then have "mset (tp_executed s) = mset (tp_accepted s)" using i empty by (simp add: tp_account_def)
  ultimately show ?thesis using empty mtx by (simp add: tp_finished_def)
qed

section \<open>Properties\<close>

lemma tp_works_inv:
  assumes "tp_inv n m s" "tp_range n m s" "tp_works n m s s'"
  shows "tp_inv n m s'" "tp_range n m s'"
proof -
  have st: "tp_step n m s s'" using assms(3) by (simp add: tp_works_def)
  show "tp_inv n m s'" by (rule tp_step_inv [OF assms(1) st])
  have "\<forall>c x. tp_cl s c = L_asleep x \<longrightarrow> c < m" using assms(1) unfolding tp_inv_def tp_wake_clients_def by blast
  then show "tp_range n m s'" by (rule tp_step_range [OF assms(2) _ st])
qed

lemma tp_works_rtrancl:
  "(tp_works n m)\<^sup>*\<^sup>* s s' \<Longrightarrow> tp_inv n m s \<Longrightarrow> tp_range n m s \<Longrightarrow> tp_inv n m s' \<and> tp_range n m s'"
  by (induction rule: rtranclp_induct) (auto dest: tp_works_inv)

lemma tp_works_bounded:
  "(tp_works n m ^^ k) s s' \<Longrightarrow> tp_inv n m s \<Longrightarrow> tp_range n m s \<Longrightarrow> k + tp_left n m s' \<le> tp_left n m s"
proof (induction k arbitrary: s')
  case (Suc k)
  obtain t where t: "(tp_works n m ^^ k) s t" "tp_works n m t s'" using Suc.prems(1) by auto
  have "tp_inv n m t" using tp_works_rtrancl [OF relpowp_imp_rtranclp [OF t(1)] Suc.prems(2,3)] by blast
  then show ?case using Suc.IH [OF t(1) Suc.prems(2,3)] tp_works_left t(2) by fastforce
qed simp

interpretation tp_goal: reaches_goal "tp_works n m" "\<lambda>s. tp_inv n m s \<and> tp_range n m s" "tp_rests n m" "measure (tp_left n m)"
  for n m
  by unfold_locales (auto dest: tp_works_inv simp: tp_rests_def intro: tp_works_left)

text \<open>C28: \<open>ThreadPool\<close> comes to rest from every reachable state, whatever its policy and whether or not it is
  being shut down: if no further call is started, every run of its at least one worker and the clients
  inside a call is at most \<open>tp_left\<close> steps long (not counting busy waiting and spurious wake-ups), such
  a run exists, and wherever a run cannot go on, it has finished: every call of \<open>submit\<close>, \<open>submitVoid\<close>,
  \<open>trySubmit\<close> and \<open>shutdown\<close> has returned, every accepted task has been executed exactly once, the
  workers sleep, or have exited if the pool is stopped. In particular there is no deadlock, and
  \<open>shutdown\<close> returns.\<close>

theorem thread_pool_comes_to_rest:
  assumes "reach (tp_init q p) (tp_step n m) s" "0 < n" "m < 2 ^ 32"
  shows "(\<forall>k s'. (tp_works n m ^^ k) s s' \<longrightarrow> k \<le> tp_left n m s) \<and>
    (\<exists>s'. (tp_works n m)\<^sup>*\<^sup>* s s' \<and> tp_rests n m s') \<and>
    (\<forall>s'. (tp_works n m)\<^sup>*\<^sup>* s s' \<longrightarrow> tp_rests n m s' \<longrightarrow> tp_finished n m s')"
proof (intro conjI allI impI)
  note i = tp.inv_reach [OF assms(1)] tp_reach_range [OF assms(1)]
  show "k \<le> tp_left n m s" if "(tp_works n m ^^ k) s s'" for k s' using tp_works_bounded [OF that i] by simp
  show "\<exists>s'. (tp_works n m)\<^sup>*\<^sup>* s s' \<and> tp_rests n m s'" by (rule tp_goal.reaches) (use i in blast)
  show "tp_finished n m s'" if "(tp_works n m)\<^sup>*\<^sup>* s s'" "tp_rests n m s'" for s'
    using rests_finished [OF _ _ assms(2,3) that(2)] tp_works_rtrancl [OF that(1) i] by blast
qed

text \<open>A client has a task accepted by a worker that has not started yet.\<close>

theorem thread_pool_comes_to_rest_witness:
  "\<exists>s s'. reach (tp_init 2 BLOCK) (tp_step 1 1) s \<and> tp_accepted s = [42 :: nat] \<and> tp_executed s = [] \<and>
    (tp_works 1 1)\<^sup>*\<^sup>* s s' \<and> tp_finished 1 1 s'"
proof -
  obtain r :: "nat ring" where r: "rb_new 2 = Inr r" "\<not> rb_full r" using rb_new_2_room by blast
  obtain s where s: "reach (tp_init 2 BLOCK) (tp_step 1 1) s" "tp_accepted s = [42 :: nat]" "tp_executed s = []"
    using tp_run_submit [OF r, of BLOCK 1 42] by blast
  have "\<exists>s'. (tp_works 1 1)\<^sup>*\<^sup>* s s' \<and> tp_finished 1 1 s'"
    using thread_pool_comes_to_rest [OF s(1)] by fastforce
  then show ?thesis using s by blast
qed

end
