(* ===== verification/Pool_Metrics.thy ===== *)
theory Pool_Metrics
  imports Thread_Pool_Properties
begin

text \<open>
  How the numbers that the observers of \<open>ThreadPool\<close> report hang together, at any moment of any run.
\<close>

section \<open>The counters as numbers\<close>

fun busy_at :: "'t wk_pc \<Rightarrow> nat" where
  "busy_at (K_run x) = 1"
| "busy_at K_unbusy = 1"
| "busy_at _ = 0"

lemma counted_busy_nat: "counted_busy p = of_nat (busy_at p)"
  by (cases p) simp_all

lemma busy_at_least: "busy_at p \<le> size (hand p) + finishing p" and busy_at_most: "size (hand p) + finishing p \<le> 1"
  by (cases p; simp)+

lemma tp_in_progress:
  assumes "reach (tp_init q p) (tp_step n m) s"
  shows "\<exists>k. tp_completed s = of_nat k \<and>
    length (tp_accepted s) = k + (\<Sum>i<n. size (hand (tp_wk s i)) + finishing (tp_wk s i)) + length (rb_list (tp_ring s))"
proof -
  note a = tp.inv_reach [OF assms, unfolded tp_inv_def tp_account_def]
  obtain k where k: "tp_completed s = of_nat k" "length (tp_executed s) = k + (\<Sum>i<n. finishing (tp_wk s i))"
    using counts.inv_reach [OF assms] by (auto simp: tp_counts_def)
  have "mset (tp_started s) = mset (tp_executed s) + (\<Sum>i<n. hand (tp_wk s i))" using a by blast
  from arg_cong [OF this, of size]
  have "length (tp_started s) = length (tp_executed s) + (\<Sum>i<n. size (hand (tp_wk s i)))" by simp
  moreover have "tp_accepted s = tp_started s @ rb_list (tp_ring s)" using a by blast
  ultimately show ?thesis using k by (intro exI [of _ k]) (simp add: sum.distrib)
qed

section \<open>Property\<close>

text \<open>C29: as long as the 64-bit counters have not wrapped around, \<open>getCompletedTaskCount\<close>, \<open>getBusyWorkerCount\<close> and
  \<open>getQueueSize\<close> never add up to more than \<open>getSubmittedTaskCount\<close>, which in turn exceeds completed and
  queued tasks by at most one task per worker; no more workers are busy than \<open>getThreadCount\<close>.\<close>

theorem thread_pool_metrics:
  assumes "reach (tp_init q p) (tp_step n m) s" and "length (tp_accepted s) < 2 ^ 64" and "n < 2 ^ 64"
  shows "unat (tp_getCompletedTaskCount s) + unat (tp_getBusyWorkerCount s) + unat (tp_getQueueSize s)
      \<le> unat (tp_getSubmittedTaskCount s) \<and>
    unat (tp_getSubmittedTaskCount s) \<le> unat (tp_getCompletedTaskCount s) + unat (tp_getQueueSize s) + unat (tp_getThreadCount n s) \<and>
    tp_getBusyWorkerCount s \<le> tp_getThreadCount n s \<and> tp_getQueueSize s \<le> rb_capacity (tp_ring s)"
proof -
  let ?w = "\<lambda>i. size (hand (tp_wk s i)) + finishing (tp_wk s i)" and ?b = "\<Sum>i<n. busy_at (tp_wk s i)"
  note a = tp.inv_reach [OF assms(1), unfolded tp_inv_def tp_account_def]
  obtain k where k: "tp_completed s = of_nat k"
      "length (tp_accepted s) = k + (\<Sum>i<n. ?w i) + length (rb_list (tp_ring s))"
    using tp_in_progress [OF assms(1)] by blast
  have b: "?b \<le> (\<Sum>i<n. ?w i)" by (intro sum_mono busy_at_least)
  have w: "(\<Sum>i<n. ?w i) \<le> n" using sum_thread_le [of "\<lambda>p. size (hand p) + finishing p" "tp_wk s" 1 n, OF busy_at_most] by simp
  have busy: "tp_busy s = of_nat ?b" using a by (simp add: counted_busy_nat)
  have "?b < 2 ^ 64" using b w assms(3) by linarith
  then have busy': "unat (tp_busy s) = ?b" unfolding busy by (simp add: unat_of_nat del: of_nat_sum)
  have completed: "unat (tp_completed s) = k" using k assms(2) by (simp add: unat_of_nat)
  have "tp_submitted s = of_nat (length (tp_accepted s))" using a by blast
  then have submitted: "unat (tp_submitted s) = length (tp_accepted s)" using assms(2) by (simp only: unat_of_nat) simp
  have queue: "unat (rb_size (tp_ring s)) = length (rb_list (tp_ring s))"
    using a rb_list_length [of "tp_ring s"] by simp
  have threads: "unat (tp_getThreadCount n s) = n" using assms(3) by (simp add: tp_getThreadCount_def unat_of_nat)
  have "unat (rb_size (tp_ring s)) \<le> unat (rb_capacity (tp_ring s))" using a by (simp add: rb_ok_def)
  then show ?thesis
    using k(2) b w busy' completed submitted queue threads
    by (simp add: tp_getCompletedTaskCount_def tp_getBusyWorkerCount_def tp_getQueueSize_def
        tp_getSubmittedTaskCount_def word_le_nat_alt)
qed

theorem thread_pool_metrics_witness:
  "\<exists>s. reach (tp_init 2 BLOCK) (tp_step 1 1) s \<and> tp_accepted s = [42 :: nat] \<and> tp_getBusyWorkerCount s \<le> tp_getThreadCount 1 s \<and>
     unat (tp_getCompletedTaskCount s) + unat (tp_getBusyWorkerCount s) + unat (tp_getQueueSize s) \<le> 1"
proof -
  obtain r :: "nat ring" where r: "rb_new 2 = Inr r" "\<not> rb_full r" using rb_new_2_room by blast
  obtain s where s: "reach (tp_init 2 BLOCK) (tp_step 1 1) s" "tp_accepted s = [42 :: nat]"
    using tp_run_execute [OF r, of BLOCK 42] by blast
  have "unat (tp_getSubmittedTaskCount s) = 1"
    using tp.inv_reach [OF s(1)] s(2) by (simp add: tp_inv_def tp_account_def tp_getSubmittedTaskCount_def)
  then show ?thesis using thread_pool_metrics [OF s(1)] s by (intro exI [of _ s]) simp
qed

end
