(* ===== verification/WS_Thread_Pool.thy ===== *)
theory WS_Thread_Pool
  imports Next_Power_Of_Two Interfaces
begin

text \<open>
  \<open>include/WorkStealingThreadPool.h\<close> and \<open>src/WorkStealingThreadPool.cpp\<close>: clients put tasks into a shared
  entry queue, each worker moves batches of them into a deque of its own, runs the newest of those, and
  steals the oldest of the others' when it has none.

  The entry queue (\<open>LockFreeQueue\<close>) and the deques (\<open>WorkStealingDeque\<close>) are used through the contracts
  that \<open>Lock_Free_Queue\<close> and \<open>WS_Deque\<close> prove of them, \<open>fifo_step\<close> and \<open>deque_step\<close>: each of their
  operations is one step. What these contracts leave out of concurrent use are answers while another
  thread is in the middle of an operation on the same queue: a \<open>push\<close>, \<open>pop\<close> or \<open>steal\<close> may then fail
  although there is room or an element, and \<open>size\<close> may count a place whose element is gone. Each of
  these has a rule (\<open>_race\<close>). Every other rule is one access to shared memory or the mutex.
\<close>

section \<open>Points of the threads\<close>

datatype ws_policy = WS_BLOCK | WS_DISCARD | WS_THROW

definition kLocalBatchSize :: nat where
  "kLocalBatchSize = 16"

definition ws_num_threads :: "nat \<Rightarrow> nat" where
  "ws_num_threads num_threads = (if num_threads > 0 then num_threads else 1)"

text \<open>Workers. \<open>X_\<close> is \<open>executeTask\<close>, called from the loop (\<open>None\<close>) or from round \<open>i\<close> of
  \<open>fillLocalBatch\<close> (\<open>Some i\<close>).\<close>

datatype 't ws_wk =
    W_pop
  | X_busy 't "nat option" | X_run 't "nat option" | X_unbusy "nat option" | X_complete "nat option"
  | X_check "nat option" | X_notify "nat option"
  | W_fill nat bool              \<comment> \<open>round of \<open>fillLocalBatch\<close>, and \<open>any\<close>\<close>
  | W_push 't nat | W_check nat | W_notify nat
  | W_steal nat                  \<comment> \<open>\<open>step\<close> of \<open>stealOne\<close>\<close>
  | W_lock
  | W_stop                       \<comment> \<open>from here to \<open>W_unlock\<close>, \<open>W_unlock_exit\<close> or \<open>W_asleep\<close> with \<open>mtx_\<close>\<close>
  | W_exit_scan nat              \<comment> \<open>\<open>allEmpty\<close> before returning\<close>
  | W_idle_inc | W_pred
  | W_scan nat                   \<comment> \<open>\<open>allEmpty\<close> in the predicate of \<open>cv_.wait\<close>\<close>
  | W_block | W_asleep | W_relock | W_idle_dec | W_unlock
  | W_unlock_exit | W_exit

datatype ws_result = WR_accepted | WR_rejected | WR_threw exn

text \<open>Clients: \<open>E_\<close> is \<open>enqueueTask\<close>, \<open>T_\<close> \<open>trySubmit\<close> and \<open>tryEnqueueTask\<close>, \<open>S_\<close> \<open>shutdown\<close>.\<close>

datatype 't ws_cl =
    C_idle
  | E_fast 't | E_push 't | E_count | E_look | E_notify | E_end ws_result
  | E_lock 't | E_crit 't | E_slow 't
  | E_wait_inc 't | E_pred 't | E_block 't | E_asleep 't | E_relock 't | E_wait_dec 't | E_recheck 't
  | E_slow_count | E_unlock ws_result
  | T_first 't | T_second 't | T_push 't
  | S_lock | S_crit | S_unlock_return | S_unlock | S_notify_workers | S_notify_producers
  | S_spin | S_join nat | S_done

datatype ws_tid = WS_worker nat | WS_client nat

text \<open>\<open>ws_accepted\<close>, \<open>ws_executed\<close> and \<open>ws_late\<close> record the tasks put into the entry queue, those executed, and
  those put into the entry queue after \<open>stop_\<close> was set; no step reads them.\<close>

record 't ws_pool =
  ws_in :: "'t list"
  ws_cap :: nat
  ws_dq :: "nat \<Rightarrow> 't list"
  ws_mtx :: "ws_tid option"
  ws_stop :: bool
  ws_policy :: ws_policy
  ws_active :: u32
  ws_submitted :: u64
  ws_completed :: u64
  ws_busy :: u64
  ws_waiting :: size_t
  ws_idle :: size_t
  ws_wk :: "nat \<Rightarrow> 't ws_wk"
  ws_cl :: "nat \<Rightarrow> 't ws_cl"
  ws_accepted :: "'t list"
  ws_executed :: "'t list"
  ws_late :: "'t list"

text \<open>The contract of the entry queue needs a capacity of at least 2 (\<open>lock_free_queue_capacity_1\<close>).\<close>

definition ws_init :: "size_t \<Rightarrow> ws_policy \<Rightarrow> 't ws_pool \<Rightarrow> bool" where
  "ws_init queue_size p s \<longleftrightarrow>
     (\<exists>c. nextPowerOfTwoChecked queue_size = Inr c \<and> 2 \<le> unat c \<and>
       s = \<lparr>ws_in = [], ws_cap = unat c, ws_dq = (\<lambda>_. []), ws_mtx = None, ws_stop = False, ws_policy = p,
            ws_active = 0, ws_submitted = 0, ws_completed = 0, ws_busy = 0, ws_waiting = 0, ws_idle = 0,
            ws_wk = (\<lambda>_. W_pop), ws_cl = (\<lambda>_. C_idle), ws_accepted = [], ws_executed = [], ws_late = []\<rparr>)"

abbreviation wk_at :: "nat \<Rightarrow> 't ws_wk \<Rightarrow> 't ws_pool \<Rightarrow> 't ws_pool" where
  "wk_at i p s \<equiv> s\<lparr>ws_wk := (ws_wk s)(i := p)\<rparr>"

abbreviation cl_at :: "nat \<Rightarrow> 't ws_cl \<Rightarrow> 't ws_pool \<Rightarrow> 't ws_pool" where
  "cl_at c p s \<equiv> s\<lparr>ws_cl := (ws_cl s)(c := p)\<rparr>"

text \<open>The queues, by their contracts.\<close>

definition in_push :: "'t \<Rightarrow> 't ws_pool \<Rightarrow> bool \<times> 't list" where
  "in_push x s = (case fifo_step (Enq x) (ws_cap s, ws_in s) of (r, (c, xs)) \<Rightarrow> (r = Accepted True, xs))"

definition in_pop :: "'t ws_pool \<Rightarrow> 't option \<times> 't list" where
  "in_pop s = (case fifo_step Deq (ws_cap s, ws_in s) of (r, (c, xs)) \<Rightarrow> (case r of Got v \<Rightarrow> v | _ \<Rightarrow> None, xs))"

definition dq_do :: "'t dop \<Rightarrow> nat \<Rightarrow> 't ws_pool \<Rightarrow> 't dres \<times> 't list" where
  "dq_do x i s = (case deque_step x (Some (ws_cap s), ws_dq s i) of (r, (c, xs)) \<Rightarrow> (r, xs))"

text \<open>A client that has put \<open>x\<close> into the entry queue.\<close>

definition admitted :: "'t \<Rightarrow> 't list \<Rightarrow> 't ws_pool \<Rightarrow> 't ws_pool" where
  "admitted x xs s = s\<lparr>ws_in := xs, ws_accepted := ws_accepted s @ [x],
     ws_late := (if ws_stop s then ws_late s @ [x] else ws_late s)\<rparr>"

section \<open>Workers\<close>

text \<open>Where \<open>executeTask\<close> returns to.\<close>

fun after_task :: "nat option \<Rightarrow> 't ws_wk" where
  "after_task None = W_pop"
| "after_task (Some i) = W_fill (Suc i) True"

text \<open>\<open>workerLoop\<close>, \<open>fillLocalBatch\<close>, \<open>stealOne\<close> and \<open>executeTask\<close> of \<open>n\<close> workers: the part without the mutex.\<close>

inductive ws_work :: "nat \<Rightarrow> 't ws_pool \<Rightarrow> 't ws_pool \<Rightarrow> bool" for n :: nat where
  k_pop: "i < n \<Longrightarrow> ws_wk s i = W_pop \<Longrightarrow> dq_do Pop i s = (Taken (Some x), xs) \<Longrightarrow>
    ws_work n s (wk_at i (X_busy x None) (s\<lparr>ws_dq := (ws_dq s)(i := xs)\<rparr>))"
| k_pop_empty: "i < n \<Longrightarrow> ws_wk s i = W_pop \<Longrightarrow> dq_do Pop i s = (Taken None, xs) \<Longrightarrow>
    ws_work n s (wk_at i (W_fill 0 False) s)"
| k_pop_race: "i < n \<Longrightarrow> ws_wk s i = W_pop \<Longrightarrow> ws_work n s (wk_at i (W_fill 0 False) s)"
| k_busy: "i < n \<Longrightarrow> ws_wk s i = X_busy x k \<Longrightarrow>
    ws_work n s (wk_at i (X_run x k) (s\<lparr>ws_busy := ws_busy s + 1\<rparr>))"
| k_run: "i < n \<Longrightarrow> ws_wk s i = X_run x k \<Longrightarrow>
    ws_work n s (wk_at i (X_unbusy k) (s\<lparr>ws_executed := ws_executed s @ [x]\<rparr>))"
| k_unbusy: "i < n \<Longrightarrow> ws_wk s i = X_unbusy k \<Longrightarrow>
    ws_work n s (wk_at i (X_complete k) (s\<lparr>ws_busy := ws_busy s - 1\<rparr>))"
| k_complete: "i < n \<Longrightarrow> ws_wk s i = X_complete k \<Longrightarrow>
    ws_work n s (wk_at i (X_check k) (s\<lparr>ws_completed := ws_completed s + 1\<rparr>))"
| k_check: "i < n \<Longrightarrow> ws_wk s i = X_check k \<Longrightarrow>
    ws_work n s (wk_at i (if ws_waiting s > 0 then X_notify k else after_task k) s)"
| k_notify: "i < n \<Longrightarrow> ws_wk s i = X_notify k \<Longrightarrow> ws_cl s c = E_asleep y \<Longrightarrow>
    ws_work n s (wk_at i (after_task k) (cl_at c (E_relock y) s))"
| k_notify_none: "i < n \<Longrightarrow> ws_wk s i = X_notify k \<Longrightarrow> (\<forall>c y. ws_cl s c \<noteq> E_asleep y) \<Longrightarrow>
    ws_work n s (wk_at i (after_task k) s)"
| k_fill: "i < n \<Longrightarrow> ws_wk s i = W_fill j any \<Longrightarrow> j < kLocalBatchSize \<Longrightarrow> in_pop s = (Some x, xs) \<Longrightarrow>
    ws_work n s (wk_at i (W_push x j) (s\<lparr>ws_in := xs\<rparr>))"
| k_fill_empty: "i < n \<Longrightarrow> ws_wk s i = W_fill j any \<Longrightarrow> j < kLocalBatchSize \<Longrightarrow> in_pop s = (None, xs) \<Longrightarrow>
    ws_work n s (wk_at i (if any then W_pop else W_steal 1) s)"
| k_fill_race: "i < n \<Longrightarrow> ws_wk s i = W_fill j any \<Longrightarrow> j < kLocalBatchSize \<Longrightarrow>
    ws_work n s (wk_at i (if any then W_pop else W_steal 1) s)"
| k_filled: "i < n \<Longrightarrow> ws_wk s i = W_fill j any \<Longrightarrow> \<not> j < kLocalBatchSize \<Longrightarrow>
    ws_work n s (wk_at i (if any then W_pop else W_steal 1) s)"
| k_push: "i < n \<Longrightarrow> ws_wk s i = W_push x j \<Longrightarrow> dq_do (Push x) i s = (Pushed True, xs) \<Longrightarrow>
    ws_work n s (wk_at i (W_check j) (s\<lparr>ws_dq := (ws_dq s)(i := xs)\<rparr>))"
| k_push_full: "i < n \<Longrightarrow> ws_wk s i = W_push x j \<Longrightarrow> dq_do (Push x) i s = (Pushed False, xs) \<Longrightarrow>
    ws_work n s (wk_at i (X_busy x (Some j)) s)"
| k_push_race: "i < n \<Longrightarrow> ws_wk s i = W_push x j \<Longrightarrow> ws_work n s (wk_at i (X_busy x (Some j)) s)"
| k_look: "i < n \<Longrightarrow> ws_wk s i = W_check j \<Longrightarrow>
    ws_work n s (wk_at i (if ws_waiting s > 0 then W_notify j else W_fill (Suc j) True) s)"
| k_tell: "i < n \<Longrightarrow> ws_wk s i = W_notify j \<Longrightarrow> ws_cl s c = E_asleep y \<Longrightarrow>
    ws_work n s (wk_at i (W_fill (Suc j) True) (cl_at c (E_relock y) s))"
| k_tell_none: "i < n \<Longrightarrow> ws_wk s i = W_notify j \<Longrightarrow> (\<forall>c y. ws_cl s c \<noteq> E_asleep y) \<Longrightarrow>
    ws_work n s (wk_at i (W_fill (Suc j) True) s)"
| k_steal: "i < n \<Longrightarrow> ws_wk s i = W_steal j \<Longrightarrow> j < n \<Longrightarrow> t = (i + j) mod n \<Longrightarrow> t \<noteq> i \<Longrightarrow>
    dq_do Steal t s = (Taken (Some x), xs) \<Longrightarrow>
    ws_work n s (wk_at i (X_busy x None) (s\<lparr>ws_dq := (ws_dq s)(t := xs)\<rparr>))"
| k_steal_empty: "i < n \<Longrightarrow> ws_wk s i = W_steal j \<Longrightarrow> j < n \<Longrightarrow> t = (i + j) mod n \<Longrightarrow>
    t = i \<or> dq_do Steal t s = (Taken None, xs) \<Longrightarrow>
    ws_work n s (wk_at i (W_steal (Suc j)) s)"
| k_steal_race: "i < n \<Longrightarrow> ws_wk s i = W_steal j \<Longrightarrow> j < n \<Longrightarrow> ws_work n s (wk_at i (W_steal (Suc j)) s)"
| k_steal_none: "i < n \<Longrightarrow> ws_wk s i = W_steal j \<Longrightarrow> \<not> j < n \<Longrightarrow> ws_work n s (wk_at i W_lock s)"

text \<open>The part under \<open>mtx_\<close>. \<open>allEmpty\<close> looks at the deques one after the other, then at the entry queue; a
  deque may seem to hold an element when it does not.\<close>

inductive ws_rest :: "nat \<Rightarrow> 't ws_pool \<Rightarrow> 't ws_pool \<Rightarrow> bool" for n :: nat where
  r_lock: "i < n \<Longrightarrow> ws_wk s i = W_lock \<Longrightarrow> ws_mtx s = None \<Longrightarrow>
    ws_rest n s (wk_at i W_stop (s\<lparr>ws_mtx := Some (WS_worker i)\<rparr>))"
| r_stop: "i < n \<Longrightarrow> ws_wk s i = W_stop \<Longrightarrow>
    ws_rest n s (wk_at i (if ws_stop s then W_exit_scan 0 else W_idle_inc) s)"
| r_exit_scan: "i < n \<Longrightarrow> ws_wk s i = W_exit_scan j \<Longrightarrow> j < n \<Longrightarrow> ws_dq s j = [] \<Longrightarrow>
    ws_rest n s (wk_at i (W_exit_scan (Suc j)) s)"
| r_exit_more: "i < n \<Longrightarrow> ws_wk s i = W_exit_scan j \<Longrightarrow> j < n \<Longrightarrow> ws_rest n s (wk_at i W_idle_inc s)"
| r_exit_in: "i < n \<Longrightarrow> ws_wk s i = W_exit_scan n \<Longrightarrow>
    ws_rest n s (wk_at i (if ws_in s = [] then W_unlock_exit else W_idle_inc) s)"
| r_unlock_exit: "i < n \<Longrightarrow> ws_wk s i = W_unlock_exit \<Longrightarrow>
    ws_rest n s (wk_at i W_exit (s\<lparr>ws_mtx := None\<rparr>))"
| r_idle_inc: "i < n \<Longrightarrow> ws_wk s i = W_idle_inc \<Longrightarrow>
    ws_rest n s (wk_at i W_pred (s\<lparr>ws_idle := ws_idle s + 1\<rparr>))"
| r_pred: "i < n \<Longrightarrow> ws_wk s i = W_pred \<Longrightarrow>
    ws_rest n s (wk_at i (if ws_stop s then W_idle_dec else W_scan 0) s)"
| r_scan: "i < n \<Longrightarrow> ws_wk s i = W_scan j \<Longrightarrow> j < n \<Longrightarrow> ws_dq s j = [] \<Longrightarrow>
    ws_rest n s (wk_at i (W_scan (Suc j)) s)"
| r_more: "i < n \<Longrightarrow> ws_wk s i = W_scan j \<Longrightarrow> j < n \<Longrightarrow> ws_rest n s (wk_at i W_idle_dec s)"
| r_in: "i < n \<Longrightarrow> ws_wk s i = W_scan n \<Longrightarrow>
    ws_rest n s (wk_at i (if ws_in s = [] then W_block else W_idle_dec) s)"
| r_block: "i < n \<Longrightarrow> ws_wk s i = W_block \<Longrightarrow>
    ws_rest n s (wk_at i W_asleep (s\<lparr>ws_mtx := None\<rparr>))"
| r_wake: "i < n \<Longrightarrow> ws_wk s i = W_asleep \<Longrightarrow> ws_rest n s (wk_at i W_relock s)"
| r_relock: "i < n \<Longrightarrow> ws_wk s i = W_relock \<Longrightarrow> ws_mtx s = None \<Longrightarrow>
    ws_rest n s (wk_at i W_pred (s\<lparr>ws_mtx := Some (WS_worker i)\<rparr>))"
| r_idle_dec: "i < n \<Longrightarrow> ws_wk s i = W_idle_dec \<Longrightarrow>
    ws_rest n s (wk_at i W_unlock (s\<lparr>ws_idle := ws_idle s - 1\<rparr>))"
| r_unlock: "i < n \<Longrightarrow> ws_wk s i = W_unlock \<Longrightarrow>
    ws_rest n s (wk_at i W_pop (s\<lparr>ws_mtx := None\<rparr>))"


section \<open>Clients\<close>

text \<open>\<open>submit\<close>, \<open>submitVoid\<close> (\<open>enqueueTask\<close>) and \<open>trySubmit\<close> (\<open>tryEnqueueTask\<close>) by \<open>m\<close> clients.\<close>

inductive ws_submit :: "nat \<Rightarrow> nat \<Rightarrow> 't ws_pool \<Rightarrow> 't ws_pool \<Rightarrow> bool" for n m :: nat where
  e_call: "c < m \<Longrightarrow> ws_cl s c = C_idle \<Longrightarrow>
    ws_submit n m s (cl_at c (E_fast x) (s\<lparr>ws_active := ws_active s + 1\<rparr>))"
| e_fast: "c < m \<Longrightarrow> ws_cl s c = E_fast x \<Longrightarrow>
    ws_submit n m s (cl_at c (if ws_stop s then E_lock x else E_push x) s)"
| e_push: "c < m \<Longrightarrow> ws_cl s c = E_push x \<Longrightarrow> in_push x s = (True, xs) \<Longrightarrow>
    ws_submit n m s (cl_at c E_count (admitted x xs s))"
| e_push_full: "c < m \<Longrightarrow> ws_cl s c = E_push x \<Longrightarrow> in_push x s = (False, xs) \<Longrightarrow>
    ws_submit n m s (cl_at c (E_lock x) s)"
| e_push_race: "c < m \<Longrightarrow> ws_cl s c = E_push x \<Longrightarrow> ws_submit n m s (cl_at c (E_lock x) s)"
| e_count: "c < m \<Longrightarrow> ws_cl s c = E_count \<Longrightarrow>
    ws_submit n m s (cl_at c E_look (s\<lparr>ws_submitted := ws_submitted s + 1\<rparr>))"
| e_look: "c < m \<Longrightarrow> ws_cl s c = E_look \<Longrightarrow>
    ws_submit n m s (cl_at c (if ws_idle s > 0 then E_notify else E_end WR_accepted) s)"
| e_notify: "c < m \<Longrightarrow> ws_cl s c = E_notify \<Longrightarrow> i < n \<Longrightarrow> ws_wk s i = W_asleep \<Longrightarrow>
    ws_submit n m s (cl_at c (E_end WR_accepted) (wk_at i W_relock s))"
| e_notify_none: "c < m \<Longrightarrow> ws_cl s c = E_notify \<Longrightarrow> (\<forall>i<n. ws_wk s i \<noteq> W_asleep) \<Longrightarrow>
    ws_submit n m s (cl_at c (E_end WR_accepted) s)"
| e_lock: "c < m \<Longrightarrow> ws_cl s c = E_lock x \<Longrightarrow> ws_mtx s = None \<Longrightarrow>
    ws_submit n m s (cl_at c (E_crit x) (s\<lparr>ws_mtx := Some (WS_client c)\<rparr>))"
| e_crit: "c < m \<Longrightarrow> ws_cl s c = E_crit x \<Longrightarrow>
    ws_submit n m s (cl_at c
      (if ws_stop s then E_unlock (WR_threw (Runtime_error ''submit on stopped WorkStealingThreadPool.''))
       else if ws_policy s = WS_THROW then E_unlock (WR_threw (Runtime_error ''task queue is full.''))
       else if ws_policy s = WS_DISCARD then E_unlock WR_rejected
       else E_slow x) s)"
| e_slow: "c < m \<Longrightarrow> ws_cl s c = E_slow x \<Longrightarrow> in_push x s = (True, xs) \<Longrightarrow>
    ws_submit n m s (cl_at c E_slow_count (admitted x xs s))"
| e_slow_full: "c < m \<Longrightarrow> ws_cl s c = E_slow x \<Longrightarrow> in_push x s = (False, xs) \<Longrightarrow>
    ws_submit n m s (cl_at c (E_wait_inc x) s)"
| e_slow_race: "c < m \<Longrightarrow> ws_cl s c = E_slow x \<Longrightarrow> ws_submit n m s (cl_at c (E_wait_inc x) s)"
| e_wait_inc: "c < m \<Longrightarrow> ws_cl s c = E_wait_inc x \<Longrightarrow>
    ws_submit n m s (cl_at c (E_pred x) (s\<lparr>ws_waiting := ws_waiting s + 1\<rparr>))"
| e_pred: "c < m \<Longrightarrow> ws_cl s c = E_pred x \<Longrightarrow>
    ws_submit n m s (cl_at c (if ws_stop s \<or> length (ws_in s) < ws_cap s then E_wait_dec x else E_block x) s)"
| e_block: "c < m \<Longrightarrow> ws_cl s c = E_block x \<Longrightarrow>
    ws_submit n m s (cl_at c (E_asleep x) (s\<lparr>ws_mtx := None\<rparr>))"
| e_wake: "c < m \<Longrightarrow> ws_cl s c = E_asleep x \<Longrightarrow> ws_submit n m s (cl_at c (E_relock x) s)"
| e_relock: "c < m \<Longrightarrow> ws_cl s c = E_relock x \<Longrightarrow> ws_mtx s = None \<Longrightarrow>
    ws_submit n m s (cl_at c (E_pred x) (s\<lparr>ws_mtx := Some (WS_client c)\<rparr>))"
| e_wait_dec: "c < m \<Longrightarrow> ws_cl s c = E_wait_dec x \<Longrightarrow>
    ws_submit n m s (cl_at c (E_recheck x) (s\<lparr>ws_waiting := ws_waiting s - 1\<rparr>))"
| e_recheck: "c < m \<Longrightarrow> ws_cl s c = E_recheck x \<Longrightarrow>
    ws_submit n m s (cl_at c
      (if ws_stop s then E_unlock (WR_threw (Runtime_error ''submit on stopped WorkStealingThreadPool.''))
       else E_slow x) s)"
| e_slow_count: "c < m \<Longrightarrow> ws_cl s c = E_slow_count \<Longrightarrow>
    ws_submit n m s (cl_at c (E_unlock WR_accepted) (s\<lparr>ws_submitted := ws_submitted s + 1\<rparr>))"
| e_unlock: "c < m \<Longrightarrow> ws_cl s c = E_unlock r \<Longrightarrow>
    ws_submit n m s (cl_at c (if r = WR_accepted then E_look else E_end r) (s\<lparr>ws_mtx := None\<rparr>))"
| e_end: "c < m \<Longrightarrow> ws_cl s c = E_end r \<Longrightarrow>
    ws_submit n m s (cl_at c C_idle (s\<lparr>ws_active := ws_active s - 1\<rparr>))"
| t_call: "c < m \<Longrightarrow> ws_cl s c = C_idle \<Longrightarrow>
    ws_submit n m s (cl_at c (T_first x) (s\<lparr>ws_active := ws_active s + 1\<rparr>))"
| t_first: "c < m \<Longrightarrow> ws_cl s c = T_first x \<Longrightarrow>
    ws_submit n m s (cl_at c (if ws_stop s then E_end WR_rejected else T_second x) s)"
| t_second: "c < m \<Longrightarrow> ws_cl s c = T_second x \<Longrightarrow>
    ws_submit n m s (cl_at c (if ws_stop s then E_end WR_rejected else T_push x) s)"
| t_push: "c < m \<Longrightarrow> ws_cl s c = T_push x \<Longrightarrow> in_push x s = (True, xs) \<Longrightarrow>
    ws_submit n m s (cl_at c E_count (admitted x xs s))"
| t_push_full: "c < m \<Longrightarrow> ws_cl s c = T_push x \<Longrightarrow> in_push x s = (False, xs) \<Longrightarrow>
    ws_submit n m s (cl_at c (E_end WR_rejected) s)"
| t_push_race: "c < m \<Longrightarrow> ws_cl s c = T_push x \<Longrightarrow> ws_submit n m s (cl_at c (E_end WR_rejected) s)"

text \<open>\<open>shutdown\<close>, which the destructor calls too.\<close>

fun ws_wake_worker :: "'t ws_wk \<Rightarrow> 't ws_wk" where
  "ws_wake_worker W_asleep = W_relock"
| "ws_wake_worker p = p"

fun ws_wake_client :: "'t ws_cl \<Rightarrow> 't ws_cl" where
  "ws_wake_client (E_asleep x) = E_relock x"
| "ws_wake_client p = p"

inductive ws_shut :: "nat \<Rightarrow> nat \<Rightarrow> 't ws_pool \<Rightarrow> 't ws_pool \<Rightarrow> bool" for n m :: nat where
  s_call: "c < m \<Longrightarrow> ws_cl s c = C_idle \<Longrightarrow> ws_shut n m s (cl_at c S_lock s)"
| s_lock: "c < m \<Longrightarrow> ws_cl s c = S_lock \<Longrightarrow> ws_mtx s = None \<Longrightarrow>
    ws_shut n m s (cl_at c S_crit (s\<lparr>ws_mtx := Some (WS_client c)\<rparr>))"
| s_again: "c < m \<Longrightarrow> ws_cl s c = S_crit \<Longrightarrow> ws_stop s \<Longrightarrow> ws_shut n m s (cl_at c S_unlock_return s)"
| s_stop: "c < m \<Longrightarrow> ws_cl s c = S_crit \<Longrightarrow> \<not> ws_stop s \<Longrightarrow>
    ws_shut n m s (cl_at c S_unlock (s\<lparr>ws_stop := True\<rparr>))"
| s_return: "c < m \<Longrightarrow> ws_cl s c = S_unlock_return \<Longrightarrow>
    ws_shut n m s (cl_at c C_idle (s\<lparr>ws_mtx := None\<rparr>))"
| s_unlock: "c < m \<Longrightarrow> ws_cl s c = S_unlock \<Longrightarrow>
    ws_shut n m s (cl_at c S_notify_workers (s\<lparr>ws_mtx := None\<rparr>))"
| s_notify_workers: "c < m \<Longrightarrow> ws_cl s c = S_notify_workers \<Longrightarrow>
    ws_shut n m s (cl_at c S_notify_producers (s\<lparr>ws_wk := (\<lambda>i. ws_wake_worker (ws_wk s i))\<rparr>))"
| s_notify_producers: "c < m \<Longrightarrow> ws_cl s c = S_notify_producers \<Longrightarrow>
    ws_shut n m s (s\<lparr>ws_cl := (\<lambda>d. ws_wake_client (ws_cl s d))(c := S_spin)\<rparr>)"
| s_spin: "c < m \<Longrightarrow> ws_cl s c = S_spin \<Longrightarrow> ws_active s \<noteq> 0 \<Longrightarrow> ws_shut n m s s"
| s_spun: "c < m \<Longrightarrow> ws_cl s c = S_spin \<Longrightarrow> ws_active s = 0 \<Longrightarrow> ws_shut n m s (cl_at c (S_join 0) s)"
| s_join: "c < m \<Longrightarrow> ws_cl s c = S_join k \<Longrightarrow> k < n \<Longrightarrow> ws_wk s k = W_exit \<Longrightarrow>
    ws_shut n m s (cl_at c (S_join (Suc k)) s)"
| s_done: "c < m \<Longrightarrow> ws_cl s c = S_join n \<Longrightarrow> ws_shut n m s (cl_at c S_done s)"

definition ws_step :: "nat \<Rightarrow> nat \<Rightarrow> 't ws_pool \<Rightarrow> 't ws_pool \<Rightarrow> bool" where
  "ws_step n m s s' \<longleftrightarrow> ws_work n s s' \<or> ws_rest n s s' \<or> ws_submit n m s s' \<or> ws_shut n m s s'"

text \<open>The observers; \<open>getQueueSize\<close> leaves the entry queue out.\<close>

definition ws_getQueueSize :: "nat \<Rightarrow> 't ws_pool \<Rightarrow> size_t" where
  "ws_getQueueSize n s = (\<Sum>i<n. of_nat (length (ws_dq s i)))"

definition ws_getSubmittedTaskCount :: "'t ws_pool \<Rightarrow> u64" where
  "ws_getSubmittedTaskCount s = ws_submitted s"

definition ws_getCompletedTaskCount :: "'t ws_pool \<Rightarrow> u64" where
  "ws_getCompletedTaskCount s = ws_completed s"

definition ws_getBusyWorkerCount :: "'t ws_pool \<Rightarrow> u64" where
  "ws_getBusyWorkerCount s = ws_busy s"

definition ws_getThreadCount :: "nat \<Rightarrow> 't ws_pool \<Rightarrow> size_t" where
  "ws_getThreadCount n s = of_nat n"

definition ws_isStopping :: "'t ws_pool \<Rightarrow> bool" where
  "ws_isStopping s \<longleftrightarrow> ws_stop s"

definition ws_allEmpty :: "nat \<Rightarrow> 't ws_pool \<Rightarrow> bool" where
  "ws_allEmpty n s \<longleftrightarrow> (\<forall>i<n. ws_dq s i = []) \<and> ws_in s = []"

definition ws_is_idle :: "nat \<Rightarrow> 't ws_pool \<Rightarrow> bool" where
  "ws_is_idle n s \<longleftrightarrow> ws_busy s = 0 \<and> ws_allEmpty n s"

end
