(* ===== verification/WS_Thread_Pool_Correct.thy ===== *)
theory WS_Thread_Pool_Correct
  imports WS_Thread_Pool
begin

text \<open>
  What \<open>WorkStealingThreadPool\<close> guarantees: the accounting of tasks and counters, the mutex, the exit
  of workers and \<open>shutdown\<close>, as invariants of the steps of \<open>WS_Thread_Pool\<close>.
\<close>

section \<open>The queues\<close>

lemma in_push_result:
  "in_push x s = (True, xs) \<Longrightarrow> xs = ws_in s @ [x] \<and> length (ws_in s) < ws_cap s"
  "in_push x s = (False, xs) \<Longrightarrow> xs = ws_in s"
  by (auto simp: in_push_def split: if_splits)

lemma in_pop_result:
  "in_pop s = (Some x, xs) \<Longrightarrow> ws_in s = x # xs"
  "in_pop s = (None, xs) \<Longrightarrow> ws_in s = [] \<and> xs = []"
  by (cases "ws_in s"; auto simp: in_pop_def)+

lemma dq_do_result:
  "dq_do Pop i s = (Taken (Some x), xs) \<Longrightarrow> ws_dq s i = xs @ [x]"
  "dq_do Steal i s = (Taken (Some x), xs) \<Longrightarrow> ws_dq s i = x # xs"
  "dq_do (Push x) i s = (Pushed True, xs) \<Longrightarrow> xs = ws_dq s i @ [x] \<and> length (ws_dq s i) < ws_cap s"
  by (auto simp: dq_do_def split: if_splits)

section \<open>Accounting\<close>

fun ws_hand :: "'t ws_wk \<Rightarrow> 't multiset" where
  "ws_hand (X_busy x k) = {#x#}"
| "ws_hand (X_run x k) = {#x#}"
| "ws_hand (W_push x j) = {#x#}"
| "ws_hand _ = {#}"

fun ws_counted_busy :: "'t ws_wk \<Rightarrow> u64" where
  "ws_counted_busy (X_run x k) = 1"
| "ws_counted_busy (X_unbusy k) = 1"
| "ws_counted_busy _ = 0"

fun ws_uncounted :: "'t ws_wk \<Rightarrow> u64" where
  "ws_uncounted (X_unbusy k) = 1"
| "ws_uncounted (X_complete k) = 1"
| "ws_uncounted _ = 0"

fun ws_counted_idle :: "'t ws_wk \<Rightarrow> size_t" where
  "ws_counted_idle W_pred = 1"
| "ws_counted_idle (W_scan j) = 1"
| "ws_counted_idle W_block = 1"
| "ws_counted_idle W_asleep = 1"
| "ws_counted_idle W_relock = 1"
| "ws_counted_idle W_idle_dec = 1"
| "ws_counted_idle _ = 0"

fun ws_unsubmitted :: "'t ws_cl \<Rightarrow> u64" where
  "ws_unsubmitted E_count = 1"
| "ws_unsubmitted E_slow_count = 1"
| "ws_unsubmitted _ = 0"

fun ws_counted_waiting :: "'t ws_cl \<Rightarrow> size_t" where
  "ws_counted_waiting (E_pred x) = 1"
| "ws_counted_waiting (E_block x) = 1"
| "ws_counted_waiting (E_asleep x) = 1"
| "ws_counted_waiting (E_relock x) = 1"
| "ws_counted_waiting (E_wait_dec x) = 1"
| "ws_counted_waiting _ = 0"

fun ws_in_flight :: "'t ws_cl \<Rightarrow> u32" where
  "ws_in_flight C_idle = 0"
| "ws_in_flight S_lock = 0"
| "ws_in_flight S_crit = 0"
| "ws_in_flight S_unlock_return = 0"
| "ws_in_flight S_unlock = 0"
| "ws_in_flight S_notify_workers = 0"
| "ws_in_flight S_notify_producers = 0"
| "ws_in_flight S_spin = 0"
| "ws_in_flight (S_join k) = 0"
| "ws_in_flight S_done = 0"
| "ws_in_flight _ = 1"

text \<open>The tasks that no thread holds.\<close>

definition ws_stored :: "nat \<Rightarrow> 't ws_pool \<Rightarrow> 't multiset" where
  "ws_stored n s = mset (ws_executed s) + mset (ws_in s) + (\<Sum>i<n. mset (ws_dq s i))"

definition ws_account :: "nat \<Rightarrow> 't ws_pool \<Rightarrow> bool" where
  "ws_account n s \<longleftrightarrow>
     mset (ws_accepted s) = ws_stored n s + (\<Sum>i<n. ws_hand (ws_wk s i)) \<and>
     length (ws_in s) \<le> ws_cap s \<and> (\<forall>i. length (ws_dq s i) \<le> ws_cap s) \<and>
     ws_busy s = 0 + (\<Sum>i<n. ws_counted_busy (ws_wk s i)) \<and>
     of_nat (length (ws_executed s)) = ws_completed s + (\<Sum>i<n. ws_uncounted (ws_wk s i)) \<and>
     ws_idle s = 0 + (\<Sum>i<n. ws_counted_idle (ws_wk s i))"

definition ws_clients :: "nat \<Rightarrow> 't ws_pool \<Rightarrow> bool" where
  "ws_clients m s \<longleftrightarrow>
     of_nat (length (ws_accepted s)) = ws_submitted s + (\<Sum>c<m. ws_unsubmitted (ws_cl s c)) \<and>
     ws_waiting s = 0 + (\<Sum>c<m. ws_counted_waiting (ws_cl s c)) \<and>
     ws_active s = 0 + (\<Sum>c<m. ws_in_flight (ws_cl s c))"

text \<open>One step of a worker, as an exchange between the worker and the pool.\<close>

definition ws_exchange :: "nat \<Rightarrow> 't ws_pool \<Rightarrow> 't ws_pool \<Rightarrow> 't ws_wk \<Rightarrow> 't ws_wk \<Rightarrow> bool" where
  "ws_exchange n s s' q p \<longleftrightarrow>
     ws_stored n s + ws_hand q = ws_stored n s' + ws_hand p \<and>
     length (ws_in s') \<le> length (ws_in s) \<and> (\<forall>i. length (ws_dq s' i) \<le> max (length (ws_dq s i)) (ws_cap s)) \<and>
     ws_busy s' + ws_counted_busy q = ws_busy s + ws_counted_busy p \<and>
     of_nat (length (ws_executed s')) + ws_completed s + ws_uncounted q =
       of_nat (length (ws_executed s)) + ws_completed s' + ws_uncounted p \<and>
     ws_idle s' + ws_counted_idle q = ws_idle s + ws_counted_idle p"

lemma after_task_weights [simp]:
  "ws_hand (after_task k) = {#}" "ws_counted_busy (after_task k) = 0" "ws_uncounted (after_task k) = 0"
  "ws_counted_idle (after_task k) = 0"
  by (cases k; simp)+

lemma dq_sum:
  assumes "t < n"
  shows "(\<Sum>i<n. mset (((dq(t := xs)) :: nat \<Rightarrow> 't list) i)) + mset (dq t) = (\<Sum>i<n. mset (dq i)) + mset xs"
  using sum_thread_update [OF assms, of mset dq xs] .

lemma ws_work_exchange:
  assumes "ws_work n s s'"
  shows "\<exists>i<n. ws_wk s' = (ws_wk s)(i := ws_wk s' i) \<and> ws_exchange n s s' (ws_wk s i) (ws_wk s' i)"
  using assms
proof cases
  case (k_pop i x xs)
  then show ?thesis
    using dq_do_result(1) [OF k_pop(4)] dq_sum [OF k_pop(2), of "ws_dq s" xs]
    by (intro exI [of _ i]) (simp add: ws_exchange_def ws_stored_def)
next
  case (k_fill i j a x xs)
  then show ?thesis
    using in_pop_result(1) [OF k_fill(5)] by (intro exI [of _ i]) (simp add: ws_exchange_def ws_stored_def)
next
  case (k_push i x j xs)
  then show ?thesis
    using dq_do_result(3) [OF k_push(4)] dq_sum [OF k_push(2), of "ws_dq s" xs]
    by (intro exI [of _ i]) (simp add: ws_exchange_def ws_stored_def)
next
  case (k_steal i j t x xs)
  then have "t < n" by simp
  then show ?thesis
    using k_steal dq_do_result(2) [OF k_steal(7)] dq_sum [of t n "ws_dq s" xs]
    by (intro exI [of _ i]) (simp add: ws_exchange_def ws_stored_def)
qed (rule exI, rule conjI, assumption, simp add: ws_exchange_def ws_stored_def)+

lemma ws_rest_exchange:
  assumes "ws_rest n s s'"
  shows "\<exists>i<n. ws_wk s' = (ws_wk s)(i := ws_wk s' i) \<and> ws_exchange n s s' (ws_wk s i) (ws_wk s' i)"
  using assms
  by cases (rule exI, rule conjI, assumption, simp add: ws_exchange_def ws_stored_def)+


definition ws_worker_keeps :: "'t ws_pool \<Rightarrow> 't ws_pool \<Rightarrow> bool" where
  "ws_worker_keeps s s' \<longleftrightarrow>
     ws_accepted s' = ws_accepted s \<and> ws_late s' = ws_late s \<and> ws_cap s' = ws_cap s \<and> ws_stop s' = ws_stop s \<and>
     ws_policy s' = ws_policy s \<and> ws_active s' = ws_active s \<and> ws_submitted s' = ws_submitted s \<and>
     ws_waiting s' = ws_waiting s \<and>
     (\<forall>c. ws_cl s' c = ws_cl s c \<or> (\<exists>x. ws_cl s c = E_asleep x \<and> ws_cl s' c = E_relock x)) \<and>
     (\<forall>i. ws_wk s i = W_exit \<longrightarrow> ws_wk s' i = W_exit)"

lemma ws_work_keeps: "ws_work n s s' \<Longrightarrow> ws_worker_keeps s s'"
  by (erule ws_work.cases; simp add: ws_worker_keeps_def)

lemma ws_rest_keeps: "ws_rest n s s' \<Longrightarrow> ws_worker_keeps s s'"
  by (erule ws_rest.cases; simp add: ws_worker_keeps_def)

lemma ws_worker_frame:
  assumes "ws_work n s s' \<or> ws_rest n s s'"
  shows "ws_accepted s' = ws_accepted s" "ws_late s' = ws_late s" "ws_cap s' = ws_cap s" "ws_stop s' = ws_stop s"
    "ws_policy s' = ws_policy s" "ws_active s' = ws_active s" "ws_submitted s' = ws_submitted s"
    "ws_waiting s' = ws_waiting s"
    "ws_cl s' c = ws_cl s c \<or> (\<exists>x. ws_cl s c = E_asleep x \<and> ws_cl s' c = E_relock x)"
    "ws_wk s i = W_exit \<Longrightarrow> ws_wk s' i = W_exit"
  using assms ws_work_keeps [of n s s'] ws_rest_keeps [of n s s'] by (auto simp: ws_worker_keeps_def)

lemma ws_worker_account:
  assumes a: "ws_account n s" and st: "ws_work n s s' \<or> ws_rest n s s'"
  shows "ws_account n s'"
proof -
  note a = a [unfolded ws_account_def]
  obtain i where i: "i < n" "ws_wk s' = (ws_wk s)(i := ws_wk s' i)" "ws_exchange n s s' (ws_wk s i) (ws_wk s' i)"
    using st ws_work_exchange ws_rest_exchange by blast
  note e = i(3) [unfolded ws_exchange_def]
  note f = ws_worker_frame(1,3) [OF st]
  have "mset (ws_accepted s') = ws_stored n s' + (\<Sum>u<n. ws_hand (((ws_wk s)(i := ws_wk s' i)) u))"
    by (rule balance [where a = "mset (ws_accepted s)" and b = "ws_stored n s", OF _ i(1)])
      (use a e f in \<open>simp_all add: add.assoc\<close>)
  moreover have "ws_busy s' = 0 + (\<Sum>u<n. ws_counted_busy (((ws_wk s)(i := ws_wk s' i)) u))"
    by (rule balance [where b = 0, OF _ i(1)]) (use a e in auto)
  moreover have "of_nat (length (ws_executed s')) =
      ws_completed s' + (\<Sum>u<n. ws_uncounted (((ws_wk s)(i := ws_wk s' i)) u))"
    by (rule balance [where b = "ws_completed s", OF _ i(1)]) (use a e in auto)
  moreover have "ws_idle s' = 0 + (\<Sum>u<n. ws_counted_idle (((ws_wk s)(i := ws_wk s' i)) u))"
    by (rule balance [where b = 0, OF _ i(1)]) (use a e in auto)
  moreover have "length (ws_dq s' u) \<le> ws_cap s" for u
    using a e by (metis max.absorb2)
  ultimately show ?thesis
    unfolding ws_account_def using a e i(2) f by auto
qed

text \<open>Waking a thread changes nothing of this.\<close>

definition ws_wakes :: "(nat \<Rightarrow> 't ws_wk) \<Rightarrow> (nat \<Rightarrow> 't ws_wk) \<Rightarrow> bool" where
  "ws_wakes pc pc' \<longleftrightarrow> (\<forall>i. pc' i = pc i \<or> pc i = W_asleep \<and> pc' i = W_relock)"

lemma ws_wakes_intros [intro, simp]:
  "ws_wakes pc pc" "pc i = W_asleep \<Longrightarrow> ws_wakes pc (pc(i := W_relock))" "ws_wakes pc (\<lambda>i. ws_wake_worker (pc i))"
proof -
  show "ws_wakes pc (\<lambda>i. ws_wake_worker (pc i))"
    unfolding ws_wakes_def
  proof
    fix i show "ws_wake_worker (pc i) = pc i \<or> pc i = W_asleep \<and> ws_wake_worker (pc i) = W_relock"
      by (cases "pc i") auto
  qed
qed (auto simp: ws_wakes_def)

lemma ws_wakes_weights:
  assumes "ws_wakes pc pc'"
  shows "ws_hand (pc' i) = ws_hand (pc i)" "ws_counted_busy (pc' i) = ws_counted_busy (pc i)"
    "ws_uncounted (pc' i) = ws_uncounted (pc i)" "ws_counted_idle (pc' i) = ws_counted_idle (pc i)"
  using assms [unfolded ws_wakes_def, rule_format, of i] by auto

lemma ws_wake_client_weights [simp]:
  "ws_unsubmitted (ws_wake_client p) = ws_unsubmitted p" "ws_counted_waiting (ws_wake_client p) = ws_counted_waiting p"
  "ws_in_flight (ws_wake_client p) = ws_in_flight p"
  by (cases p; simp)+

lemma ws_submit_frame:
  assumes "ws_submit n m s s'"
  shows "ws_stop s' = ws_stop s" "ws_policy s' = ws_policy s" "ws_wakes (ws_wk s) (ws_wk s')" "ws_cap s' = ws_cap s"
    "ws_dq s' = ws_dq s" "ws_executed s' = ws_executed s" "ws_busy s' = ws_busy s" "ws_idle s' = ws_idle s"
    "ws_completed s' = ws_completed s"
  using assms by (cases; auto simp: admitted_def)+

lemma ws_shut_frame:
  assumes "ws_shut n m s s'"
  shows "ws_stop s \<longrightarrow> ws_stop s'" "ws_policy s' = ws_policy s" "ws_wakes (ws_wk s) (ws_wk s')" "ws_cap s' = ws_cap s"
    "ws_dq s' = ws_dq s" "ws_executed s' = ws_executed s" "ws_busy s' = ws_busy s" "ws_idle s' = ws_idle s"
    "ws_completed s' = ws_completed s" "ws_accepted s' = ws_accepted s" "ws_in s' = ws_in s" "ws_late s' = ws_late s"
    "ws_submitted s' = ws_submitted s" "ws_waiting s' = ws_waiting s" "ws_active s' = ws_active s"
  using assms by (cases; auto)+

text \<open>What a client puts into the entry queue.\<close>

lemma ws_submit_in:
  assumes "ws_submit n m s s'"
  shows "(ws_in s' = ws_in s \<and> ws_accepted s' = ws_accepted s \<and> ws_late s' = ws_late s) \<or>
    (\<exists>x. ws_in s' = ws_in s @ [x] \<and> length (ws_in s) < ws_cap s \<and> ws_accepted s' = ws_accepted s @ [x] \<and>
       ws_late s' = (if ws_stop s then ws_late s @ [x] else ws_late s))"
  using assms by (cases; auto simp: admitted_def dest: in_push_result)

lemma ws_submit_account:
  assumes a: "ws_account n s" and st: "ws_submit n m s s'"
  shows "ws_account n s'"
  using a ws_submit_in [OF st] ws_submit_frame [OF st] ws_wakes_weights [OF ws_submit_frame(3) [OF st]]
  by (auto simp: ws_account_def ws_stored_def)

lemma ws_shut_account:
  assumes a: "ws_account n s" and st: "ws_shut n m s s'"
  shows "ws_account n s'"
  using a ws_shut_frame [OF st] ws_wakes_weights [OF ws_shut_frame(3) [OF st]]
  by (simp add: ws_account_def ws_stored_def)

section \<open>The clients' counters\<close>

lemma ws_worker_clients:
  assumes "ws_clients m s" "ws_work n s s' \<or> ws_rest n s s'"
  shows "ws_clients m s'"
proof -
  have w: "ws_unsubmitted (ws_cl s' c) = ws_unsubmitted (ws_cl s c)" "ws_counted_waiting (ws_cl s' c) = ws_counted_waiting (ws_cl s c)"
    "ws_in_flight (ws_cl s' c) = ws_in_flight (ws_cl s c)" for c
    using ws_worker_frame(9) [OF assms(2), of c] by auto
  show ?thesis
    using assms(1) ws_worker_frame(1,6,7,8) [OF assms(2)] by (simp add: ws_clients_def w)
qed

lemma ws_submit_exchange:
  assumes "ws_submit n m s s'"
  shows "\<exists>c<m. ws_cl s' = (ws_cl s)(c := ws_cl s' c) \<and>
    of_nat (length (ws_accepted s')) + ws_submitted s + ws_unsubmitted (ws_cl s c) =
      of_nat (length (ws_accepted s)) + ws_submitted s' + ws_unsubmitted (ws_cl s' c) \<and>
    ws_waiting s' + ws_counted_waiting (ws_cl s c) = ws_waiting s + ws_counted_waiting (ws_cl s' c) \<and>
    ws_active s' + ws_in_flight (ws_cl s c) = ws_active s + ws_in_flight (ws_cl s' c)"
  using assms by cases (rule exI, rule conjI, assumption, simp add: admitted_def)+

lemma ws_submit_clients:
  assumes a: "ws_clients m s" and st: "ws_submit n m s s'"
  shows "ws_clients m s'"
proof -
  note a = a [unfolded ws_clients_def]
  obtain c where c: "c < m" "ws_cl s' = (ws_cl s)(c := ws_cl s' c)"
    "of_nat (length (ws_accepted s')) + ws_submitted s + ws_unsubmitted (ws_cl s c) =
      of_nat (length (ws_accepted s)) + ws_submitted s' + ws_unsubmitted (ws_cl s' c)"
    "ws_waiting s' + ws_counted_waiting (ws_cl s c) = ws_waiting s + ws_counted_waiting (ws_cl s' c)"
    "ws_active s' + ws_in_flight (ws_cl s c) = ws_active s + ws_in_flight (ws_cl s' c)"
    using ws_submit_exchange [OF st] by blast
  have "of_nat (length (ws_accepted s')) =
      ws_submitted s' + (\<Sum>d<m. ws_unsubmitted (((ws_cl s)(c := ws_cl s' c)) d))"
    by (rule balance [where b = "ws_submitted s", OF _ c(1)]) (use a c(3) in auto)
  moreover have "ws_waiting s' = 0 + (\<Sum>d<m. ws_counted_waiting (((ws_cl s)(c := ws_cl s' c)) d))"
    by (rule balance [where b = 0, OF _ c(1)]) (use a c(4) in auto)
  moreover have "ws_active s' = 0 + (\<Sum>d<m. ws_in_flight (((ws_cl s)(c := ws_cl s' c)) d))"
    by (rule balance [where b = 0, OF _ c(1)]) (use a c(5) in auto)
  ultimately show ?thesis using c(2) by (simp add: ws_clients_def)
qed

lemma ws_shut_clients:
  assumes a: "ws_clients m s" and st: "ws_shut n m s s'"
  shows "ws_clients m s'"
proof -
  have w: "ws_unsubmitted (ws_cl s' d) = ws_unsubmitted (ws_cl s d) \<and>
      ws_counted_waiting (ws_cl s' d) = ws_counted_waiting (ws_cl s d) \<and> ws_in_flight (ws_cl s' d) = ws_in_flight (ws_cl s d)" for d
    using st by cases auto
  show ?thesis
    using a ws_shut_frame(10,13,14,15) [OF st] by (simp add: ws_clients_def w)
qed


section \<open>The mutex\<close>

fun ws_wk_holds :: "'t ws_wk \<Rightarrow> bool" where
  "ws_wk_holds W_stop = True"
| "ws_wk_holds (W_exit_scan j) = True"
| "ws_wk_holds W_idle_inc = True"
| "ws_wk_holds W_pred = True"
| "ws_wk_holds (W_scan j) = True"
| "ws_wk_holds W_block = True"
| "ws_wk_holds W_idle_dec = True"
| "ws_wk_holds W_unlock = True"
| "ws_wk_holds W_unlock_exit = True"
| "ws_wk_holds _ = False"

fun ws_cl_holds :: "'t ws_cl \<Rightarrow> bool" where
  "ws_cl_holds (E_crit x) = True"
| "ws_cl_holds (E_slow x) = True"
| "ws_cl_holds (E_wait_inc x) = True"
| "ws_cl_holds (E_pred x) = True"
| "ws_cl_holds (E_block x) = True"
| "ws_cl_holds (E_wait_dec x) = True"
| "ws_cl_holds (E_recheck x) = True"
| "ws_cl_holds E_slow_count = True"
| "ws_cl_holds (E_unlock r) = True"
| "ws_cl_holds S_crit = True"
| "ws_cl_holds S_unlock_return = True"
| "ws_cl_holds S_unlock = True"
| "ws_cl_holds _ = False"

definition ws_lock :: "'t ws_pool \<Rightarrow> bool" where
  "ws_lock s \<longleftrightarrow> (\<forall>i. ws_wk_holds (ws_wk s i) \<longleftrightarrow> ws_mtx s = Some (WS_worker i)) \<and>
     (\<forall>c. ws_cl_holds (ws_cl s c) \<longleftrightarrow> ws_mtx s = Some (WS_client c))"

lemma after_task_free [simp]: "ws_wk_holds (after_task k) = False"
  by (cases k) auto

lemma ws_wake_holds [simp]: "ws_wk_holds (ws_wake_worker p) = ws_wk_holds p" "ws_cl_holds (ws_wake_client q) = ws_cl_holds q"
  by (cases p; simp) (cases q; simp)

text \<open>A step either leaves the mutex alone, and then every thread keeps its hold; or it takes the free
  mutex for the thread that moves; or its holder releases it.\<close>

lemma ws_lock_step:
  assumes "ws_lock s" "ws_mtx s' = ws_mtx s"
    and "\<And>i. ws_wk_holds (ws_wk s' i) = ws_wk_holds (ws_wk s i)" "\<And>c. ws_cl_holds (ws_cl s' c) = ws_cl_holds (ws_cl s c)"
  shows "ws_lock s'"
  using assms by (simp add: ws_lock_def)

lemma ws_lock_worker:
  assumes "ws_lock s" "ws_wk s' = (ws_wk s)(i := p)" "\<And>c. ws_cl_holds (ws_cl s' c) = ws_cl_holds (ws_cl s c)"
    "ws_wk_holds p \<and> ws_mtx s = None \<and> ws_mtx s' = Some (WS_worker i) \<or>
     \<not> ws_wk_holds p \<and> ws_wk_holds (ws_wk s i) \<and> ws_mtx s' = None"
  shows "ws_lock s'"
  using assms unfolding ws_lock_def by (auto split: if_splits)

lemma ws_lock_client:
  assumes "ws_lock s" "ws_cl s' = (ws_cl s)(c := p)" "\<And>i. ws_wk_holds (ws_wk s' i) = ws_wk_holds (ws_wk s i)"
    "ws_cl_holds p \<and> ws_mtx s = None \<and> ws_mtx s' = Some (WS_client c) \<or>
     \<not> ws_cl_holds p \<and> ws_cl_holds (ws_cl s c) \<and> ws_mtx s' = None"
  shows "ws_lock s'"
  using assms unfolding ws_lock_def by (auto split: if_splits)

lemma ws_work_lock:
  assumes "ws_lock s" "ws_work n s s'"
  shows "ws_lock s'"
  using assms(2) by cases (rule ws_lock_step [OF assms(1)]; simp)+

lemma ws_rest_lock:
  assumes l: "ws_lock s" and st: "ws_rest n s s'"
  shows "ws_lock s'"
  using st
proof cases
  case (r_lock i)
  then show ?thesis by (intro ws_lock_worker [OF l, of s' i W_stop]) auto
next
  case (r_unlock_exit i)
  then show ?thesis by (intro ws_lock_worker [OF l, of s' i W_exit]) auto
next
  case (r_block i)
  then show ?thesis by (intro ws_lock_worker [OF l, of s' i W_asleep]) auto
next
  case (r_relock i)
  then show ?thesis by (intro ws_lock_worker [OF l, of s' i W_pred]) auto
next
  case (r_unlock i)
  then show ?thesis by (intro ws_lock_worker [OF l, of s' i W_pop]) auto
qed (rule ws_lock_step [OF l]; simp)+

lemma ws_submit_lock:
  assumes l: "ws_lock s" and st: "ws_submit n m s s'"
  shows "ws_lock s'"
  using st
proof cases
  case (e_lock c x)
  then show ?thesis by (intro ws_lock_client [OF l, of s' c "E_crit x"]) auto
next
  case (e_block c x)
  then show ?thesis by (intro ws_lock_client [OF l, of s' c "E_asleep x"]) auto
next
  case (e_relock c x)
  then show ?thesis by (intro ws_lock_client [OF l, of s' c "E_pred x"]) auto
next
  case (e_unlock c r)
  then show ?thesis by (intro ws_lock_client [OF l, of s' c "if r = WR_accepted then E_look else E_end r"]) auto
qed (rule ws_lock_step [OF l]; simp add: admitted_def)+

lemma ws_shut_lock:
  assumes l: "ws_lock s" and st: "ws_shut n m s s'"
  shows "ws_lock s'"
  using st
proof cases
  case (s_lock c)
  then show ?thesis by (intro ws_lock_client [OF l, of s' c S_crit]) auto
next
  case (s_return c)
  then show ?thesis by (intro ws_lock_client [OF l, of s' c C_idle]) auto
next
  case (s_unlock c)
  then show ?thesis by (intro ws_lock_client [OF l, of s' c S_notify_workers]) auto
qed (rule ws_lock_step [OF l]; simp)+


section \<open>Exit of the workers and shutdown\<close>

text \<open>A worker that returns has found its own deque empty, and nobody else fills it; what is in the entry
  queue after that was put there after \<open>stop_\<close> was set.\<close>

definition only_late :: "'t ws_pool \<Rightarrow> bool" where
  "only_late s \<longleftrightarrow> ws_stop s \<and> mset (ws_in s) \<subseteq># mset (ws_late s)"

fun ws_exit_ok :: "nat \<Rightarrow> 't ws_pool \<Rightarrow> 't ws_wk \<Rightarrow> bool" where
  "ws_exit_ok i s (W_exit_scan j) = (ws_stop s \<and> (i < j \<longrightarrow> ws_dq s i = []))"
| "ws_exit_ok i s W_unlock_exit = (only_late s \<and> ws_dq s i = [])"
| "ws_exit_ok i s W_exit = (only_late s \<and> ws_dq s i = [])"
| "ws_exit_ok i s _ = True"

fun ws_shut_ok :: "nat \<Rightarrow> 't ws_pool \<Rightarrow> 't ws_cl \<Rightarrow> bool" where
  "ws_shut_ok n s S_unlock = ws_stop s"
| "ws_shut_ok n s S_notify_workers = ws_stop s"
| "ws_shut_ok n s S_notify_producers = ws_stop s"
| "ws_shut_ok n s S_spin = ws_stop s"
| "ws_shut_ok n s (S_join k) = (ws_stop s \<and> (\<forall>i<k. ws_wk s i = W_exit))"
| "ws_shut_ok n s S_done = (ws_stop s \<and> (\<forall>i<n. ws_wk s i = W_exit))"
| "ws_shut_ok n s _ = True"

definition ws_exit :: "nat \<Rightarrow> 't ws_pool \<Rightarrow> bool" where
  "ws_exit n s \<longleftrightarrow> (\<forall>i<n. ws_exit_ok i s (ws_wk s i)) \<and> (\<forall>c. ws_shut_ok n s (ws_cl s c))"

lemma ws_exit_ok_mono:
  assumes "ws_stop s \<longrightarrow> ws_stop s'" "only_late s \<longrightarrow> only_late s'" "ws_dq s i = [] \<longrightarrow> ws_dq s' i = []"
  shows "ws_exit_ok i s p \<Longrightarrow> ws_exit_ok i s' p"
  using assms by (cases p) auto

lemma ws_shut_ok_mono:
  assumes "ws_stop s \<longrightarrow> ws_stop s'" "\<And>i. ws_wk s i = W_exit \<Longrightarrow> ws_wk s' i = W_exit"
  shows "ws_shut_ok n s p \<Longrightarrow> ws_shut_ok n s' p"
  using assms by (cases p) auto

lemma after_task_exit [simp]: "ws_exit_ok i s (after_task k)"
  by (cases k) auto

lemma ws_wake_exit: "ws_exit_ok i s (ws_wake_worker p) = ws_exit_ok i s p" "ws_shut_ok n s (ws_wake_client q) = ws_shut_ok n s q"
  by (cases p; simp) (cases q; simp)

lemma ws_work_late:
  assumes "ws_work n s s'" "only_late s"
  shows "only_late s'"
  using assms(1)
proof cases
  case (k_fill i j a x xs)
  then show ?thesis
    using assms(2) in_pop_result(1) [OF k_fill(5)]
    by (auto simp: only_late_def intro: subset_mset.order_trans [of "mset xs" "mset (ws_in s)"])
qed (use assms(2) in \<open>simp_all add: only_late_def\<close>)

lemma ws_submit_late:
  assumes "ws_submit n m s s'" "only_late s"
  shows "only_late s'"
  using ws_submit_in [OF assms(1)] ws_submit_frame(1) [OF assms(1)] assms(2)
  by (auto simp: only_late_def)

text \<open>Only worker \<open>i\<close> pushes to deque \<open>i\<close>, and not while it is on its way out.\<close>

lemma ws_work_deque:
  assumes "ws_work n s s'"
  shows "\<exists>i<n. ws_wk s' = (ws_wk s)(i := ws_wk s' i) \<and> ws_exit_ok i s' (ws_wk s' i) \<and>
    (\<forall>u. u \<noteq> i \<longrightarrow> ws_dq s u = [] \<longrightarrow> ws_dq s' u = [])"
  using assms
proof cases
  case (k_steal i j t x xs)
  then show ?thesis using dq_do_result(2) [OF k_steal(7)] by (intro exI [of _ i]) auto
qed (rule exI, rule conjI, assumption, simp)+

lemma ws_work_exit:
  assumes e: "ws_exit n s" and st: "ws_work n s s'"
  shows "ws_exit n s'"
proof -
  obtain i where i: "i < n" "ws_wk s' = (ws_wk s)(i := ws_wk s' i)" "ws_exit_ok i s' (ws_wk s' i)"
      "\<And>u. u \<noteq> i \<Longrightarrow> ws_dq s u = [] \<longrightarrow> ws_dq s' u = []"
    using ws_work_deque [OF st] by blast
  have f: "ws_stop s \<longrightarrow> ws_stop s'" using ws_worker_frame(4) [of n s s'] st by simp
  have "ws_exit_ok u s' (ws_wk s' u)" if "u < n" for u
  proof (cases "u = i")
    case False
    then have "ws_wk s' u = ws_wk s u" using i(2) by (metis fun_upd_other)
    then show ?thesis
      using ws_exit_ok_mono [OF f _ i(4) [OF False]] ws_work_late [OF st] e that by (simp add: ws_exit_def)
  qed (use i(3) in simp)
  moreover have "ws_shut_ok n s' (ws_cl s c)" for c
    using e ws_shut_ok_mono [OF f] ws_worker_frame(10) [of n s s'] st by (auto simp: ws_exit_def)
  then have "ws_shut_ok n s' (ws_cl s' c)" for c
    using ws_worker_frame(9) [of n s s' c] st by auto
  ultimately show ?thesis by (simp add: ws_exit_def)
qed

lemma ws_rest_step:
  assumes "ws_rest n s s'" "\<And>i. i < n \<Longrightarrow> ws_exit_ok i s (ws_wk s i)"
  shows "\<exists>i<n. ws_wk s' = (ws_wk s)(i := ws_wk s' i) \<and> ws_exit_ok i s' (ws_wk s' i)"
    and "ws_in s' = ws_in s" "ws_dq s' = ws_dq s"
proof -
  show "\<exists>i<n. ws_wk s' = (ws_wk s)(i := ws_wk s' i) \<and> ws_exit_ok i s' (ws_wk s' i)"
    using assms(1)
  proof cases
    case (r_exit_scan i j)
    then show ?thesis using assms(2) [OF r_exit_scan(2)] by (intro exI [of _ i]) (auto simp: less_Suc_eq)
  next
    case (r_exit_in i)
    then show ?thesis using assms(2) [OF r_exit_in(2)] by (intro exI [of _ i]) (auto simp: only_late_def)
  next
    case (r_unlock_exit i)
    then show ?thesis using assms(2) [OF r_unlock_exit(2)] by (intro exI [of _ i]) (auto simp: only_late_def)
  qed (rule exI, rule conjI, assumption, simp)+
  show "ws_in s' = ws_in s" "ws_dq s' = ws_dq s" using assms(1) by (cases; simp)+
qed

lemma ws_rest_exit:
  assumes e: "ws_exit n s" and st: "ws_rest n s s'"
  shows "ws_exit n s'"
proof -
  have e': "ws_exit_ok i s (ws_wk s i)" if "i < n" for i using e that by (simp add: ws_exit_def)
  obtain i where i: "i < n" "ws_wk s' = (ws_wk s)(i := ws_wk s' i)" "ws_exit_ok i s' (ws_wk s' i)"
    using ws_rest_step(1) [OF st e'] by blast
  have f: "ws_stop s \<longrightarrow> ws_stop s'" "only_late s \<longrightarrow> only_late s'"
    using ws_worker_frame(2,4) [of n s s'] st ws_rest_step(2) [OF st e'] by (simp_all add: only_late_def)
  have "ws_exit_ok u s' (ws_wk s' u)" if "u < n" for u
  proof (cases "u = i")
    case False
    then have "ws_wk s' u = ws_wk s u" using i(2) by (metis fun_upd_other)
    then show ?thesis
      using ws_exit_ok_mono [OF f] e' [OF that] ws_rest_step(3) [OF st e'] by simp
  qed (use i(3) in simp)
  moreover have "ws_shut_ok n s' (ws_cl s c)" for c
    using e ws_shut_ok_mono [OF f(1)] ws_worker_frame(10) [of n s s'] st by (auto simp: ws_exit_def)
  then have "ws_shut_ok n s' (ws_cl s' c)" for c
    using ws_worker_frame(9) [of n s s' c] st by auto
  ultimately show ?thesis by (simp add: ws_exit_def)
qed

text \<open>Steps of clients.\<close>

lemma ws_wakes_exit:
  assumes "ws_wakes (ws_wk s) (ws_wk s')" "ws_stop s \<longrightarrow> ws_stop s'" "only_late s \<longrightarrow> only_late s'" "ws_dq s' = ws_dq s"
    "ws_exit n s"
  shows "\<forall>i<n. ws_exit_ok i s' (ws_wk s' i)" "ws_shut_ok n s' (ws_cl s c)"
proof -
  have "ws_exit_ok i s' (ws_wk s' i)" if "i < n" for i
    using assms(1) [unfolded ws_wakes_def, rule_format, of i] ws_exit_ok_mono [OF assms(2,3), of i] assms(4,5) that
    by (auto simp: ws_exit_def)
  then show "\<forall>i<n. ws_exit_ok i s' (ws_wk s' i)" by blast
  have "ws_wk s' i = W_exit" if "ws_wk s i = W_exit" for i
    using assms(1) [unfolded ws_wakes_def, rule_format, of i] that by auto
  then show "ws_shut_ok n s' (ws_cl s c)" using ws_shut_ok_mono [OF assms(2)] assms(5) by (auto simp: ws_exit_def)
qed

lemma ws_submit_exit:
  assumes e: "ws_exit n s" and st: "ws_submit n m s s'"
  shows "ws_exit n s'"
proof -
  note f = ws_submit_frame [OF st]
  note w = ws_wakes_exit [OF f(3) _ _ f(5) e]
  have "ws_shut_ok n s' (ws_cl s' c) \<or> ws_cl s' c = ws_cl s c" for c
    using st by cases (auto simp: admitted_def)
  then show ?thesis
    using w f(1) ws_submit_late [OF st] unfolding ws_exit_def by metis
qed

lemma ws_shut_exit:
  assumes e: "ws_exit n s" and st: "ws_shut n m s s'"
  shows "ws_exit n s'"
proof -
  note f = ws_shut_frame [OF st]
  have l: "only_late s \<longrightarrow> only_late s'" using f(1,11,12) by (simp add: only_late_def)
  note w = ws_wakes_exit [OF f(3) f(1) l f(5) e]
  have "ws_shut_ok n s' (ws_cl s' c)" for c
    using st
  proof cases
    case (s_join d k)
    then show ?thesis using w(2) [of c] w(2) [of d] by (auto simp: less_Suc_eq)
  qed (use w(2) [of c] e in \<open>auto simp: ws_exit_def ws_wake_exit dest: spec [where x = _]\<close>)
  then show ?thesis using w(1) by (simp add: ws_exit_def)
qed

section \<open>The invariant\<close>

definition ws_inv :: "nat \<Rightarrow> nat \<Rightarrow> 't ws_pool \<Rightarrow> bool" where
  "ws_inv n m s \<longleftrightarrow> ws_account n s \<and> ws_clients m s \<and> ws_lock s \<and> ws_exit n s"

lemmas ws_layers =
  ws_worker_account ws_worker_clients ws_work_lock ws_rest_lock ws_work_exit ws_rest_exit
  ws_submit_account ws_submit_clients ws_submit_lock ws_submit_exit
  ws_shut_account ws_shut_clients ws_shut_lock ws_shut_exit

lemma ws_init_inv: "ws_init q p s \<Longrightarrow> ws_inv n m s"
  by (auto simp: ws_init_def ws_inv_def ws_account_def ws_stored_def ws_clients_def ws_lock_def ws_exit_def)

lemma ws_step_inv: "ws_inv n m s \<Longrightarrow> ws_step n m s s' \<Longrightarrow> ws_inv n m s'"
  unfolding ws_step_def ws_inv_def by (meson ws_layers)

interpretation ws: inductive_invariant "ws_init q p" "ws_step n m" "ws_inv n m" for q p n m
  by unfold_locales (auto intro: ws_init_inv ws_step_inv)

end
