(* ===== verification/WS_Thread_Pool_Properties.thy ===== *)
theory WS_Thread_Pool_Properties
  imports WS_Thread_Pool_Correct
begin

text \<open>
  The properties of \<open>WorkStealingThreadPool\<close> over every reachable state of \<open>ws_step n m\<close>, and two runs in
  which it does not keep what its documentation promises: a task accepted while \<open>shutdown\<close> runs is never
  executed, and a task sits in the entry queue while every worker sleeps.
\<close>

section \<open>Pieces of runs\<close>

lemma ws_k: "ws_work n s t \<Longrightarrow> reach I (ws_step n m) s \<Longrightarrow> reach I (ws_step n m) t"
  and ws_r: "ws_rest n s t \<Longrightarrow> reach I (ws_step n m) s \<Longrightarrow> reach I (ws_step n m) t"
  and ws_e: "ws_submit n m s t \<Longrightarrow> reach I (ws_step n m) s \<Longrightarrow> reach I (ws_step n m) t"
  and ws_s: "ws_shut n m s t \<Longrightarrow> reach I (ws_step n m) s \<Longrightarrow> reach I (ws_step n m) t"
  by (auto simp: ws_step_def intro: reach_step)

text \<open>A lone worker with nothing to do comes to the mutex.\<close>

lemma ws_run_to_lock:
  assumes "reach I (ws_step 1 m) s" "ws_wk s 0 = W_pop" "ws_dq s 0 = []" "ws_in s = []"
  shows "reach I (ws_step 1 m) (wk_at 0 W_lock s)"
proof -
  let ?R = "reach I (ws_step 1 m)"
  have q: "dq_do Pop 0 s = (Taken None, [])" "in_pop s = (None, [])"
    using assms(3,4) by (simp_all add: dq_do_def in_pop_def)
  have "?R (wk_at 0 (W_fill 0 False) s)"
    by (rule ws_k [OF k_pop_empty assms(1)]) (simp_all add: assms q)
  then have "?R (wk_at 0 (if False then W_pop else W_steal 1) (wk_at 0 (W_fill 0 False) s))"
    by (rule ws_k [OF k_fill_empty [where j = 0 and any = False], rotated -1]) (simp_all add: kLocalBatchSize_def in_pop_def assms(4))
  then have "?R (wk_at 0 (W_steal 1) s)" by simp
  then have "?R (wk_at 0 W_lock (wk_at 0 (W_steal 1) s))"
    by (rule ws_k [OF k_steal_none [where j = 1], rotated -1]) simp_all
  then show ?thesis by simp
qed

text \<open>It takes the mutex, finds the pool stopped and everything empty, and returns.\<close>

lemma ws_run_exit:
  assumes "reach I (ws_step 1 m) s" "ws_wk s 0 = W_lock" "ws_mtx s = None" "ws_stop s" "ws_dq s 0 = []" "ws_in s = []"
  shows "reach I (ws_step 1 m) (wk_at 0 W_exit s)"
proof -
  let ?R = "reach I (ws_step 1 m)"
  define s1 where "s1 = wk_at 0 W_stop (s\<lparr>ws_mtx := Some (WS_worker 0)\<rparr>)"
  have "?R s1" unfolding s1_def by (rule ws_r [OF r_lock assms(1)]) (simp_all add: assms)
  define s2 where "s2 = wk_at 0 (if ws_stop s1 then W_exit_scan 0 else W_idle_inc) s1"
  have "?R s2" unfolding s2_def by (rule ws_r [OF r_stop \<open>?R s1\<close>]) (simp_all add: s1_def)
  define s3 where "s3 = wk_at 0 (W_exit_scan (Suc 0)) s2"
  have "?R s3" unfolding s3_def
    by (rule ws_r [OF r_exit_scan \<open>?R s2\<close>]) (simp_all add: s1_def s2_def assms)
  define s4 where "s4 = wk_at 0 (if ws_in s3 = [] then W_unlock_exit else W_idle_inc) s3"
  have "?R s4" unfolding s4_def
    by (rule ws_r [OF r_exit_in \<open>?R s3\<close>]) (simp_all add: s1_def s2_def s3_def)
  define s5 where "s5 = wk_at 0 W_exit (s4\<lparr>ws_mtx := None\<rparr>)"
  have "?R s5" unfolding s5_def
    by (rule ws_r [OF r_unlock_exit \<open>?R s4\<close>]) (simp_all add: s1_def s2_def s3_def s4_def assms)
  moreover have "s5 = wk_at 0 W_exit s"
    by (rule ws_pool.equality) (simp_all add: s1_def s2_def s3_def s4_def s5_def assms fun_eq_iff)
  ultimately show ?thesis by simp
qed

text \<open>A lone worker takes the mutex, finds everything empty, and is about to sleep.\<close>

lemma ws_run_to_block:
  assumes "reach I (ws_step 1 m) s1" "ws_wk s1 0 = W_lock" "ws_mtx s1 = None" "\<not> ws_stop s1" "ws_dq s1 0 = []" "ws_in s1 = []"
  shows "reach I (ws_step 1 m) (wk_at 0 W_block (s1\<lparr>ws_mtx := Some (WS_worker 0), ws_idle := ws_idle s1 + 1\<rparr>))"
proof -
  let ?R = "reach I (ws_step 1 m)"
  have "?R s1" by (rule assms(1))
  note d = assms(2-)
  define s2 where "s2 = wk_at 0 W_stop (s1\<lparr>ws_mtx := Some (WS_worker 0)\<rparr>)"
  have "?R s2" unfolding s2_def by (rule ws_r [OF r_lock \<open>?R s1\<close>]) (simp_all add: d)
  note d = d s2_def
  define s3 where "s3 = wk_at 0 (if ws_stop s2 then W_exit_scan 0 else W_idle_inc) s2"
  have "?R s3" unfolding s3_def by (rule ws_r [OF r_stop \<open>?R s2\<close>]) (simp_all add: d)
  note d = d s3_def
  define s4 where "s4 = wk_at 0 W_pred (s3\<lparr>ws_idle := ws_idle s3 + 1\<rparr>)"
  have "?R s4" unfolding s4_def by (rule ws_r [OF r_idle_inc \<open>?R s3\<close>]) (simp_all add: d)
  note d = d s4_def
  define s5 where "s5 = wk_at 0 (if ws_stop s4 then W_idle_dec else W_scan 0) s4"
  have "?R s5" unfolding s5_def by (rule ws_r [OF r_pred \<open>?R s4\<close>]) (simp_all add: d)
  note d = d s5_def
  define s6 where "s6 = wk_at 0 (W_scan (Suc 0)) s5"
  have "?R s6" unfolding s6_def by (rule ws_r [OF r_scan \<open>?R s5\<close>]) (simp_all add: d)
  note d = d s6_def
  define s7 where "s7 = wk_at 0 (if ws_in s6 = [] then W_block else W_idle_dec) s6"
  have "?R s7" unfolding s7_def by (rule ws_r [OF r_in \<open>?R s6\<close>]) (simp_all add: d)
  moreover have "s7 = wk_at 0 W_block (s1\<lparr>ws_mtx := Some (WS_worker 0), ws_idle := ws_idle s1 + 1\<rparr>)"
    by (rule ws_pool.equality) (simp_all add: d s7_def fun_eq_iff)
  ultimately show ?thesis by simp
qed

text \<open>A client comes to pushing its task; it pushes it, finds no idle worker, and returns.\<close>

lemma ws_run_to_push:
  assumes "reach I (ws_step n m) s" "c < m" "ws_cl s c = C_idle" "\<not> ws_stop s"
  shows "reach I (ws_step n m) (cl_at c (E_push x) (s\<lparr>ws_active := ws_active s + 1\<rparr>))"
proof -
  let ?R = "reach I (ws_step n m)"
  define s1 where "s1 = cl_at c (E_fast x) (s\<lparr>ws_active := ws_active s + 1\<rparr>)"
  have "?R s1" unfolding s1_def by (rule ws_e [OF e_call assms(1)]) (simp_all add: assms)
  have "?R (cl_at c (if ws_stop s1 then E_lock x else E_push x) s1)"
    by (rule ws_e [OF e_fast \<open>?R s1\<close>]) (simp_all add: s1_def assms)
  then show ?thesis by (simp add: s1_def assms)
qed

lemma ws_run_push:
  assumes "reach I (ws_step n m) s" "c < m" "ws_cl s c = E_push x" "ws_in s = []" "0 < ws_cap s"
  shows "reach I (ws_step n m) (cl_at c E_look ((admitted x [x] s)\<lparr>ws_submitted := ws_submitted s + 1\<rparr>))"
proof -
  let ?R = "reach I (ws_step n m)"
  define s1 where "s1 = cl_at c E_count (admitted x [x] s)"
  have "in_push x s = (True, [x])" using assms by (simp add: in_push_def)
  then have "?R s1" unfolding s1_def by (intro ws_e [OF e_push assms(1)]) (simp_all add: assms)
  define s2 where "s2 = cl_at c E_look (s1\<lparr>ws_submitted := ws_submitted s1 + 1\<rparr>)"
  have "?R s2" unfolding s2_def by (rule ws_e [OF e_count \<open>?R s1\<close>]) (simp_all add: s1_def assms)
  moreover have "s2 = cl_at c E_look ((admitted x [x] s)\<lparr>ws_submitted := ws_submitted s + 1\<rparr>)"
    by (rule ws_pool.equality) (simp_all add: s1_def s2_def admitted_def)
  ultimately show ?thesis by simp
qed

lemma ws_run_return:
  assumes "reach I (ws_step n m) s" "c < m" "ws_cl s c = E_end r"
  shows "reach I (ws_step n m) (cl_at c C_idle (s\<lparr>ws_active := ws_active s - 1\<rparr>))"
  by (rule ws_e [OF e_end assms(1)]) (simp_all add: assms)

text \<open>A client calls \<open>shutdown\<close>, while nobody sleeps, and comes to waiting for submissions in flight.\<close>

lemma ws_run_spin:
  assumes "reach I (ws_step n m) s" "c < m" "ws_cl s c = C_idle" "ws_mtx s = None" "\<not> ws_stop s"
    "\<And>i. ws_wk s i \<noteq> W_asleep" "\<And>d x. ws_cl s d \<noteq> E_asleep x"
  shows "reach I (ws_step n m) (cl_at c S_spin (s\<lparr>ws_stop := True\<rparr>))"
proof -
  let ?R = "reach I (ws_step n m)"
  note d = assms(2-)
  have wk: "ws_wake_worker p = p" if "p \<noteq> W_asleep" for p :: "'a ws_wk" using that by (cases p) auto
  have cl: "ws_wake_client p = p" if "\<And>x. p \<noteq> E_asleep x" for p :: "'a ws_cl" using that by (cases p) auto
  define s1 where "s1 = cl_at c S_lock s"
  have "?R s1" unfolding s1_def by (rule ws_s [OF s_call assms(1)]) (simp_all add: d)
  note d = d s1_def
  define s2 where "s2 = cl_at c S_crit (s1\<lparr>ws_mtx := Some (WS_client c)\<rparr>)"
  have "?R s2" unfolding s2_def by (rule ws_s [OF s_lock \<open>?R s1\<close>]) (simp_all add: d)
  note d = d s2_def
  define s3 where "s3 = cl_at c S_unlock (s2\<lparr>ws_stop := True\<rparr>)"
  have "?R s3" unfolding s3_def by (rule ws_s [OF s_stop \<open>?R s2\<close>]) (simp_all add: d)
  note d = d s3_def
  define s4 where "s4 = cl_at c S_notify_workers (s3\<lparr>ws_mtx := None\<rparr>)"
  have "?R s4" unfolding s4_def by (rule ws_s [OF s_unlock \<open>?R s3\<close>]) (simp_all add: d)
  note d = d s4_def
  define s5 where "s5 = cl_at c S_notify_producers (s4\<lparr>ws_wk := (\<lambda>i. ws_wake_worker (ws_wk s4 i))\<rparr>)"
  have "?R s5" unfolding s5_def by (rule ws_s [OF s_notify_workers \<open>?R s4\<close>]) (simp_all add: d)
  note d = d s5_def
  define s6 where "s6 = s5\<lparr>ws_cl := (\<lambda>d. ws_wake_client (ws_cl s5 d))(c := S_spin)\<rparr>"
  have "?R s6" unfolding s6_def by (rule ws_s [OF s_notify_producers \<open>?R s5\<close>]) (simp_all add: d)
  moreover have "s6 = cl_at c S_spin (s\<lparr>ws_stop := True\<rparr>)"
    by (rule ws_pool.equality) (simp_all add: d s6_def wk cl fun_eq_iff)
  ultimately show ?thesis by simp
qed

lemma ws_run_done:
  assumes "reach I (ws_step 1 m) s" "c < m" "ws_cl s c = S_spin" "ws_active s = 0" "ws_wk s 0 = W_exit"
  shows "reach I (ws_step 1 m) (cl_at c S_done s)"
proof -
  let ?R = "reach I (ws_step 1 m)"
  have "?R (cl_at c (S_join 0) s)" by (rule ws_s [OF s_spun assms(1)]) (simp_all add: assms)
  then have "?R (cl_at c (S_join (Suc 0)) (cl_at c (S_join 0) s))"
    by (rule ws_s [OF s_join, rotated -1]) (simp_all add: assms)
  then have "?R (cl_at c (S_join 1) s)" by simp
  then have "?R (cl_at c S_done (cl_at c (S_join 1) s))"
    by (rule ws_s [OF s_done, rotated -1]) (simp_all add: assms)
  then show ?thesis by simp
qed


text \<open>The worker moves the only task of the entry queue to its deque, then takes it from there and
  executes it.\<close>

lemma ws_run_fetch:
  assumes "reach I (ws_step 1 m) s" "ws_wk s 0 = W_pop" "ws_dq s 0 = []" "ws_in s = [x]" "0 < ws_cap s" "ws_waiting s = 0"
  shows "reach I (ws_step 1 m) (wk_at 0 W_pop (s\<lparr>ws_in := [], ws_dq := (ws_dq s)(0 := [x])\<rparr>))"
proof -
  let ?R = "reach I (ws_step 1 m)"
  note d = assms(2-) kLocalBatchSize_def
  define s1 where "s1 = wk_at 0 (W_fill 0 False) s"
  have "?R s1" unfolding s1_def by (rule ws_k [OF k_pop_empty [where xs = "[]"] assms(1)]) (simp_all add: d dq_do_def)
  note d = d s1_def
  define s2 where "s2 = wk_at 0 (W_push x 0) (s1\<lparr>ws_in := []\<rparr>)"
  have "?R s2" unfolding s2_def
    by (rule ws_k [OF k_fill [where any = False] \<open>?R s1\<close>]) (simp_all add: d in_pop_def)
  note d = d s2_def
  define s3 where "s3 = wk_at 0 (W_check 0) (s2\<lparr>ws_dq := (ws_dq s2)(0 := [x])\<rparr>)"
  have "?R s3" unfolding s3_def by (rule ws_k [OF k_push [where x = x] \<open>?R s2\<close>]) (simp_all add: d dq_do_def)
  note d = d s3_def
  define s4 where "s4 = wk_at 0 (if ws_waiting s3 > 0 then W_notify 0 else W_fill (Suc 0) True) s3"
  have "?R s4" unfolding s4_def by (rule ws_k [OF k_look \<open>?R s3\<close>]) (simp_all add: d)
  note d = d s4_def
  define s5 where "s5 = wk_at 0 (if True then W_pop else W_steal 1) s4"
  have "?R s5" unfolding s5_def
    by (rule ws_k [OF k_fill_empty [where j = "Suc 0"] \<open>?R s4\<close>]) (simp_all add: d in_pop_def)
  moreover have "s5 = wk_at 0 W_pop (s\<lparr>ws_in := [], ws_dq := (ws_dq s)(0 := [x])\<rparr>)"
    by (rule ws_pool.equality) (simp_all add: d s5_def fun_eq_iff)
  ultimately show ?thesis by simp
qed

lemma ws_run_count:
  assumes "reach I (ws_step n m) s" "i < n" "ws_wk s i = X_unbusy k" "ws_waiting s = 0"
  shows "reach I (ws_step n m) (wk_at i (after_task k) (s\<lparr>ws_busy := ws_busy s - 1, ws_completed := ws_completed s + 1\<rparr>))"
proof -
  let ?R = "reach I (ws_step n m)"
  note d = assms(2-)
  define s1 where "s1 = wk_at i (X_complete k) (s\<lparr>ws_busy := ws_busy s - 1\<rparr>)"
  have "?R s1" unfolding s1_def by (rule ws_k [OF k_unbusy assms(1)]) (simp_all add: d)
  note d = d s1_def
  define s2 where "s2 = wk_at i (X_check k) (s1\<lparr>ws_completed := ws_completed s1 + 1\<rparr>)"
  have "?R s2" unfolding s2_def by (rule ws_k [OF k_complete \<open>?R s1\<close>]) (simp_all add: d)
  note d = d s2_def
  have "?R (wk_at i (if ws_waiting s2 > 0 then X_notify k else after_task k) s2)"
    by (rule ws_k [OF k_check \<open>?R s2\<close>]) (simp_all add: d)
  then show ?thesis by (simp add: d)
qed

lemma ws_run_task:
  assumes "reach I (ws_step 1 m) s" "ws_wk s 0 = W_pop" "ws_dq s 0 = [x]" "ws_waiting s = 0"
  shows "reach I (ws_step 1 m) (wk_at 0 W_pop (s\<lparr>ws_dq := (ws_dq s)(0 := []), ws_executed := ws_executed s @ [x],
    ws_completed := ws_completed s + 1\<rparr>))"
proof -
  let ?R = "reach I (ws_step 1 m)"
  note d = assms(2-)
  define s1 where "s1 = wk_at 0 (X_busy x None) (s\<lparr>ws_dq := (ws_dq s)(0 := [])\<rparr>)"
  have "?R s1" unfolding s1_def by (rule ws_k [OF k_pop assms(1)]) (simp_all add: d dq_do_def)
  note d = d s1_def
  define s2 where "s2 = wk_at 0 (X_run x None) (s1\<lparr>ws_busy := ws_busy s1 + 1\<rparr>)"
  have "?R s2" unfolding s2_def by (rule ws_k [OF k_busy \<open>?R s1\<close>]) (simp_all add: d)
  note d = d s2_def
  define s3 where "s3 = wk_at 0 (X_unbusy None) (s2\<lparr>ws_executed := ws_executed s2 @ [x]\<rparr>)"
  have "?R s3" unfolding s3_def by (rule ws_k [OF k_run \<open>?R s2\<close>]) (simp_all add: d)
  note d = d s3_def
  have "?R (wk_at 0 (after_task None) (s3\<lparr>ws_busy := ws_busy s3 - 1, ws_completed := ws_completed s3 + 1\<rparr>))"
    by (rule ws_run_count [OF \<open>?R s3\<close>]) (simp_all add: d)
  moreover have "wk_at 0 (after_task None) (s3\<lparr>ws_busy := ws_busy s3 - 1, ws_completed := ws_completed s3 + 1\<rparr>) =
      wk_at 0 W_pop (s\<lparr>ws_dq := (ws_dq s)(0 := []), ws_executed := ws_executed s @ [x], ws_completed := ws_completed s + 1\<rparr>)"
    by (rule ws_pool.equality) (simp_all add: d fun_eq_iff)
  ultimately show ?thesis by simp
qed

definition ws_start :: "ws_policy \<Rightarrow> 't ws_pool" where
  "ws_start p = \<lparr>ws_in = [], ws_cap = 2, ws_dq = (\<lambda>_. []), ws_mtx = None, ws_stop = False, ws_policy = p,
     ws_active = 0, ws_submitted = 0, ws_completed = 0, ws_busy = 0, ws_waiting = 0, ws_idle = 0,
     ws_wk = (\<lambda>_. W_pop), ws_cl = (\<lambda>_. C_idle), ws_accepted = [], ws_executed = [], ws_late = []\<rparr>"

lemma ws_start_reach: "reach (ws_init 2 p) R (ws_start p)"
proof -
  have "nextPowerOfTwoChecked 2 = Inr 2" by code_simp
  then show ?thesis by (intro reach_init) (auto simp: ws_init_def ws_start_def)
qed

text \<open>The client submits a task and returns.\<close>

lemma ws_run_submit:
  assumes "reach I (ws_step n m) s" "c < m" "ws_cl s c = C_idle" "\<not> ws_stop s" "ws_in s = []" "0 < ws_cap s" "ws_idle s = 0"
  shows "reach I (ws_step n m) (cl_at c C_idle ((admitted x [x] s)\<lparr>ws_submitted := ws_submitted s + 1\<rparr>))"
proof -
  let ?R = "reach I (ws_step n m)"
  define s1 where "s1 = cl_at c (E_push x) (s\<lparr>ws_active := ws_active s + 1\<rparr>)"
  have "?R s1" unfolding s1_def by (rule ws_run_to_push) (use assms in simp_all)
  define s2 where "s2 = cl_at c E_look ((admitted x [x] s1)\<lparr>ws_submitted := ws_submitted s1 + 1\<rparr>)"
  have "?R s2" unfolding s2_def by (rule ws_run_push [OF \<open>?R s1\<close> assms(2)]) (use assms in \<open>simp_all add: s1_def\<close>)
  define s3 where "s3 = cl_at c (if ws_idle s2 > 0 then E_notify else E_end WR_accepted) s2"
  have "?R s3" unfolding s3_def
    by (rule ws_e [OF e_look \<open>?R s2\<close>]) (use assms in \<open>simp_all add: s1_def s2_def admitted_def\<close>)
  define s4 where "s4 = cl_at c C_idle (s3\<lparr>ws_active := ws_active s3 - 1\<rparr>)"
  have "?R s4" unfolding s4_def
    by (rule ws_run_return [OF \<open>?R s3\<close> assms(2)]) (use assms in \<open>simp add: s1_def s2_def s3_def admitted_def\<close>)
  moreover have "s4 = cl_at c C_idle ((admitted x [x] s)\<lparr>ws_submitted := ws_submitted s + 1\<rparr>)"
    by (rule ws_pool.equality) (use assms in \<open>simp_all add: s1_def s2_def s3_def s4_def admitted_def\<close>)
  ultimately show ?thesis by simp
qed


text \<open>A task is submitted, executed, and the pool shut down.\<close>

lemma ws_run_all:
  "\<exists>s. reach (ws_init 2 p) (ws_step 1 1) s \<and> ws_cl s 0 = S_done \<and> ws_accepted s = [x :: 't] \<and> ws_executed s = [x] \<and>
    ws_late s = []"
proof -
  let ?R = "reach (ws_init 2 p) (ws_step 1 1) :: 't ws_pool \<Rightarrow> bool"
  define s0 :: "'t ws_pool" where "s0 = ws_start p"
  have "?R s0" by (simp add: s0_def ws_start_reach)
  note d = s0_def ws_start_def
  define s1 where "s1 = cl_at 0 C_idle ((admitted x [x] s0)\<lparr>ws_submitted := ws_submitted s0 + 1\<rparr>)"
  have "?R s1" unfolding s1_def by (rule ws_run_submit [OF \<open>?R s0\<close>]) (simp_all add: d)
  note d = d s1_def admitted_def
  define s2 where "s2 = wk_at 0 W_pop (s1\<lparr>ws_in := [], ws_dq := (ws_dq s1)(0 := [x])\<rparr>)"
  have "?R s2" unfolding s2_def by (rule ws_run_fetch [OF \<open>?R s1\<close>]) (simp_all add: d)
  note d = d s2_def
  define s3 where "s3 = wk_at 0 W_pop (s2\<lparr>ws_dq := (ws_dq s2)(0 := []), ws_executed := ws_executed s2 @ [x],
    ws_completed := ws_completed s2 + 1\<rparr>)"
  have "?R s3" unfolding s3_def by (rule ws_run_task [OF \<open>?R s2\<close>]) (simp_all add: d)
  note d = d s3_def
  define s4 where "s4 = wk_at 0 W_lock s3"
  have "?R s4" unfolding s4_def by (rule ws_run_to_lock [OF \<open>?R s3\<close>]) (simp_all add: d)
  note d = d s4_def
  define s5 where "s5 = cl_at 0 S_spin (s4\<lparr>ws_stop := True\<rparr>)"
  have "?R s5" unfolding s5_def by (rule ws_run_spin [OF \<open>?R s4\<close>]) (simp_all add: d)
  note d = d s5_def
  define s6 where "s6 = wk_at 0 W_exit s5"
  have "?R s6" unfolding s6_def by (rule ws_run_exit [OF \<open>?R s5\<close>]) (simp_all add: d)
  note d = d s6_def
  have "?R (cl_at 0 S_done s6)" by (rule ws_run_done [OF \<open>?R s6\<close>]) (simp_all add: d)
  then show ?thesis by (rule exI [of _ "cl_at 0 S_done s6", OF conjI]) (simp add: d)
qed

section \<open>Properties\<close>

text \<open>C32: whatever the interleaving, every accepted task has been executed exactly once, or is in the entry
  queue, in exactly one deque or in the hand of exactly one worker; no queue exceeds its capacity; at
  most one thread is between taking and releasing \<open>mtx_\<close>; and the counters \<open>submitted_tasks_\<close>,
  \<open>completed_tasks_\<close>, \<open>busy_workers_\<close>, \<open>workers_idle_\<close>, \<open>waiting_producers_\<close> and \<open>active_submits_\<close> count what they
  should (modulo their width).\<close>

theorem ws_pool_exactly_once:
  assumes "reach (ws_init q p) (ws_step n m) s"
  shows "mset (ws_accepted s) = mset (ws_executed s) + mset (ws_in s) + (\<Sum>i<n. mset (ws_dq s i)) +
      (\<Sum>i<n. ws_hand (ws_wk s i)) \<and>
    length (ws_in s) \<le> ws_cap s \<and> (\<forall>i. length (ws_dq s i) \<le> ws_cap s) \<and>
    (\<forall>i j. ws_wk_holds (ws_wk s i) \<longrightarrow> ws_wk_holds (ws_wk s j) \<longrightarrow> i = j) \<and>
    (\<forall>c d. ws_cl_holds (ws_cl s c) \<longrightarrow> ws_cl_holds (ws_cl s d) \<longrightarrow> c = d) \<and>
    (\<forall>i c. ws_wk_holds (ws_wk s i) \<longrightarrow> \<not> ws_cl_holds (ws_cl s c)) \<and>
    ws_submitted s + (\<Sum>c<m. ws_unsubmitted (ws_cl s c)) = of_nat (length (ws_accepted s)) \<and>
    ws_completed s + (\<Sum>i<n. ws_uncounted (ws_wk s i)) = of_nat (length (ws_executed s)) \<and>
    ws_busy s = (\<Sum>i<n. ws_counted_busy (ws_wk s i)) \<and> ws_idle s = (\<Sum>i<n. ws_counted_idle (ws_wk s i)) \<and>
    ws_waiting s = (\<Sum>c<m. ws_counted_waiting (ws_cl s c)) \<and> ws_active s = (\<Sum>c<m. ws_in_flight (ws_cl s c))"
proof -
  have i: "ws_account n s" "ws_clients m s" "ws_lock s"
    using ws.inv_reach [OF assms] by (simp_all add: ws_inv_def)
  have h: "(\<forall>i j. ws_wk_holds (ws_wk s i) \<longrightarrow> ws_wk_holds (ws_wk s j) \<longrightarrow> i = j) \<and>
    (\<forall>c d. ws_cl_holds (ws_cl s c) \<longrightarrow> ws_cl_holds (ws_cl s d) \<longrightarrow> c = d) \<and>
    (\<forall>i c. ws_wk_holds (ws_wk s i) \<longrightarrow> \<not> ws_cl_holds (ws_cl s c))"
    using i(3) by (auto simp: ws_lock_def)
  show ?thesis
    using i(1,2) h unfolding ws_account_def ws_clients_def ws_stored_def by simp
qed

lemma ws_shutdown_done:
  assumes "reach (ws_init q p) (ws_step (ws_num_threads k) m) s" "ws_cl s c = S_done"
  shows "i < ws_num_threads k \<Longrightarrow> ws_dq s i = [] \<and> ws_wk s i = W_exit" "mset (ws_in s) \<subseteq># mset (ws_late s)"
    "mset (ws_accepted s) = mset (ws_executed s) + mset (ws_in s)" "ws_busy s = 0"
    "ws_completed s = of_nat (length (ws_executed s))"
proof -
  note inv = ws.inv_reach [OF assms(1), unfolded ws_inv_def]
  have a: "ws_account (ws_num_threads k) s" and e: "ws_exit (ws_num_threads k) s" using inv by auto
  have x: "\<forall>i<ws_num_threads k. ws_wk s i = W_exit"
    using e assms(2) unfolding ws_exit_def by (metis ws_shut_ok.simps(6))
  have dq: "ws_dq s i = [] \<and> only_late s" if "i < ws_num_threads k" for i
    using e x that unfolding ws_exit_def by (metis ws_exit_ok.simps(3))
  then show "i < ws_num_threads k \<Longrightarrow> ws_dq s i = [] \<and> ws_wk s i = W_exit" using x by blast
  have "0 < ws_num_threads k" by (simp add: ws_num_threads_def)
  then show "mset (ws_in s) \<subseteq># mset (ws_late s)" using dq by (simp add: only_late_def)
  have "(\<Sum>i<ws_num_threads k. mset (ws_dq s i)) = {#}" "(\<Sum>i<ws_num_threads k. ws_hand (ws_wk s i)) = {#}"
    "(\<Sum>i<ws_num_threads k. ws_counted_busy (ws_wk s i)) = 0" "(\<Sum>i<ws_num_threads k. ws_uncounted (ws_wk s i)) = 0"
    using x dq by simp_all
  then show "mset (ws_accepted s) = mset (ws_executed s) + mset (ws_in s)" "ws_busy s = 0"
    "ws_completed s = of_nat (length (ws_executed s))"
    using a unfolding ws_account_def ws_stored_def by simp_all
qed

text \<open>C33: when \<open>shutdown\<close> has run through, every accepted task has been executed, exactly once, except for
  tasks that are left in the entry queue; and those were all accepted after \<open>stop_\<close> was set. (The
  constructor starts at least one worker.)\<close>

theorem ws_pool_shutdown_drains:
  assumes "reach (ws_init q p) (ws_step (ws_num_threads k) m) s" "ws_cl s c = S_done"
  shows "mset (ws_accepted s) = mset (ws_executed s) + mset (ws_in s) \<and> mset (ws_in s) \<subseteq># mset (ws_late s) \<and>
    (\<forall>i<ws_num_threads k. ws_dq s i = [] \<and> ws_wk s i = W_exit) \<and> ws_busy s = 0 \<and>
    ws_completed s = of_nat (length (ws_executed s))"
  using ws_shutdown_done [OF assms] by simp

theorem ws_pool_shutdown_drains_witness:
  "\<exists>s. reach (ws_init 2 WS_BLOCK) (ws_step (ws_num_threads 0) 1) s \<and> ws_cl s 0 = S_done \<and>
    ws_executed s = [42 :: nat] \<and> ws_in s = [] \<and> ws_completed s = 1"
proof -
  obtain s where s: "reach (ws_init 2 WS_BLOCK) (ws_step 1 1) s" "ws_cl s 0 = S_done" "ws_executed s = [42 :: nat]"
      "ws_late s = []"
    using ws_run_all [of WS_BLOCK 42] by blast
  have "ws_num_threads 0 = 1" by (simp add: ws_num_threads_def)
  then show ?thesis using ws_pool_shutdown_drains [of 2 WS_BLOCK 0 1 s 0] s by auto
qed

theorem ws_pool_exactly_once_witness:
  "\<exists>s. reach (ws_init 2 WS_BLOCK) (ws_step 1 1) s \<and> ws_accepted s = [42 :: nat] \<and>
    mset (ws_accepted s) = mset (ws_executed s) + mset (ws_in s) + (\<Sum>i<1. mset (ws_dq s i)) + (\<Sum>i<1. ws_hand (ws_wk s i))"
proof -
  obtain s where s: "reach (ws_init 2 WS_BLOCK) (ws_step 1 1) s" "ws_accepted s = [42 :: nat]"
    using ws_run_all [of WS_BLOCK 42] by blast
  show ?thesis by (intro exI conjI) (rule s(1), rule s(2), rule ws_pool_exactly_once [OF s(1), THEN conjunct1])
qed

text \<open>C34: the exception is real: a client that has read \<open>stop_\<close> as false and puts its task into the entry
  queue after the workers have returned has it accepted and counted; \<open>shutdown\<close> runs through, and the
  task is never executed.\<close>

theorem ws_pool_late_submit:
  "\<exists>s. reach (ws_init 2 WS_BLOCK) (ws_step 1 2) s \<and> ws_cl s 0 = C_idle \<and> ws_cl s 1 = S_done \<and> ws_wk s 0 = W_exit \<and>
    ws_accepted s = [42 :: nat] \<and> ws_submitted s = 1 \<and> ws_in s = [42] \<and> ws_executed s = []"
proof -
  let ?R = "reach (ws_init 2 WS_BLOCK) (ws_step 1 2) :: nat ws_pool \<Rightarrow> bool"
  define s0 :: "nat ws_pool" where "s0 = ws_start WS_BLOCK"
  have "?R s0" by (simp add: s0_def ws_start_reach)
  note d = s0_def ws_start_def
  define s1 where "s1 = cl_at 0 (E_push 42) (s0\<lparr>ws_active := ws_active s0 + 1\<rparr>)"
  have "?R s1" unfolding s1_def by (rule ws_run_to_push [OF \<open>?R s0\<close>]) (simp_all add: d)
  note d = d s1_def
  define s2 where "s2 = cl_at 1 S_spin (s1\<lparr>ws_stop := True\<rparr>)"
  have "?R s2" unfolding s2_def by (rule ws_run_spin [OF \<open>?R s1\<close>]) (simp_all add: d)
  note d = d s2_def
  define s3 where "s3 = wk_at 0 W_lock s2"
  have "?R s3" unfolding s3_def by (rule ws_run_to_lock [OF \<open>?R s2\<close>]) (simp_all add: d)
  note d = d s3_def
  define s4 where "s4 = wk_at 0 W_exit s3"
  have "?R s4" unfolding s4_def by (rule ws_run_exit [OF \<open>?R s3\<close>]) (simp_all add: d)
  note d = d s4_def
  define s5 where "s5 = cl_at 0 E_look ((admitted 42 [42] s4)\<lparr>ws_submitted := ws_submitted s4 + 1\<rparr>)"
  have "?R s5" unfolding s5_def by (rule ws_run_push [OF \<open>?R s4\<close>]) (simp_all add: d)
  note d = d s5_def admitted_def
  define s6 where "s6 = cl_at 0 (if ws_idle s5 > 0 then E_notify else E_end WR_accepted) s5"
  have "?R s6" unfolding s6_def by (rule ws_e [OF e_look \<open>?R s5\<close>]) (simp_all add: d)
  note d = d s6_def
  define s7 where "s7 = cl_at 0 C_idle (s6\<lparr>ws_active := ws_active s6 - 1\<rparr>)"
  have "?R s7" unfolding s7_def by (rule ws_run_return [OF \<open>?R s6\<close>]) (simp_all add: d)
  note d = d s7_def
  have "?R (cl_at 1 S_done s7)" by (rule ws_run_done [OF \<open>?R s7\<close>]) (simp_all add: d)
  then show ?thesis by (rule exI [of _ "cl_at 1 S_done s7", OF conjI]) (simp add: d)
qed

text \<open>C35: a wake-up can be lost: a worker that holds \<open>mtx_\<close> has found everything empty and is about to sleep;
  a client, which does not take \<open>mtx_\<close>, puts its task into the entry queue and notifies nobody; then the
  worker goes to sleep. The pool runs, a task waits, every worker sleeps and no thread is about to wake
  one.\<close>

theorem ws_pool_lost_wakeup:
  "\<exists>s. reach (ws_init 2 WS_BLOCK) (ws_step 1 1) s \<and> ws_in s = [42 :: nat] \<and> ws_executed s = [] \<and>
    ws_wk s 0 = W_asleep \<and> ws_cl s 0 = C_idle \<and> ws_mtx s = None \<and> \<not> ws_stop s"
proof -
  let ?R = "reach (ws_init 2 WS_BLOCK) (ws_step 1 1) :: nat ws_pool \<Rightarrow> bool"
  define s0 :: "nat ws_pool" where "s0 = ws_start WS_BLOCK"
  have "?R s0" by (simp add: s0_def ws_start_reach)
  note d = s0_def ws_start_def
  define s1 where "s1 = wk_at 0 W_lock s0"
  have "?R s1" unfolding s1_def by (rule ws_run_to_lock [OF \<open>?R s0\<close>]) (simp_all add: d)
  note d = d s1_def
  define s7 where "s7 = wk_at 0 W_block (s1\<lparr>ws_mtx := Some (WS_worker 0), ws_idle := ws_idle s1 + 1\<rparr>)"
  have "?R s7" unfolding s7_def by (rule ws_run_to_block [OF \<open>?R s1\<close>]) (simp_all add: d)
  note d = d s7_def
  define s8 where "s8 = cl_at 0 (E_push 42) (s7\<lparr>ws_active := ws_active s7 + 1\<rparr>)"
  have "?R s8" unfolding s8_def by (rule ws_run_to_push [OF \<open>?R s7\<close>]) (simp_all add: d)
  note d = d s8_def
  define s9 where "s9 = cl_at 0 E_look ((admitted 42 [42] s8)\<lparr>ws_submitted := ws_submitted s8 + 1\<rparr>)"
  have "?R s9" unfolding s9_def by (rule ws_run_push [OF \<open>?R s8\<close>]) (simp_all add: d)
  note d = d s9_def admitted_def
  define s10 where "s10 = cl_at 0 (if ws_idle s9 > 0 then E_notify else E_end WR_accepted) s9"
  have "?R s10" unfolding s10_def by (rule ws_e [OF e_look \<open>?R s9\<close>]) (simp_all add: d)
  note d = d s10_def
  define s11 where "s11 = cl_at 0 (E_end WR_accepted) s10"
  have "?R s11" unfolding s11_def by (rule ws_e [OF e_notify_none \<open>?R s10\<close>]) (simp_all add: d)
  note d = d s11_def
  define s12 where "s12 = cl_at 0 C_idle (s11\<lparr>ws_active := ws_active s11 - 1\<rparr>)"
  have "?R s12" unfolding s12_def by (rule ws_run_return [OF \<open>?R s11\<close>]) (simp_all add: d)
  note d = d s12_def
  define s13 where "s13 = wk_at 0 W_asleep (s12\<lparr>ws_mtx := None\<rparr>)"
  have "?R s13" unfolding s13_def by (rule ws_r [OF r_block \<open>?R s12\<close>]) (simp_all add: d)
  then show ?thesis by (rule exI [of _ s13, OF conjI]) (simp add: d s13_def)
qed

end
