(* ===== verification/WS_Thread_Pool_Progress.thy ===== *)
theory WS_Thread_Pool_Progress
  imports WS_Thread_Pool_Properties
begin

text \<open>
  \<open>WorkStealingThreadPool\<close> never gets stuck: from every reachable state its threads can go on, without
  anybody calling again and without spurious wake-ups, until nobody has anything to do; and where
  no thread can move, they are there. What "nothing to do" leaves undone in a running pool is stated with it: there the
  lost wake-ups of \<open>ws_pool_lost_wakeup\<close> end, too.
\<close>

section \<open>Working steps\<close>

definition ws_spurious :: "'t ws_pool \<Rightarrow> 't ws_pool \<Rightarrow> bool" where
  "ws_spurious s s' \<longleftrightarrow> (\<exists>i. ws_wk s i = W_asleep \<and> s' = wk_at i W_relock s) \<or>
     (\<exists>c x. ws_cl s c = E_asleep x \<and> s' = cl_at c (E_relock x) s)"

definition ws_works :: "nat \<Rightarrow> nat \<Rightarrow> 't ws_pool \<Rightarrow> 't ws_pool \<Rightarrow> bool" where
  "ws_works n m s s' \<longleftrightarrow> ws_step n m s s' \<and> s' \<noteq> s \<and> \<not> ws_spurious s s' \<and>
     (\<forall>c. ws_cl s c = C_idle \<longrightarrow> ws_cl s' c = C_idle)"

definition ws_quiet :: "nat \<Rightarrow> nat \<Rightarrow> 't ws_pool \<Rightarrow> bool" where
  "ws_quiet n m s \<longleftrightarrow> ws_mtx s = None \<and>
     (if ws_stop s
      then (\<forall>i<n. ws_wk s i = W_exit \<and> ws_dq s i = []) \<and> (\<forall>c<m. ws_cl s c \<in> {C_idle, S_done}) \<and>
           mset (ws_accepted s) = mset (ws_executed s) + mset (ws_in s) \<and> mset (ws_in s) \<subseteq># mset (ws_late s)
      else (\<forall>i<n. ws_wk s i = W_asleep) \<and> (\<forall>c<m. ws_cl s c = C_idle \<or> (\<exists>x. ws_cl s c = E_asleep x)) \<and>
           mset (ws_accepted s) = mset (ws_executed s) + mset (ws_in s) + (\<Sum>i<n. mset (ws_dq s i)))"

section \<open>Nobody sleeps through \<open>shutdown\<close>\<close>

text \<open>Once \<open>stop_\<close> is set, nobody is on the way to sleep, and who sleeps will be woken; where the threads can be.\<close>

definition ws_awake :: "nat \<Rightarrow> nat \<Rightarrow> 't ws_pool \<Rightarrow> bool" where
  "ws_awake n m s \<longleftrightarrow>
     (\<forall>i. n \<le> i \<longrightarrow> ws_wk s i = W_pop) \<and> (\<forall>c. m \<le> c \<longrightarrow> ws_cl s c = C_idle) \<and>
     (\<forall>i j. ws_wk s i = W_scan j \<or> ws_wk s i = W_exit_scan j \<longrightarrow> j \<le> n) \<and> (\<forall>c k. ws_cl s c = S_join k \<longrightarrow> k \<le> n) \<and>
     (ws_stop s \<longrightarrow> (\<forall>i j. ws_wk s i \<noteq> W_scan j \<and> ws_wk s i \<noteq> W_block) \<and> (\<forall>c x. ws_cl s c \<noteq> E_block x) \<and>
        ((\<exists>i. ws_wk s i = W_asleep) \<longrightarrow> (\<exists>c. ws_cl s c \<in> {S_unlock, S_notify_workers})) \<and>
        ((\<exists>c x. ws_cl s c = E_asleep x) \<longrightarrow> (\<exists>c. ws_cl s c \<in> {S_unlock, S_notify_workers, S_notify_producers})))"

lemma ws_awakeD:
  assumes "ws_awake n m s"
  shows "n \<le> i \<Longrightarrow> ws_wk s i = W_pop" "m \<le> c \<Longrightarrow> ws_cl s c = C_idle"
    "ws_wk s i = W_scan j \<Longrightarrow> j \<le> n" "ws_wk s i = W_exit_scan j \<Longrightarrow> j \<le> n" "ws_cl s c = S_join k \<Longrightarrow> k \<le> n"
    "ws_stop s \<Longrightarrow> ws_wk s i \<noteq> W_scan j" "ws_stop s \<Longrightarrow> ws_wk s i \<noteq> W_block" "ws_stop s \<Longrightarrow> ws_cl s c \<noteq> E_block x"
    "ws_stop s \<Longrightarrow> ws_wk s i = W_asleep \<Longrightarrow> \<exists>d. ws_cl s d \<in> {S_unlock, S_notify_workers}"
    "ws_stop s \<Longrightarrow> ws_cl s c = E_asleep x \<Longrightarrow> \<exists>d. ws_cl s d \<in> {S_unlock, S_notify_workers, S_notify_producers}"
  using assms unfolding ws_awake_def by blast+

text \<open>A worker's step: its point in the program changes as the conditions ask, and it wakes at most a client.\<close>

lemma ws_awake_worker:
  assumes a: "ws_awake n m s" and i: "i < n" "ws_wk s' = (ws_wk s)(i := p)" and f: "ws_stop s' = ws_stop s"
    "\<And>c. ws_cl s' c = ws_cl s c \<or> (\<exists>x. ws_cl s c = E_asleep x \<and> ws_cl s' c = E_relock x)"
    and p: "\<And>j. p = W_scan j \<or> p = W_exit_scan j \<Longrightarrow> j \<le> n"
    "ws_stop s \<Longrightarrow> p \<noteq> W_block \<and> p \<noteq> W_asleep \<and> (\<forall>j. p \<noteq> W_scan j)"
  shows "ws_awake n m s'"
proof -
  have cl: "ws_cl s' c = q \<longleftrightarrow> ws_cl s c = q" if "\<forall>x. q \<noteq> E_asleep x" "\<forall>x. q \<noteq> E_relock x" for c q
    using f(2) [of c] that by auto
  have sleep: "ws_cl s' c = E_asleep x \<Longrightarrow> ws_cl s c = E_asleep x" for c x using f(2) [of c] by auto
  note d = ws_awakeD [OF a]
  have wk: "ws_wk s' u = q \<Longrightarrow> u \<noteq> i \<Longrightarrow> ws_wk s u = q" for u q using i(2) by simp
  have range: "\<forall>u. n \<le> u \<longrightarrow> ws_wk s' u = W_pop" using d(1) i by auto
  have scans: "\<forall>u j. ws_wk s' u = W_scan j \<or> ws_wk s' u = W_exit_scan j \<longrightarrow> j \<le> n"
  proof (intro allI impI)
    fix u j assume h: "ws_wk s' u = W_scan j \<or> ws_wk s' u = W_exit_scan j"
    show "j \<le> n"
    proof (cases "u = i")
      case True
      then show ?thesis using h p(1) i(2) by auto
    next
      case False
      then show ?thesis using h wk d(3,4) by blast
    qed
  qed
  have stop: "(\<forall>u j. ws_wk s' u \<noteq> W_scan j \<and> ws_wk s' u \<noteq> W_block)" if "ws_stop s"
    using d(6,7) [OF that] p(2) [OF that] i(2) by (simp split: if_splits)
  have asleep: "\<exists>c. ws_cl s' c \<in> {S_unlock, S_notify_workers}" if "ws_stop s" "ws_wk s' u = W_asleep" for u
  proof -
    have "u \<noteq> i" using p(2) [OF that(1)] that(2) i(2) by auto
    then show ?thesis using d(9) [OF that(1) wk [OF that(2)]] cl by auto
  qed
  have asleep': "\<exists>c. ws_cl s' c \<in> {S_unlock, S_notify_workers, S_notify_producers}"
    if "ws_stop s" "ws_cl s' c = E_asleep x" for c x
    using d(10) [OF that(1) sleep [OF that(2)]] cl by auto
  show ?thesis
    unfolding ws_awake_def f(1)
    using range scans stop asleep asleep' d(2,5,8) cl by simp blast
qed

lemma ws_work_awake:
  assumes a: "ws_awake n m s" and st: "ws_work n s s'"
  shows "ws_awake n m s'"
proof -
  note f = ws_worker_frame(4,9) [OF disjI1 [OF st]]
  have after: "after_task k = W_scan j \<longleftrightarrow> False" "after_task k = W_exit_scan j \<longleftrightarrow> False" "after_task k \<noteq> W_block"
    "after_task k \<noteq> W_asleep" for k :: "nat option" and j
    by (cases k; simp)+
  have "\<exists>i<n. ws_wk s' = (ws_wk s)(i := ws_wk s' i) \<and> (\<forall>j. ws_wk s' i \<noteq> W_scan j \<and> ws_wk s' i \<noteq> W_exit_scan j) \<and>
      ws_wk s' i \<noteq> W_block \<and> ws_wk s' i \<noteq> W_asleep"
    using st by cases (rule exI, rule conjI, assumption, simp add: after)+
  then show ?thesis using ws_awake_worker [OF a _ _ f] by blast
qed

lemma ws_rest_awake:
  assumes a: "ws_awake n m s" and st: "ws_rest n s s'"
  shows "ws_awake n m s'"
proof -
  note f = ws_worker_frame(4,9) [OF disjI2 [OF st]]
  have "\<exists>i<n. ws_wk s' = (ws_wk s)(i := ws_wk s' i) \<and> (\<forall>j. ws_wk s' i = W_scan j \<or> ws_wk s' i = W_exit_scan j \<longrightarrow> j \<le> n) \<and>
      (ws_stop s \<longrightarrow> ws_wk s' i \<noteq> W_block \<and> ws_wk s' i \<noteq> W_asleep \<and> (\<forall>j. ws_wk s' i \<noteq> W_scan j))"
    using st
  proof cases
    case (r_scan i j)
    then show ?thesis using ws_awakeD(6) [OF a] by (intro exI [of _ i]) auto
  next
    case (r_in i)
    then show ?thesis using ws_awakeD(6) [OF a] by (intro exI [of _ i]) auto
  next
    case (r_block i)
    then show ?thesis using ws_awakeD(7) [OF a] by (intro exI [of _ i]) auto
  qed (rule exI, rule conjI, assumption, simp)+
  then show ?thesis using ws_awake_worker [OF a _ _ f] by blast
qed

text \<open>Steps of clients wake workers at most.\<close>

lemma ws_awake_wakes:
  assumes a: "ws_awake n m s" and w: "ws_wakes (ws_wk s) (ws_wk s')"
  shows "n \<le> i \<Longrightarrow> ws_wk s' i = W_pop" "ws_wk s' i = W_scan j \<longleftrightarrow> ws_wk s i = W_scan j"
    "ws_wk s' i = W_exit_scan j \<longleftrightarrow> ws_wk s i = W_exit_scan j" "ws_wk s' i = W_block \<longleftrightarrow> ws_wk s i = W_block"
    "ws_wk s' i = W_asleep \<Longrightarrow> ws_wk s i = W_asleep"
  using w [unfolded ws_wakes_def, rule_format, of i] ws_awakeD(1) [OF a, of i] by auto

lemma ws_submit_awake:
  assumes a: "ws_awake n m s" and st: "ws_submit n m s s'"
  shows "ws_awake n m s'"
proof -
  note d = ws_awakeD [OF a] and w = ws_awake_wakes [OF a ws_submit_frame(3) [OF st]] and f = ws_submit_frame(1) [OF st]
  have "\<exists>c<m. ws_cl s' = (ws_cl s)(c := ws_cl s' c) \<and> (\<forall>k. ws_cl s' c \<noteq> S_join k) \<and>
      (ws_stop s \<longrightarrow> (\<forall>x. ws_cl s' c \<noteq> E_block x) \<and> (\<forall>x. ws_cl s' c \<noteq> E_asleep x)) \<and>
      ws_cl s c \<notin> {S_unlock, S_notify_workers, S_notify_producers}"
    using st
  proof cases
    case (e_block c x)
    then show ?thesis using d(8) by (intro exI [of _ c]) auto
  qed (rule exI, rule conjI, assumption, simp add: admitted_def)+
  then obtain c where c: "c < m" "ws_cl s' = (ws_cl s)(c := ws_cl s' c)" "\<And>k. ws_cl s' c \<noteq> S_join k"
      "\<And>x. ws_stop s \<Longrightarrow> ws_cl s' c \<noteq> E_block x" "\<And>x. ws_stop s \<Longrightarrow> ws_cl s' c \<noteq> E_asleep x"
      "ws_cl s c \<notin> {S_unlock, S_notify_workers, S_notify_producers}" by blast
  have old: "ws_cl s' u = q \<Longrightarrow> u \<noteq> c \<Longrightarrow> ws_cl s u = q" for u q using c(2) by (metis fun_upd_other)
  have keep: "ws_cl s' u = ws_cl s u" if "ws_cl s u \<in> {S_unlock, S_notify_workers, S_notify_producers}" for u
    using that c(2,6) by (metis fun_upd_other)
  have 1: "\<forall>u. m \<le> u \<longrightarrow> ws_cl s' u = C_idle" using d(2) c(1,2) by (metis fun_upd_other not_less)
  have 2: "\<forall>u k. ws_cl s' u = S_join k \<longrightarrow> k \<le> n" using c(3) old d(5) by metis
  have 3: "\<forall>u x. ws_cl s' u \<noteq> E_block x" if "ws_stop s" using c(4) [OF that] old d(8) [OF that] by metis
  have 4: "\<exists>u. ws_cl s' u \<in> {S_unlock, S_notify_workers}" if "ws_stop s" "ws_wk s' i = W_asleep" for i
    using d(9) [OF that(1) w(5) [OF that(2)]] keep by (metis insertCI insertE singletonD)
  have 5: "\<exists>u. ws_cl s' u \<in> {S_unlock, S_notify_workers, S_notify_producers}" if "ws_stop s" "ws_cl s' u = E_asleep x" for u x
  proof -
    have "u \<noteq> c" using c(5) [OF that(1)] that(2) by blast
    then show ?thesis using d(10) [OF that(1) old [OF that(2)]] keep by metis
  qed
  show ?thesis
    unfolding ws_awake_def f using 1 2 3 4 5 w(1-4) d(3,4,6,7) by simp blast
qed

lemma ws_shut_awake:
  assumes a: "ws_awake n m s" and l: "ws_lock s" and st: "ws_shut n m s s'"
  shows "ws_awake n m s'"
proof -
  note d = ws_awakeD [OF a] and w = ws_awake_wakes [OF a ws_shut_frame(3) [OF st]] and f = ws_shut_frame(1) [OF st]
  have base: ?thesis if s': "ws_cl s' = (ws_cl s)(c := p)" "c < m" and p: "\<And>k. p = S_join k \<Longrightarrow> k \<le> n"
      "\<forall>x. p \<noteq> E_block x \<and> p \<noteq> E_asleep x" and q: "ws_stop s' = ws_stop s"
      "ws_cl s c = S_unlock \<Longrightarrow> p = S_notify_workers"
      "ws_cl s c = S_notify_workers \<Longrightarrow> p = S_notify_producers \<and> (\<forall>i. ws_wk s' i \<noteq> W_asleep)"
      "ws_cl s c \<noteq> S_notify_producers" for c p
  proof -
    have 1: "\<forall>u. m \<le> u \<longrightarrow> ws_cl s' u = C_idle" using d(2) s' by auto
    have 2: "\<forall>u k. ws_cl s' u = S_join k \<longrightarrow> k \<le> n" using s'(1) p(1) d(5) by auto
    have 3: "\<forall>u x. ws_cl s' u \<noteq> E_block x" if "ws_stop s" using s'(1) p(2) d(8) [OF that] by auto
    have 4: "\<exists>u. ws_cl s' u \<in> {S_unlock, S_notify_workers}" if "ws_stop s" "ws_wk s' i = W_asleep" for i
      using d(9) [OF that(1) w(5) [OF that(2)]] q(2,3) that(2) s'(1) by (metis fun_upd_apply insertCI insertE singletonD)
    have 5: "\<exists>u. ws_cl s' u \<in> {S_unlock, S_notify_workers, S_notify_producers}" if "ws_stop s" "ws_cl s' u = E_asleep x" for u x
    proof -
      have "ws_cl s u = E_asleep x" using that(2) s'(1) p(2) by (metis fun_upd_apply)
      then show ?thesis using d(10) [OF that(1)] q(2-4) s'(1) by (metis fun_upd_apply insertCI insertE singletonD)
    qed
    show ?thesis
      unfolding ws_awake_def q(1) using 1 2 3 4 5 w(1-4) d(3,4,6,7) by simp blast
  qed
  from st show ?thesis
  proof cases
    case (s_stop c)
    have m: "ws_mtx s = Some (WS_client c)" using l s_stop(3) unfolding ws_lock_def by (metis ws_cl_holds.simps(10))
    have "\<not> ws_wk_holds (ws_wk s i)" for i using l m by (simp add: ws_lock_def)
    then have 1: "ws_wk s i \<noteq> W_scan j \<and> ws_wk s i \<noteq> W_block" for i j by (metis ws_wk_holds.simps(5,6))
    have "u = c" if "ws_cl_holds (ws_cl s u)" for u using l m that by (simp add: ws_lock_def)
    then have 2: "ws_cl s u \<noteq> E_block x" for u x using s_stop(3) by (metis ws_cl_holds.simps(5) ws_cl.distinct)
    show ?thesis using 1 2 d(1-5) s_stop(2) by (simp add: ws_awake_def s_stop(1)) blast
  next
    case (s_notify_workers c)
    have "ws_wake_worker p \<noteq> W_asleep" for p :: "'a ws_wk" by (cases p) auto
    then show ?thesis by (intro base [of c S_notify_producers]) (use s_notify_workers in auto)
  next
    case (s_notify_producers c)
    have stop: "ws_stop s' = ws_stop s" and wk: "ws_wk s' = ws_wk s"
      and cl: "ws_cl s' = (\<lambda>u. ws_wake_client (ws_cl s u))(c := S_spin)" by (simp_all add: s_notify_producers(1))
    have wake: "ws_wake_client q = p \<longleftrightarrow> q = p" if "\<forall>x. p \<noteq> E_asleep x" "\<forall>x. p \<noteq> E_relock x" for p q :: "'a ws_cl"
      using that by (cases q) auto
    have noone: "ws_wake_client q \<noteq> E_asleep x" for q :: "'a ws_cl" and x by (cases q) auto
    have 1: "\<forall>u. m \<le> u \<longrightarrow> ws_cl s' u = C_idle" using d(2) s_notify_producers(2) cl by auto
    have 2: "\<forall>u k. ws_cl s' u = S_join k \<longrightarrow> k \<le> n" using cl d(5) wake by auto
    have 3: "\<forall>u x. ws_cl s' u \<noteq> E_block x" if "ws_stop s" using cl wake d(8) [OF that] by auto
    have 4: "\<exists>u. ws_cl s' u \<in> {S_unlock, S_notify_workers}" if h: "ws_stop s" "ws_wk s' i = W_asleep" for i
    proof -
      obtain u where u: "ws_cl s u \<in> {S_unlock, S_notify_workers}" using d(9) [OF h(1)] h(2) wk by auto
      then have "u \<noteq> c" using s_notify_producers(3) by auto
      then have "ws_cl s' u = ws_cl s u" using u by (auto simp: cl)
      then show ?thesis using u by metis
    qed
    have 5: "ws_cl s' u \<noteq> E_asleep x" for u x using cl noone by auto
    show ?thesis
      unfolding ws_awake_def stop wk using 1 2 3 4 5 d(1,3,4,6,7) wk by simp blast
  next
    case (s_join c k)
    then show ?thesis using d(5) by (intro base [of c "S_join (Suc k)"]) auto
  next
    case (s_spin c)
    then show ?thesis using a by simp
  next
    case (s_call c)
    then show ?thesis by (intro base [of c S_lock]) auto
  next
    case (s_lock c)
    then show ?thesis by (intro base [of c S_crit]) auto
  next
    case (s_again c)
    then show ?thesis by (intro base [of c S_unlock_return]) auto
  next
    case (s_return c)
    then show ?thesis by (intro base [of c C_idle]) auto
  next
    case (s_unlock c)
    then show ?thesis by (intro base [of c S_notify_workers]) auto
  next
    case (s_spun c)
    then show ?thesis by (intro base [of c "S_join 0"]) auto
  next
    case (s_done c)
    then show ?thesis by (intro base [of c S_done]) auto
  qed
qed

definition ws_alive :: "nat \<Rightarrow> nat \<Rightarrow> 't ws_pool \<Rightarrow> bool" where
  "ws_alive n m s \<longleftrightarrow> ws_inv n m s \<and> ws_awake n m s"

lemma ws_step_alive:
  assumes "ws_alive n m s" "ws_step n m s s'"
  shows "ws_alive n m s'"
proof -
  have i: "ws_inv n m s" "ws_awake n m s" "ws_lock s" using assms(1) by (simp_all add: ws_alive_def ws_inv_def)
  have "ws_awake n m s'"
    using assms(2) ws_work_awake [OF i(2)] ws_rest_awake [OF i(2)] ws_submit_awake [OF i(2)] ws_shut_awake [OF i(2,3)]
    unfolding ws_step_def by blast
  then show ?thesis using ws_step_inv [OF i(1) assms(2)] by (simp add: ws_alive_def)
qed

lemma ws_init_alive: "ws_init q p s \<Longrightarrow> ws_alive n m s"
  using ws_init_inv [of q p s n m] by (auto simp: ws_alive_def ws_init_def ws_awake_def)

interpretation alive: inductive_invariant "ws_init q p" "ws_step n m" "ws_alive n m" for q p n m
  by unfold_locales (auto intro: ws_init_alive ws_step_alive)

section \<open>Blocked threads\<close>

text \<open>The points at which a thread may have to wait for another.\<close>

fun wk_blocked :: "'t ws_pool \<Rightarrow> 't ws_wk \<Rightarrow> bool" where
  "wk_blocked s W_lock = (ws_mtx s \<noteq> None)"
| "wk_blocked s W_relock = (ws_mtx s \<noteq> None)"
| "wk_blocked s W_asleep = True"
| "wk_blocked s W_exit = True"
| "wk_blocked s _ = False"

fun cl_blocked :: "nat \<Rightarrow> 't ws_pool \<Rightarrow> 't ws_cl \<Rightarrow> bool" where
  "cl_blocked n s C_idle = True"
| "cl_blocked n s (E_lock x) = (ws_mtx s \<noteq> None)"
| "cl_blocked n s (E_relock x) = (ws_mtx s \<noteq> None)"
| "cl_blocked n s (E_asleep x) = True"
| "cl_blocked n s S_lock = (ws_mtx s \<noteq> None)"
| "cl_blocked n s S_spin = (ws_active s \<noteq> 0)"
| "cl_blocked n s (S_join k) = (k < n \<and> ws_wk s k \<noteq> W_exit)"
| "cl_blocked n s S_done = True"
| "cl_blocked n s _ = False"

lemma holder_free: "ws_wk_holds p \<Longrightarrow> \<not> wk_blocked s p" "ws_cl_holds q \<Longrightarrow> \<not> cl_blocked n s q"
  by (cases p; simp) (cases q; simp)

text \<open>If everybody is blocked, nobody has anything to do.\<close>

lemma blocked_quiet:
  assumes a: "ws_alive n m s" and n: "0 < n" and w: "\<forall>i<n. wk_blocked s (ws_wk s i)" and c: "\<forall>c<m. cl_blocked n s (ws_cl s c)"
  shows "ws_quiet n m s"
proof -
  have i: "ws_account n s" "ws_clients m s" "ws_lock s" "ws_exit n s" and aw: "ws_awake n m s"
    using a by (simp_all add: ws_alive_def ws_inv_def)
  note d = ws_awakeD [OF aw]
  have mtx: "ws_mtx s = None"
  proof (cases "ws_mtx s")
    case (Some t)
    show ?thesis
    proof (cases t)
      case (WS_worker j)
      then have h: "ws_wk_holds (ws_wk s j)" using i(3) Some by (simp add: ws_lock_def)
      moreover have "j < n" using h d(1) [of j] by (metis not_less ws_wk_holds.simps(10))
      ultimately show ?thesis using w holder_free(1) by blast
    next
      case (WS_client e)
      then have h: "ws_cl_holds (ws_cl s e)" using i(3) Some by (simp add: ws_lock_def)
      moreover have "e < m" using h d(2) [of e] by (metis not_less ws_cl_holds.simps(13))
      ultimately show ?thesis using c holder_free(2) by blast
    qed
  qed simp
  have wk: "ws_wk s j = W_asleep \<or> ws_wk s j = W_exit" if "j < n" for j
    using w that mtx by (cases "ws_wk s j") auto
  have cl: "ws_cl s e = C_idle \<or> (\<exists>x. ws_cl s e = E_asleep x) \<or> ws_cl s e = S_spin \<or> (\<exists>k. ws_cl s e = S_join k) \<or> ws_cl s e = S_done"
    if "e < m" for e
    using c that mtx by (cases "ws_cl s e") auto
  have calm: "ws_cl s e \<notin> {S_unlock, S_notify_workers, S_notify_producers}" for e
    using cl [of e] d(2) [of e] by (cases "e < m") auto
  have hand: "(\<Sum>j<n. ws_hand (ws_wk s j)) = {#}" using wk by (intro sum.neutral) fastforce
  have acc: "mset (ws_accepted s) = mset (ws_executed s) + mset (ws_in s) + (\<Sum>j<n. mset (ws_dq s j))"
    using i(1) hand unfolding ws_account_def ws_stored_def by simp
  have shut: "ws_shut_ok n s (ws_cl s e)" for e using i(4) by (simp add: ws_exit_def)
  have exit_ok: "only_late s \<and> ws_dq s j = []" if "j < n" "ws_wk s j = W_exit" for j
    using i(4) that unfolding ws_exit_def by (metis ws_exit_ok.simps(3))
  show ?thesis
  proof (cases "ws_stop s")
    case True
    have ex: "ws_wk s j = W_exit" if "j < n" for j using wk [OF that] d(9) [OF True] calm by blast
    have awake: "ws_cl s e \<noteq> E_asleep x" for e x using d(10) [OF True, of e x] calm by blast
    have "ws_in_flight (ws_cl s e) = 0" if "e < m" for e using cl [OF that] awake by auto
    then have "ws_active s = 0" using i(2) by (simp add: ws_clients_def)
    then have "ws_cl s e \<noteq> S_spin" if "e < m" for e using c that by (metis cl_blocked.simps(6))
    moreover have "ws_cl s e \<noteq> S_join k" if "e < m" for e k using c that ex by (metis cl_blocked.simps(7))
    ultimately have "\<forall>e<m. ws_cl s e \<in> {C_idle, S_done}" using cl awake by blast
    moreover have dq: "ws_dq s j = []" if "j < n" for j using exit_ok [OF that ex [OF that]] by blast
    moreover have "mset (ws_in s) \<subseteq># mset (ws_late s)" using exit_ok [OF n ex [OF n]] by (simp add: only_late_def)
    ultimately show ?thesis using True mtx ex acc by (simp add: ws_quiet_def)
  next
    case False
    have "ws_wk s j = W_asleep" if "j < n" for j using wk [OF that] exit_ok [OF that] False by (auto simp: only_late_def)
    moreover have "ws_cl s e = C_idle \<or> (\<exists>x. ws_cl s e = E_asleep x)" if "e < m" for e
      using cl [OF that] shut [of e] False by auto
    ultimately show ?thesis using False mtx acc by (simp add: ws_quiet_def)
  qed
qed

section \<open>A step that brings the end closer\<close>

text \<open>What is left to do: a task is worth more the further it is from having been executed, and waking somebody costs one.\<close>

fun wk_units :: "'t ws_wk \<Rightarrow> nat" where
  "wk_units (X_busy x k) = 2"
| "wk_units (X_run x k) = 2"
| "wk_units (X_unbusy k) = 1"
| "wk_units (X_complete k) = 1"
| "wk_units (X_check k) = 1"
| "wk_units (X_notify k) = 1"
| "wk_units (W_push x j) = 5"
| "wk_units (W_check j) = 1"
| "wk_units (W_notify j) = 1"
| "wk_units _ = 0"

fun cl_units :: "'t ws_cl \<Rightarrow> nat" where
  "cl_units C_idle = 0"
| "cl_units E_count = 1"
| "cl_units E_look = 1"
| "cl_units E_notify = 1"
| "cl_units (E_end r) = 0"
| "cl_units E_slow_count = 1"
| "cl_units (E_unlock r) = (if r = WR_accepted then 1 else 0)"
| "cl_units S_lock = 3"
| "cl_units S_crit = 3"
| "cl_units S_unlock_return = 0"
| "cl_units S_unlock = 2"
| "cl_units S_notify_workers = 2"
| "cl_units S_notify_producers = 1"
| "cl_units S_spin = 0"
| "cl_units (S_join k) = 0"
| "cl_units S_done = 0"
| "cl_units _ = 8"

definition ws_units :: "nat \<Rightarrow> nat \<Rightarrow> 't ws_pool \<Rightarrow> nat" where
  "ws_units n m s = 6 * length (ws_in s) + 3 * (\<Sum>j<n. length (ws_dq s j)) +
     (\<Sum>i<n. wk_units (ws_wk s i)) + (\<Sum>c<m. cl_units (ws_cl s c))"

text \<open>Between two such changes every thread goes around its loop at most twice: \<open>ws_finds\<close> says that the rest
  of a round of \<open>stealOne\<close> will find something.\<close>

definition ws_work_left :: "nat \<Rightarrow> 't ws_pool \<Rightarrow> bool" where
  "ws_work_left n s \<longleftrightarrow> ws_in s \<noteq> [] \<or> (\<exists>j<n. ws_dq s j \<noteq> [])"

definition ws_finds :: "nat \<Rightarrow> 't ws_pool \<Rightarrow> nat \<Rightarrow> nat \<Rightarrow> bool" where
  "ws_finds n s i j \<longleftrightarrow> (\<exists>k. j \<le> k \<and> k < n \<and> (i + k) mod n \<noteq> i \<and> ws_dq s ((i + k) mod n) \<noteq> [])"

definition pop_rank :: "nat \<Rightarrow> 't ws_pool \<Rightarrow> nat" where
  "pop_rank n s = (if ws_work_left n s then n + 5 else 4 * n + 17)"

definition pred_rank :: "nat \<Rightarrow> 't ws_pool \<Rightarrow> nat" where
  "pred_rank n s = (if ws_stop s \<and> \<not> ws_work_left n s then 4 * n + 21 else 2 * n + 9)"

fun wk_rank :: "nat \<Rightarrow> 't ws_pool \<Rightarrow> nat \<Rightarrow> 't ws_wk \<Rightarrow> nat" where
  "wk_rank n s i (W_steal j) = (if ws_finds n s i j then 2 + (n - j) else 3 * n + 14 + (n - j))"
| "wk_rank n s i (W_fill j any) =
     (if any then 4 * n + 20 else if ws_finds n s i 1 \<or> ws_in s \<noteq> [] \<and> j = 0 then n + 4 else 4 * n + 15)"
| "wk_rank n s i W_pop = pop_rank n s"
| "wk_rank n s i W_unlock = pop_rank n s + 1"
| "wk_rank n s i W_idle_dec = pop_rank n s + 2"
| "wk_rank n s i (W_scan j) = n + 8 + (n - j)"
| "wk_rank n s i W_pred = pred_rank n s"
| "wk_rank n s i W_idle_inc = pred_rank n s + 1"
| "wk_rank n s i W_relock = pred_rank n s + 1"
| "wk_rank n s i (W_exit_scan j) = 2 * n + 11 + (n - j)"
| "wk_rank n s i W_stop = 3 * n + 12"
| "wk_rank n s i W_lock = 3 * n + 13"
| "wk_rank n s i W_block = 1"
| "wk_rank n s i W_unlock_exit = 1"
| "wk_rank n s i (X_busy x k) = 1"
| "wk_rank n s i (X_unbusy k) = 3"
| "wk_rank n s i (X_complete k) = 2"
| "wk_rank n s i (X_check k) = 1"
| "wk_rank n s i (W_check j) = 1"
| "wk_rank n s i _ = 0"

definition ws_full :: "'t ws_pool \<Rightarrow> bool" where
  "ws_full s \<longleftrightarrow> ws_cap s \<le> length (ws_in s)"

fun cl_rank :: "nat \<Rightarrow> 't ws_pool \<Rightarrow> 't ws_cl \<Rightarrow> nat" where
  "cl_rank n s (E_fast x) = 13"
| "cl_rank n s (E_push x) = 12"
| "cl_rank n s (E_lock x) = 11"
| "cl_rank n s (E_crit x) = 10"
| "cl_rank n s (E_slow x) = (if ws_stop s then 9 else 4)"
| "cl_rank n s (E_wait_inc x) = (if ws_full s \<and> \<not> ws_stop s then 3 else 8)"
| "cl_rank n s (E_relock x) = (if ws_full s \<and> \<not> ws_stop s then 3 else 8)"
| "cl_rank n s (E_pred x) = (if ws_full s \<and> \<not> ws_stop s then 2 else 7)"
| "cl_rank n s (E_wait_dec x) = 6"
| "cl_rank n s (E_recheck x) = 5"
| "cl_rank n s (E_block x) = 1"
| "cl_rank n s E_count = 2"
| "cl_rank n s E_look = 1"
| "cl_rank n s E_slow_count = 4"
| "cl_rank n s (E_unlock r) = 3"
| "cl_rank n s (E_end r) = 1"
| "cl_rank n s (T_first x) = 2"
| "cl_rank n s (T_second x) = 1"
| "cl_rank n s S_lock = 1"
| "cl_rank n s S_unlock = 1"
| "cl_rank n s S_unlock_return = 1"
| "cl_rank n s S_spin = n + 2"
| "cl_rank n s (S_join k) = Suc n - k"
| "cl_rank n s _ = 0"

definition ws_ranks :: "nat \<Rightarrow> nat \<Rightarrow> 't ws_pool \<Rightarrow> nat" where
  "ws_ranks n m s = (\<Sum>i<n. wk_rank n s i (ws_wk s i)) + (\<Sum>c<m. cl_rank n s (ws_cl s c))"

definition ws_closer :: "nat \<Rightarrow> nat \<Rightarrow> ('t ws_pool \<times> 't ws_pool) set" where
  "ws_closer n m = measures [ws_units n m, ws_ranks n m]"

lemma ws_closer_iff:
  "(s', s) \<in> ws_closer n m \<longleftrightarrow>
     ws_units n m s' < ws_units n m s \<or> ws_units n m s' = ws_units n m s \<and> ws_ranks n m s' < ws_ranks n m s"
  by (simp add: ws_closer_def)

text \<open>The ranks depend on the queues and on \<open>stop_\<close> only.\<close>

lemma rank_frame:
  assumes "ws_in s' = ws_in s" "ws_dq s' = ws_dq s" "ws_stop s' = ws_stop s" "ws_cap s' = ws_cap s"
  shows "wk_rank n s' i p = wk_rank n s i p" "cl_rank n s' q = cl_rank n s q"
proof -
  have "ws_finds n s' i j = ws_finds n s i j" "ws_work_left n s' = ws_work_left n s" for i j
    using assms by (simp_all add: ws_finds_def ws_work_left_def)
  then show "wk_rank n s' i p = wk_rank n s i p"
    using assms by (cases p) (auto simp: pop_rank_def pred_rank_def)
  show "cl_rank n s' q = cl_rank n s q"
    using assms by (cases q) (auto simp: ws_full_def)
qed

text \<open>A worker's step is closer to the end if it moves a task on, or else if its rank goes down.\<close>

lemma worker_closer_at:
  assumes st: "ws_work n s s' \<or> ws_rest n s s'" and i: "i < n" "ws_wk s' = (ws_wk s)(i := p)" "p \<noteq> ws_wk s i"
    and sp: "ws_wk s i \<noteq> W_asleep"
    and dec: "6 * length (ws_in s') + 3 * (\<Sum>j<n. length (ws_dq s' j)) + wk_units p <
        6 * length (ws_in s) + 3 * (\<Sum>j<n. length (ws_dq s j)) + wk_units (ws_wk s i) \<or>
      ws_in s' = ws_in s \<and> ws_dq s' = ws_dq s \<and> ws_cl s' = ws_cl s \<and> wk_units p = wk_units (ws_wk s i) \<and>
        wk_rank n s i p < wk_rank n s i (ws_wk s i)"
  shows "ws_works n m s s' \<and> (s', s) \<in> ws_closer n m"
proof
  note f = ws_worker_frame(3,4,9) [OF st]
  have ch: "ws_wk s' i \<noteq> ws_wk s i" using i(2,3) by simp
  have "\<not> ws_spurious s s'"
  proof
    assume "ws_spurious s s'"
    then show False unfolding ws_spurious_def
    proof (elim disjE exE conjE)
      fix u assume "ws_wk s u = W_asleep" "s' = wk_at u W_relock s"
      then show False using ch sp by (cases "u = i") auto
    next
      fix c x assume "s' = cl_at c (E_relock x) s"
      then show False using ch by simp
    qed
  qed
  moreover have "s' \<noteq> s" using ch by auto
  moreover have "ws_cl s' c = C_idle" if "ws_cl s c = C_idle" for c using f(3) [of c] that by auto
  ultimately show "ws_works n m s s'" using st by (auto simp: ws_works_def ws_step_def)
  have units: "(\<Sum>u<n. wk_units (ws_wk s' u)) + wk_units (ws_wk s i) = (\<Sum>u<n. wk_units (ws_wk s u)) + wk_units p"
    using sum_thread_update [OF i(1), of wk_units "ws_wk s" p] i(2) by simp
  have "cl_units (ws_cl s' c) = cl_units (ws_cl s c)" for c using f(3) [of c] by auto
  then have cls: "(\<Sum>c<m. cl_units (ws_cl s' c)) = (\<Sum>c<m. cl_units (ws_cl s c))" by simp
  from dec show "(s', s) \<in> ws_closer n m"
  proof (elim disjE conjE)
    assume "6 * length (ws_in s') + 3 * (\<Sum>j<n. length (ws_dq s' j)) + wk_units p <
        6 * length (ws_in s) + 3 * (\<Sum>j<n. length (ws_dq s j)) + wk_units (ws_wk s i)"
    then show ?thesis using units cls by (simp add: ws_closer_iff ws_units_def)
  next
    assume e: "ws_in s' = ws_in s" "ws_dq s' = ws_dq s" "ws_cl s' = ws_cl s" "wk_units p = wk_units (ws_wk s i)"
      "wk_rank n s i p < wk_rank n s i (ws_wk s i)"
    note r = rank_frame [OF e(1,2) f(2,1)]
    define g where "g = (\<lambda>u :: nat \<times> 'a ws_wk. wk_rank n s (fst u) (snd u))"
    define pc where "pc = (\<lambda>u. (u, ws_wk s u))"
    have "(\<Sum>u<n. wk_rank n s u (ws_wk s' u)) = (\<Sum>u<n. g ((pc(i := (i, p))) u))"
      unfolding g_def pc_def i(2) by (rule sum.cong) auto
    moreover have "(\<Sum>u<n. wk_rank n s u (ws_wk s u)) = (\<Sum>u<n. g (pc u))" by (simp add: g_def pc_def)
    moreover have "g (pc i) = wk_rank n s i (ws_wk s i)" "g (i, p) = wk_rank n s i p" by (simp_all add: g_def pc_def)
    ultimately have "(\<Sum>u<n. wk_rank n s u (ws_wk s' u)) < (\<Sum>u<n. wk_rank n s u (ws_wk s u))"
      using sum_thread_update [OF i(1), of g pc "(i, p)"] e(5) by simp
    then show ?thesis using e units by (simp add: ws_closer_iff ws_units_def ws_ranks_def r)
  qed
qed

lemma client_closer_at:
  assumes st: "ws_submit n m s s' \<or> ws_shut n m s s'" and c: "c < m" "ws_cl s' = (ws_cl s)(c := q)" "q \<noteq> ws_cl s c"
    and sp: "\<forall>x. ws_cl s c \<noteq> E_asleep x" "ws_cl s c \<noteq> C_idle"
    and dec: "6 * length (ws_in s') + cl_units q < 6 * length (ws_in s) + cl_units (ws_cl s c) \<or>
      ws_in s' = ws_in s \<and> ws_stop s' = ws_stop s \<and> ws_wk s' = ws_wk s \<and> cl_units q = cl_units (ws_cl s c) \<and>
        cl_rank n s q < cl_rank n s (ws_cl s c)"
  shows "ws_works n m s s' \<and> (s', s) \<in> ws_closer n m"
proof
  have f: "ws_wakes (ws_wk s) (ws_wk s')" "ws_cap s' = ws_cap s" "ws_dq s' = ws_dq s"
    using st ws_submit_frame [of n m s s'] ws_shut_frame [of n m s s'] by auto
  have ch: "ws_cl s' c \<noteq> ws_cl s c" using c(2,3) by simp
  have "\<not> ws_spurious s s'"
  proof
    assume "ws_spurious s s'"
    then show False unfolding ws_spurious_def
    proof (elim disjE exE conjE)
      fix u assume "s' = wk_at u W_relock s"
      then show False using ch by simp
    next
      fix d x assume "ws_cl s d = E_asleep x" "s' = cl_at d (E_relock x) s"
      then show False using ch sp by (cases "d = c") auto
    qed
  qed
  moreover have "s' \<noteq> s" using ch by auto
  moreover have "ws_cl s' d = C_idle" if "ws_cl s d = C_idle" for d using c(2) sp(2) that by auto
  ultimately show "ws_works n m s s'" using st by (auto simp: ws_works_def ws_step_def)
  have units: "(\<Sum>u<m. cl_units (ws_cl s' u)) + cl_units (ws_cl s c) = (\<Sum>u<m. cl_units (ws_cl s u)) + cl_units q"
    using sum_thread_update [OF c(1), of cl_units "ws_cl s" q] c(2) by simp
  have "wk_units (ws_wk s' i) = wk_units (ws_wk s i)" for i
    using f(1) [unfolded ws_wakes_def, rule_format, of i] by auto
  then have wks: "(\<Sum>i<n. wk_units (ws_wk s' i)) = (\<Sum>i<n. wk_units (ws_wk s i))" by simp
  from dec show "(s', s) \<in> ws_closer n m"
  proof (elim disjE conjE)
    assume "6 * length (ws_in s') + cl_units q < 6 * length (ws_in s) + cl_units (ws_cl s c)"
    then show ?thesis using units wks f(3) by (simp add: ws_closer_iff ws_units_def)
  next
    assume e: "ws_in s' = ws_in s" "ws_stop s' = ws_stop s" "ws_wk s' = ws_wk s" "cl_units q = cl_units (ws_cl s c)"
      "cl_rank n s q < cl_rank n s (ws_cl s c)"
    note r = rank_frame [OF e(1) f(3) e(2) f(2)]
    have "(\<Sum>u<m. cl_rank n s (ws_cl s' u)) < (\<Sum>u<m. cl_rank n s (ws_cl s u))"
      using sum_thread_update [OF c(1), of "cl_rank n s" "ws_cl s" q] c(2) e(5) by simp
    then show ?thesis using e f(3) units by (simp add: ws_closer_iff ws_units_def ws_ranks_def r)
  qed
qed

lemmas worker_closer = worker_closer_at [where s' = s' and i = i and p = "ws_wk s' i"] for s' i
lemmas client_closer = client_closer_at [where s' = s' and c = c and q = "ws_cl s' c"] for s' c

lemma dq_do_cases:
  "ws_dq s t = [] \<Longrightarrow> dq_do Pop t s = (Taken None, [])" "ws_dq s t = [] \<Longrightarrow> dq_do Steal t s = (Taken None, [])"
  "ws_dq s t \<noteq> [] \<Longrightarrow> dq_do Pop t s = (Taken (Some (last (ws_dq s t))), butlast (ws_dq s t))"
  "ws_dq s t \<noteq> [] \<Longrightarrow> dq_do Steal t s = (Taken (Some (hd (ws_dq s t))), tl (ws_dq s t))"
  "length (ws_dq s t) < ws_cap s \<Longrightarrow> dq_do (Push x) t s = (Pushed True, ws_dq s t @ [x])"
  "\<not> length (ws_dq s t) < ws_cap s \<Longrightarrow> \<exists>xs. dq_do (Push x) t s = (Pushed False, xs)"
  by (auto simp: dq_do_def neq_Nil_conv)

lemma in_cases:
  "ws_in s = [] \<Longrightarrow> in_pop s = (None, [])" "ws_in s = x # xs \<Longrightarrow> in_pop s = (Some x, xs)"
  "\<not> ws_full s \<Longrightarrow> in_push x s = (True, ws_in s @ [x])" "ws_full s \<Longrightarrow> in_push x s = (False, ws_in s)"
  by (auto simp: in_pop_def in_push_def ws_full_def)

lemma dq_sum_update:
  fixes s :: "'t ws_pool"
  assumes "t < n"
  shows "(\<Sum>j<n. length (((ws_dq s)(t := xs)) j)) + length (ws_dq s t) = (\<Sum>j<n. length (ws_dq s j)) + length xs"
  using sum_thread_update [OF assms, of length "ws_dq s" xs] .

text \<open>Another worker's deque is met in the round that starts at one.\<close>

lemma finds_other:
  assumes "i < n" "j < n" "j \<noteq> i" "ws_dq s j \<noteq> []"
  shows "ws_finds n s i 1"
proof -
  define k where "k = (if i < j then j - i else n + j - i)"
  have k: "1 \<le> k" "k < n" using assms(1-3) by (auto simp: k_def)
  have "i + k = (if i < j then j else j + n)" using assms(1-3) by (auto simp: k_def)
  then have "(i + k) mod n = j" using assms(2) by (auto split: if_splits)
  then show ?thesis using k assms(3,4) unfolding ws_finds_def by metis
qed

lemma finds_Suc: "ws_finds n s i j \<Longrightarrow> (i + j) mod n = i \<or> ws_dq s ((i + j) mod n) = [] \<Longrightarrow> j < n \<and> ws_finds n s i (Suc j)"
  unfolding ws_finds_def by (metis Suc_leI le_antisym le_eq_less_or_eq le_trans less_imp_le_nat not_less)

lemma finds_mono: "ws_finds n s i (Suc j) \<Longrightarrow> ws_finds n s i j"
  unfolding ws_finds_def using Suc_leD by blast

lemma finds_less: "ws_finds n s i j \<Longrightarrow> j < n"
  unfolding ws_finds_def by auto

text \<open>The loop: pop, fill, steal.\<close>

lemma loop_closer:
  fixes s :: "'t ws_pool"
  assumes i: "i < n" and p: "ws_wk s i = W_pop \<or> ws_wk s i = W_fill j any \<or> ws_wk s i = W_steal j"
  shows "\<exists>s'. ws_works n m s s' \<and> (s', s) \<in> ws_closer n m"
  using p
proof (elim disjE)
  assume p: "ws_wk s i = W_pop"
  show ?thesis
  proof (cases "ws_dq s i = []")
    case True
    have r: "wk_rank n s i (W_fill 0 False :: 't ws_wk) < pop_rank n s"
    proof (cases "ws_work_left n s")
      case work: True
      then have "ws_in s \<noteq> [] \<or> ws_finds n s i 1"
        using finds_other [OF i] True unfolding ws_work_left_def by metis
      then show ?thesis using work by (auto simp: pop_rank_def)
    qed (simp add: pop_rank_def)
    show ?thesis
      by (intro exI, rule worker_closer [OF disjI1 [OF k_pop_empty [OF i p dq_do_cases(1) [OF True]]] i])
        (use p r in \<open>simp_all del: wk_rank.simps(2)\<close>)
  next
    case False
    show ?thesis
      by (intro exI, rule worker_closer [OF disjI1 [OF k_pop [OF i p dq_do_cases(3) [OF False]]] i])
        (use p False dq_sum_update [OF i, of s "butlast (ws_dq s i)"] in \<open>auto simp: neq_Nil_conv\<close>)
  qed
next
  assume p: "ws_wk s i = W_fill j any"
  define q :: "'t ws_wk" where "q = (if any then W_pop else W_steal 1)"
  have r: "wk_rank n s i q < wk_rank n s i (W_fill j any :: 't ws_wk)" if "any \<or> \<not> (ws_in s \<noteq> [] \<and> j = 0)"
    using i that finds_less [of n s i 1] by (auto simp: q_def pop_rank_def)
  show ?thesis
  proof (cases "j < kLocalBatchSize")
    case True
    show ?thesis
    proof (cases "ws_in s")
      case Nil
      show ?thesis
        by (intro exI, rule worker_closer [OF disjI1 [OF k_fill_empty [OF i p True in_cases(1) [OF Nil]]] i])
          (use p r Nil in \<open>simp_all add: q_def del: wk_rank.simps(1,2)\<close>)
    next
      case (Cons x xs)
      show ?thesis
        by (intro exI, rule worker_closer [OF disjI1 [OF k_fill [OF i p True in_cases(2) [OF Cons]]] i])
          (use p Cons in simp_all)
    qed
  next
    case False
    then have j: "j \<noteq> 0" by (auto simp: kLocalBatchSize_def)
    show ?thesis
      by (intro exI, rule worker_closer [OF disjI1 [OF k_filled [OF i p False]] i])
        (use p r j in \<open>simp_all add: q_def del: wk_rank.simps(1,2)\<close>)
  qed
next
  assume p: "ws_wk s i = W_steal j"
  let ?t = "(i + j) mod n"
  show ?thesis
  proof (cases "j < n")
    case True
    have t: "?t < n" using i by simp
    show ?thesis
    proof (cases "?t = i \<or> ws_dq s ?t = []")
      case none: True
      have q: "?t = i \<or> dq_do Steal ?t s = (Taken None, [])" using none dq_do_cases(2) by metis
      have "ws_finds n s i j \<longleftrightarrow> ws_finds n s i (Suc j)" using finds_Suc [of n s i j] none finds_mono by metis
      then have r: "wk_rank n s i (W_steal (Suc j) :: 't ws_wk) < wk_rank n s i (W_steal j :: 't ws_wk)" using True by auto
      show ?thesis
        by (intro exI, rule worker_closer [OF disjI1 [OF k_steal_empty [OF i p True refl q]] i])
          (use p r in simp_all)
    next
      case False
      then have ne: "?t \<noteq> i" "ws_dq s ?t \<noteq> []" by auto
      show ?thesis
        by (intro exI, rule worker_closer [OF disjI1 [OF k_steal [OF i p True refl ne(1) dq_do_cases(4) [OF ne(2)]]] i])
          (use p ne(2) dq_sum_update [OF t, of s "tl (ws_dq s ?t)"] in \<open>auto simp: neq_Nil_conv\<close>)
    qed
  next
    case False
    then have r: "\<not> ws_finds n s i j" using finds_less by blast
    show ?thesis
      by (intro exI, rule worker_closer [OF disjI1 [OF k_steal_none [OF i p False]] i]) (use p r in simp_all)
  qed
qed

text \<open>A task in a worker's hand.\<close>

lemma hand_closer:
  fixes s :: "'t ws_pool"
  assumes i: "i < n" and p: "wk_units (ws_wk s i) > 0"
  shows "\<exists>s'. ws_works n m s s' \<and> (s', s) \<in> ws_closer n m"
proof (cases "ws_wk s i")
  case p: (X_busy x k)
  show ?thesis by (intro exI, rule worker_closer [OF disjI1 [OF k_busy [OF i p]] i]) (use p in simp_all)
next
  case p: (X_run x k)
  show ?thesis by (intro exI, rule worker_closer [OF disjI1 [OF k_run [OF i p]] i]) (use p in simp_all)
next
  case p: (X_unbusy k)
  show ?thesis by (intro exI, rule worker_closer [OF disjI1 [OF k_unbusy [OF i p]] i]) (use p in simp_all)
next
  case p: (X_complete k)
  show ?thesis by (intro exI, rule worker_closer [OF disjI1 [OF k_complete [OF i p]] i]) (use p in simp_all)
next
  case p: (X_check k)
  have "after_task k \<noteq> X_check k" "wk_units (after_task k :: 't ws_wk) = 0" by (cases k; simp)+
  then show ?thesis
    by (intro exI [of _ "wk_at i (if ws_waiting s > 0 then X_notify k else after_task k) s"]
        worker_closer [OF disjI1 [OF k_check [OF i p]] i]) (use p in auto)
next
  case p: (X_notify k)
  have a: "after_task k \<noteq> X_notify k" "wk_units (after_task k :: 't ws_wk) = 0" by (cases k; simp)+
  show ?thesis
  proof (cases "\<exists>c y. ws_cl s c = E_asleep y")
    case True
    then obtain c y where c: "ws_cl s c = E_asleep y" by blast
    show ?thesis by (intro exI, rule worker_closer [OF disjI1 [OF k_notify [OF i p c]] i]) (use p a in simp_all)
  next
    case False
    then have none: "\<forall>c y. ws_cl s c \<noteq> E_asleep y" by blast
    show ?thesis by (intro exI, rule worker_closer [OF disjI1 [OF k_notify_none [OF i p none]] i]) (use p a in simp_all)
  qed
next
  case p: (W_push x j)
  show ?thesis
  proof (cases "length (ws_dq s i) < ws_cap s")
    case True
    have l: "(\<Sum>u<n. length (((ws_dq s)(i := ws_dq s i @ [x])) u)) = (\<Sum>u<n. length (ws_dq s u)) + 1"
      using dq_sum_update [OF i, of s "ws_dq s i @ [x]"] by (simp del: fun_upd_apply)
    show ?thesis
      by (intro exI, rule worker_closer [OF disjI1 [OF k_push [OF i p dq_do_cases(5) [OF True]]] i])
        (use p in \<open>simp_all add: l fun_upd_same del: fun_upd_apply\<close>)
  next
    case False
    obtain xs where xs: "dq_do (Push x) i s = (Pushed False, xs)" using dq_do_cases(6) [OF False] by (rule exE)
    show ?thesis by (intro exI, rule worker_closer [OF disjI1 [OF k_push_full [OF i p xs]] i]) (use p in simp_all)
  qed
next
  case p: (W_check j)
  show ?thesis by (intro exI, rule worker_closer [OF disjI1 [OF k_look [OF i p]] i]) (use p in simp_all)
next
  case p: (W_notify j)
  show ?thesis
  proof (cases "\<exists>c y. ws_cl s c = E_asleep y")
    case True
    then obtain c y where c: "ws_cl s c = E_asleep y" by blast
    show ?thesis by (intro exI, rule worker_closer [OF disjI1 [OF k_tell [OF i p c]] i]) (use p in simp_all)
  next
    case False
    then have none: "\<forall>c y. ws_cl s c \<noteq> E_asleep y" by blast
    show ?thesis by (intro exI, rule worker_closer [OF disjI1 [OF k_tell_none [OF i p none]] i]) (use p in simp_all)
  qed
qed (use p in simp_all)

text \<open>The part with the mutex.\<close>

lemma rest_closer:
  fixes s :: "'t ws_pool"
  assumes a: "ws_alive n m s" and i: "i < n" and p: "\<not> wk_blocked s (ws_wk s i)" "wk_units (ws_wk s i) = 0"
    "ws_wk s i \<noteq> W_pop" "\<And>j any. ws_wk s i \<noteq> W_fill j any" "\<And>j. ws_wk s i \<noteq> W_steal j"
  shows "\<exists>s'. ws_works n m s s' \<and> (s', s) \<in> ws_closer n m"
proof -
  have aw: "ws_awake n m s" and ex: "ws_exit_ok i s (ws_wk s i)"
    using a i by (simp_all add: ws_alive_def ws_inv_def ws_exit_def)
  note d = ws_awakeD [OF aw]
  have work: "ws_work_left n s" if "ws_dq s j \<noteq> []" "j < n" for j using that by (auto simp: ws_work_left_def)
  have work': "ws_work_left n s" if "ws_in s \<noteq> []" using that by (auto simp: ws_work_left_def)
  show ?thesis
  proof (cases "ws_wk s i")
    case q: W_lock
    then have mtx: "ws_mtx s = None" using p(1) by simp
    show ?thesis by (intro exI, rule worker_closer [OF disjI2 [OF r_lock [OF i q mtx]] i]) (use q in simp_all)
  next
    case q: W_stop
    show ?thesis by (intro exI, rule worker_closer [OF disjI2 [OF r_stop [OF i q]] i]) (use q in \<open>simp_all add: pred_rank_def\<close>)
  next
    case q: (W_exit_scan j)
    have stop: "ws_stop s" using ex q by simp
    show ?thesis
    proof (cases "j < n")
      case j: True
      show ?thesis
      proof (cases "ws_dq s j = []")
        case True
        show ?thesis
          by (intro exI, rule worker_closer [OF disjI2 [OF r_exit_scan [OF i q j True]] i]) (use q j in simp_all)
      next
        case False
        show ?thesis
          by (intro exI, rule worker_closer [OF disjI2 [OF r_exit_more [OF i q j]] i])
            (use q work [OF False j] in \<open>simp_all add: pred_rank_def\<close>)
      qed
    next
      case False
      then have q': "ws_wk s i = W_exit_scan n" using d(4) [OF q] q by simp
      show ?thesis
        by (intro exI, rule worker_closer [OF disjI2 [OF r_exit_in [OF i q']] i])
          (use q' work' in \<open>auto simp: pred_rank_def\<close>)
    qed
  next
    case q: W_unlock_exit
    show ?thesis by (intro exI, rule worker_closer [OF disjI2 [OF r_unlock_exit [OF i q]] i]) (use q in simp_all)
  next
    case q: W_idle_inc
    show ?thesis by (intro exI, rule worker_closer [OF disjI2 [OF r_idle_inc [OF i q]] i]) (use q in simp_all)
  next
    case q: W_pred
    show ?thesis
      by (intro exI, rule worker_closer [OF disjI2 [OF r_pred [OF i q]] i]) (use q in \<open>simp_all add: pred_rank_def pop_rank_def\<close>)
  next
    case q: (W_scan j)
    show ?thesis
    proof (cases "j < n")
      case j: True
      show ?thesis
      proof (cases "ws_dq s j = []")
        case True
        show ?thesis
          by (intro exI, rule worker_closer [OF disjI2 [OF r_scan [OF i q j True]] i]) (use q j in simp_all)
      next
        case False
        show ?thesis
          by (intro exI, rule worker_closer [OF disjI2 [OF r_more [OF i q j]] i])
            (use q j work [OF False j] in \<open>simp_all add: pop_rank_def\<close>)
      qed
    next
      case False
      then have q': "ws_wk s i = W_scan n" using d(3) [OF q] q by simp
      show ?thesis
        by (intro exI, rule worker_closer [OF disjI2 [OF r_in [OF i q']] i])
          (use q' work' in \<open>auto simp: pop_rank_def\<close>)
    qed
  next
    case q: W_block
    show ?thesis by (intro exI, rule worker_closer [OF disjI2 [OF r_block [OF i q]] i]) (use q in simp_all)
  next
    case q: W_relock
    then have mtx: "ws_mtx s = None" using p(1) by simp
    show ?thesis by (intro exI, rule worker_closer [OF disjI2 [OF r_relock [OF i q mtx]] i]) (use q in simp_all)
  next
    case q: W_idle_dec
    show ?thesis by (intro exI, rule worker_closer [OF disjI2 [OF r_idle_dec [OF i q]] i]) (use q in simp_all)
  next
    case q: W_unlock
    show ?thesis by (intro exI, rule worker_closer [OF disjI2 [OF r_unlock [OF i q]] i]) (use q in simp_all)
  qed (use p in simp_all)
qed

text \<open>\<open>submit\<close>, \<open>submitVoid\<close> and \<open>trySubmit\<close>.\<close>

lemma submit_closer:
  fixes s :: "'t ws_pool"
  assumes c: "c < m" and p: "\<not> cl_blocked n s (ws_cl s c)" and e: "ws_in_flight (ws_cl s c) = 1"
  shows "\<exists>s'. ws_works n m s s' \<and> (s', s) \<in> ws_closer n m"
proof -
  note [simp] = admitted_def
  have push: ?thesis
    if st: "\<And>xs. in_push x s = (True, xs) \<Longrightarrow> ws_submit n m s (cl_at c q (admitted x xs s))"
      "\<And>xs. in_push x s = (False, xs) \<Longrightarrow> ws_submit n m s (cl_at c r s)"
      and u: "cl_units (ws_cl s c) = 8" "cl_units q = 1" "ws_cl s c \<noteq> r"
      "cl_units r < 8 \<or> cl_units r = 8 \<and> (ws_full s \<longrightarrow> cl_rank n s r < cl_rank n s (ws_cl s c))"
      "\<forall>y. ws_cl s c \<noteq> E_asleep y" for x q r
  proof (cases "ws_full s")
    case True
    show ?thesis
      by (intro exI, rule client_closer [OF disjI1 [OF st(2) [OF in_cases(4) [OF True]]] c]) (use u True in auto)
  next
    case False
    show ?thesis
      by (intro exI, rule client_closer [OF disjI1 [OF st(1) [OF in_cases(3) [OF False]]] c]) (use u in auto)
  qed
  show ?thesis
  proof (cases "ws_cl s c")
    case q: (E_fast x)
    show ?thesis by (intro exI, rule client_closer [OF disjI1 [OF e_fast [OF c q]] c]) (use q in simp_all)
  next
    case q: (E_push x)
    show ?thesis by (rule push [OF e_push [OF c q] e_push_full [OF c q]]) (use q in simp_all)
  next
    case q: E_count
    show ?thesis by (intro exI, rule client_closer [OF disjI1 [OF e_count [OF c q]] c]) (use q in simp_all)
  next
    case q: E_look
    show ?thesis by (intro exI, rule client_closer [OF disjI1 [OF e_look [OF c q]] c]) (use q in simp_all)
  next
    case q: E_notify
    show ?thesis
    proof (cases "\<exists>i<n. ws_wk s i = W_asleep")
      case True
      then obtain i where i: "i < n" "ws_wk s i = W_asleep" by blast
      show ?thesis by (intro exI, rule client_closer [OF disjI1 [OF e_notify [OF c q i]] c]) (use q in simp_all)
    next
      case False
      then have none: "\<forall>i<n. ws_wk s i \<noteq> W_asleep" by blast
      show ?thesis by (intro exI, rule client_closer [OF disjI1 [OF e_notify_none [OF c q none]] c]) (use q in simp_all)
    qed
  next
    case q: (E_lock x)
    then have mtx: "ws_mtx s = None" using p by simp
    show ?thesis by (intro exI, rule client_closer [OF disjI1 [OF e_lock [OF c q mtx]] c]) (use q in simp_all)
  next
    case q: (E_crit x)
    show ?thesis by (intro exI, rule client_closer [OF disjI1 [OF e_crit [OF c q]] c]) (use q in simp_all)
  next
    case q: (E_slow x)
    show ?thesis by (rule push [OF e_slow [OF c q] e_slow_full [OF c q]]) (use q in simp_all)
  next
    case q: (E_wait_inc x)
    show ?thesis by (intro exI, rule client_closer [OF disjI1 [OF e_wait_inc [OF c q]] c]) (use q in simp_all)
  next
    case q: (E_pred x)
    show ?thesis
      by (intro exI, rule client_closer [OF disjI1 [OF e_pred [OF c q]] c]) (use q in \<open>simp_all add: ws_full_def\<close>)
  next
    case q: (E_block x)
    show ?thesis by (intro exI, rule client_closer [OF disjI1 [OF e_block [OF c q]] c]) (use q in simp_all)
  next
    case q: (E_relock x)
    then have mtx: "ws_mtx s = None" using p by simp
    show ?thesis by (intro exI, rule client_closer [OF disjI1 [OF e_relock [OF c q mtx]] c]) (use q in simp_all)
  next
    case q: (E_wait_dec x)
    show ?thesis by (intro exI, rule client_closer [OF disjI1 [OF e_wait_dec [OF c q]] c]) (use q in simp_all)
  next
    case q: (E_recheck x)
    show ?thesis by (intro exI, rule client_closer [OF disjI1 [OF e_recheck [OF c q]] c]) (use q in simp_all)
  next
    case q: E_slow_count
    show ?thesis by (intro exI, rule client_closer [OF disjI1 [OF e_slow_count [OF c q]] c]) (use q in simp_all)
  next
    case q: (E_unlock r)
    show ?thesis by (intro exI, rule client_closer [OF disjI1 [OF e_unlock [OF c q]] c]) (use q in simp_all)
  next
    case q: (E_end r)
    show ?thesis by (intro exI, rule client_closer [OF disjI1 [OF e_end [OF c q]] c]) (use q in simp_all)
  next
    case q: (T_first x)
    show ?thesis by (intro exI, rule client_closer [OF disjI1 [OF t_first [OF c q]] c]) (use q in simp_all)
  next
    case q: (T_second x)
    show ?thesis by (intro exI, rule client_closer [OF disjI1 [OF t_second [OF c q]] c]) (use q in simp_all)
  next
    case q: (T_push x)
    show ?thesis by (rule push [OF t_push [OF c q] t_push_full [OF c q]]) (use q in simp_all)
  qed (use p e in simp_all)
qed

lemma wake_client_units: "cl_units (ws_wake_client q) = cl_units q"
  by (cases q) auto

lemma shutdown_closer:
  fixes s :: "'t ws_pool"
  assumes a: "ws_alive n m s" and c: "c < m" and p: "\<not> cl_blocked n s (ws_cl s c)" and e: "ws_in_flight (ws_cl s c) = 0"
  shows "\<exists>s'. ws_works n m s s' \<and> (s', s) \<in> ws_closer n m"
proof (cases "ws_cl s c")
  case q: S_lock
  then have mtx: "ws_mtx s = None" using p by simp
  show ?thesis by (intro exI, rule client_closer [OF disjI2 [OF s_lock [OF c q mtx]] c]) (use q in simp_all)
next
  case q: S_crit
  show ?thesis
  proof (cases "ws_stop s")
    case True
    show ?thesis by (intro exI, rule client_closer [OF disjI2 [OF s_again [OF c q True]] c]) (use q in simp_all)
  next
    case False
    show ?thesis by (intro exI, rule client_closer [OF disjI2 [OF s_stop [OF c q False]] c]) (use q in simp_all)
  qed
next
  case q: S_unlock_return
  show ?thesis by (intro exI, rule client_closer [OF disjI2 [OF s_return [OF c q]] c]) (use q in simp_all)
next
  case q: S_unlock
  show ?thesis by (intro exI, rule client_closer [OF disjI2 [OF s_unlock [OF c q]] c]) (use q in simp_all)
next
  case q: S_notify_workers
  show ?thesis by (intro exI, rule client_closer [OF disjI2 [OF s_notify_workers [OF c q]] c]) (use q in simp_all)
next
  case q: S_notify_producers
  let ?s' = "s\<lparr>ws_cl := (\<lambda>d. ws_wake_client (ws_cl s d))(c := S_spin)\<rparr>"
  have st: "ws_shut n m s ?s'" by (rule s_notify_producers [OF c q])
  have "\<not> ws_spurious s ?s'"
  proof
    assume "ws_spurious s ?s'"
    then show False unfolding ws_spurious_def
    proof (elim disjE exE conjE)
      fix u assume "?s' = wk_at u W_relock s"
      then have "ws_cl ?s' c = ws_cl s c" by simp
      then show False using q by simp
    next
      fix d x assume h: "ws_cl s d = E_asleep x" "?s' = cl_at d (E_relock x) s"
      then have "ws_cl ?s' c = ws_cl (cl_at d (E_relock x) s) c" by simp
      then show False using h(1) q by (simp split: if_splits)
    qed
  qed
  moreover have "?s' \<noteq> s"
  proof
    assume "?s' = s"
    then have "ws_cl ?s' c = ws_cl s c" by (rule arg_cong [where f = "\<lambda>t. ws_cl t c"])
    then show False using q by simp
  qed
  moreover have "ws_cl ?s' d = C_idle" if "ws_cl s d = C_idle" for d using that q by auto
  ultimately have w: "ws_works n m s ?s'" using st by (auto simp: ws_works_def ws_step_def)
  have "(\<Sum>u<m. cl_units (ws_cl ?s' u)) + 1 = (\<Sum>u<m. cl_units (ws_cl s u))"
    using sum_thread_update [OF c, of cl_units "\<lambda>d. ws_wake_client (ws_cl s d)" S_spin] q by (simp add: wake_client_units)
  then show ?thesis using w by (intro exI [of _ ?s']) (simp add: ws_closer_iff ws_units_def)
next
  case q: S_spin
  then have z: "ws_active s = 0" using p by simp
  show ?thesis by (intro exI, rule client_closer [OF disjI2 [OF s_spun [OF c q z]] c]) (use q in simp_all)
next
  case q: (S_join k)
  have k: "k \<le> n" using a ws_awakeD(5) q by (auto simp: ws_alive_def)
  show ?thesis
  proof (cases "k < n")
    case True
    then have x: "ws_wk s k = W_exit" using p q by simp
    show ?thesis by (intro exI, rule client_closer [OF disjI2 [OF s_join [OF c q True x]] c]) (use q True in simp_all)
  next
    case False
    then have q': "ws_cl s c = S_join n" using k q by simp
    show ?thesis by (intro exI, rule client_closer [OF disjI2 [OF s_done [OF c q']] c]) (use q' in simp_all)
  qed
qed (use p e in simp_all)

section \<open>Progress\<close>

lemma ws_progress:
  assumes a: "ws_alive n m s" and n: "0 < n" and q: "\<not> ws_quiet n m s"
  shows "\<exists>s'. ws_works n m s s' \<and> (s', s) \<in> ws_closer n m"
proof -
  have "\<not> (\<forall>i<n. wk_blocked s (ws_wk s i)) \<or> \<not> (\<forall>c<m. cl_blocked n s (ws_cl s c))" using blocked_quiet [OF a n] q by blast
  then show ?thesis
  proof
    assume "\<not> (\<forall>i<n. wk_blocked s (ws_wk s i))"
    then obtain i where i: "i < n" "\<not> wk_blocked s (ws_wk s i)" by blast
    show ?thesis using loop_closer [OF i(1)] hand_closer [OF i(1)] rest_closer [OF a i] by blast
  next
    assume "\<not> (\<forall>c<m. cl_blocked n s (ws_cl s c))"
    then obtain c where c: "c < m" "\<not> cl_blocked n s (ws_cl s c)" by blast
    have "ws_in_flight (ws_cl s c) = 0 \<or> ws_in_flight (ws_cl s c) = 1" by (cases "ws_cl s c") auto
    then show ?thesis using submit_closer [OF c] shutdown_closer [OF a c] by blast
  qed
qed

interpretation ws_goal: reaches_goal "ws_works (ws_num_threads k) m" "ws_alive (ws_num_threads k) m" "ws_quiet (ws_num_threads k) m"
    "ws_closer (ws_num_threads k) m"
  for k m
proof unfold_locales
  show "wf (ws_closer (ws_num_threads k) m)" by (simp add: ws_closer_def)
  show "ws_alive (ws_num_threads k) m t" if "ws_alive (ws_num_threads k) m s" "ws_works (ws_num_threads k) m s t" for s t
    using that alive.inv_step by (auto simp: ws_works_def)
  show "\<exists>t. ws_works (ws_num_threads k) m s t \<and> (t, s) \<in> ws_closer (ws_num_threads k) m"
    if "ws_alive (ws_num_threads k) m s" "\<not> ws_quiet (ws_num_threads k) m s" for s
    using ws_progress [OF that(1) _ that(2)] by (simp add: ws_num_threads_def)
qed

lemma ws_works_stop:
  assumes "(ws_works n m)\<^sup>*\<^sup>* s s'" "ws_stop s"
  shows "ws_stop s'"
proof -
  have step: "ws_stop t'" if "ws_works n m t t'" "ws_stop t" for t t'
  proof -
    have "ws_work n t t' \<or> ws_rest n t t' \<or> ws_submit n m t t' \<or> ws_shut n m t t'" using that(1) by (auto simp: ws_works_def ws_step_def)
    moreover have "ws_stop t'" if "ws_shut n m t t'" using that \<open>ws_stop t\<close> by cases auto
    ultimately show ?thesis using that(2) ws_worker_frame(4) [of n t t'] ws_submit_frame(1) [of n m t t'] by auto
  qed
  show ?thesis using assms by (induction rule: rtranclp_induct) (auto intro: step)
qed

text \<open>Where nobody has anything to do, nobody can take a working step.\<close>

lemma quiet_no_step:
  assumes q: "ws_quiet n m s" and w: "ws_works n m s s'"
  shows False
proof -
  have wk: "ws_wk s i = W_asleep \<or> ws_wk s i = W_exit" if "i < n" for i
    using q that by (auto simp: ws_quiet_def split: if_splits)
  have cl: "ws_cl s c = C_idle \<or> ws_cl s c = S_done \<or> (\<exists>x. ws_cl s c = E_asleep x)" if "c < m" for c
    using q that by (auto simp: ws_quiet_def split: if_splits)
  have "ws_work n s s' \<or> ws_rest n s s' \<or> ws_submit n m s s' \<or> ws_shut n m s s'"
    and sp: "\<not> ws_spurious s s'" and idle: "\<And>c. ws_cl s c = C_idle \<Longrightarrow> ws_cl s' c = C_idle"
    using w by (auto simp: ws_works_def ws_step_def)
  then show False
  proof (elim disjE)
    assume "ws_work n s s'"
    then show False by cases (use wk in force)+
  next
    assume "ws_rest n s s'"
    then show False
    proof cases
      case (r_wake i)
      then show False using sp by (auto simp: ws_spurious_def)
    qed (use wk in force)+
  next
    assume "ws_submit n m s s'"
    then show False
    proof cases
      case (e_call c x)
      then show False using idle [of c] by simp
    next
      case (t_call c x)
      then show False using idle [of c] by simp
    next
      case (e_wake c x)
      then show False using sp by (auto simp: ws_spurious_def)
    qed (use cl in force)+
  next
    assume "ws_shut n m s s'"
    then show False
    proof cases
      case (s_call c)
      then show False using idle [of c] by simp
    qed (use cl in force)+
  qed
qed

section \<open>Property\<close>

text \<open>C36: \<open>WorkStealingThreadPool\<close> never gets stuck: from every reachable state its threads can go on, without
  anybody starting a call and without spurious wake-ups, until nobody has anything to do; and they are there
  exactly where no thread can move: in a pool that was stopped, the workers have returned, their deques are
  empty, \<open>shutdown\<close> and every submission have returned, and at most tasks accepted after \<open>stop_\<close> was
  set are left. In particular \<open>shutdown\<close> has no deadlock. (In a pool that runs, the workers sleep, and clients have
  returned or wait for space; that tasks can be left there is \<open>ws_pool_lost_wakeup\<close>.)\<close>

theorem ws_pool_never_stuck:
  assumes "reach (ws_init q p) (ws_step (ws_num_threads k) m) s"
  shows "(\<exists>s'. (ws_works (ws_num_threads k) m)\<^sup>*\<^sup>* s s' \<and> ws_quiet (ws_num_threads k) m s') \<and>
    (\<forall>s'. (ws_works (ws_num_threads k) m)\<^sup>*\<^sup>* s s' \<longrightarrow>
      (\<not> (\<exists>s''. ws_works (ws_num_threads k) m s' s'') \<longleftrightarrow> ws_quiet (ws_num_threads k) m s'))"
  using ws_goal.reaches ws_goal.stopped_at_goal alive.inv_reach [OF assms] quiet_no_step by blast

text \<open>A client spins in \<open>shutdown\<close> while an accepted task waits and the worker has yet to notice: \<open>shutdown\<close> can return.\<close>

theorem ws_pool_never_stuck_witness:
  "\<exists>s s'. reach (ws_init 2 WS_BLOCK) (ws_step (ws_num_threads 0) 1) s \<and> ws_cl s 0 = S_spin \<and> ws_accepted s = [42 :: nat] \<and>
    ws_executed s = [] \<and> ws_wk s 0 = W_pop \<and> (ws_works (ws_num_threads 0) 1)\<^sup>*\<^sup>* s s' \<and>
    ws_wk s' 0 = W_exit \<and> ws_cl s' 0 \<in> {C_idle, S_done}"
proof -
  have one: "ws_num_threads 0 = 1" by (simp add: ws_num_threads_def)
  let ?R = "reach (ws_init 2 WS_BLOCK) (ws_step (ws_num_threads 0) 1) :: nat ws_pool \<Rightarrow> bool"
  define s0 :: "nat ws_pool" where "s0 = ws_start WS_BLOCK"
  have "?R s0" by (simp add: s0_def ws_start_reach)
  note d = s0_def ws_start_def
  define s1 where "s1 = cl_at 0 C_idle ((admitted 42 [42] s0)\<lparr>ws_submitted := ws_submitted s0 + 1\<rparr>)"
  have "?R s1" unfolding s1_def by (rule ws_run_submit [OF \<open>?R s0\<close>]) (simp_all add: d)
  note d = d s1_def admitted_def
  define s2 where "s2 = cl_at 0 S_spin (s1\<lparr>ws_stop := True\<rparr>)"
  have "?R s2" unfolding s2_def by (rule ws_run_spin [OF \<open>?R s1\<close>]) (simp_all add: d)
  note d = d s2_def
  obtain s' where s': "(ws_works (ws_num_threads 0) 1)\<^sup>*\<^sup>* s2 s'" "ws_quiet (ws_num_threads 0) 1 s'"
    using ws_pool_never_stuck [OF \<open>?R s2\<close>] by blast
  moreover have "ws_stop s'" using ws_works_stop [OF s'(1)] by (simp add: d)
  ultimately show ?thesis
    using \<open>?R s2\<close> by (intro exI [of _ s2] exI [of _ s']) (simp add: d ws_quiet_def one)
qed

end
