(* ===== verification/WS_Thread_Pool_Hang.thy ===== *)
theory WS_Thread_Pool_Hang
  imports WS_Thread_Pool_Progress
begin

text \<open>
  A run of \<open>WorkStealingThreadPool\<close> in which a \<open>BLOCK\<close> producer waits for space in an empty queue and nobody is left
  to wake it. A producer evaluates the predicate of \<open>not_full_cv_.wait\<close> and goes to sleep under \<open>mtx_\<close>, but workers make
  space and notify without it.
\<close>

section \<open>Pieces of the run\<close>

text \<open>A client puts a task into a queue with room; no worker is idle, so it notifies nobody.\<close>

lemma ws_run_submit_room:
  assumes "reach I (ws_step n m) s" "c < m" "ws_cl s c = C_idle" "\<not> ws_stop s" "length (ws_in s) < ws_cap s" "ws_idle s = 0"
  shows "reach I (ws_step n m) (cl_at c C_idle ((admitted x (ws_in s @ [x]) s)\<lparr>ws_submitted := ws_submitted s + 1\<rparr>))"
proof -
  let ?R = "reach I (ws_step n m)"
  note d = assms(2-)
  define s1 where "s1 = cl_at c (E_push x) (s\<lparr>ws_active := ws_active s + 1\<rparr>)"
  have "?R s1" unfolding s1_def by (rule ws_run_to_push) (use assms in simp_all)
  note d = d s1_def
  define s2 where "s2 = cl_at c E_count (admitted x (ws_in s @ [x]) s1)"
  have "?R s2" unfolding s2_def by (rule ws_e [OF e_push \<open>?R s1\<close>]) (simp_all add: d in_push_def)
  note d = d s2_def admitted_def
  define s3 where "s3 = cl_at c E_look (s2\<lparr>ws_submitted := ws_submitted s2 + 1\<rparr>)"
  have "?R s3" unfolding s3_def by (rule ws_e [OF e_count \<open>?R s2\<close>]) (simp_all add: d)
  note d = d s3_def
  define s4 where "s4 = cl_at c (if ws_idle s3 > 0 then E_notify else E_end WR_accepted) s3"
  have "?R s4" unfolding s4_def by (rule ws_e [OF e_look \<open>?R s3\<close>]) (simp_all add: d)
  note d = d s4_def
  define s5 where "s5 = cl_at c C_idle (s4\<lparr>ws_active := ws_active s4 - 1\<rparr>)"
  have "?R s5" unfolding s5_def by (rule ws_run_return [OF \<open>?R s4\<close>]) (simp_all add: d)
  moreover have "s5 = cl_at c C_idle ((admitted x (ws_in s @ [x]) s)\<lparr>ws_submitted := ws_submitted s + 1\<rparr>)"
    by (rule ws_pool.equality) (simp_all add: d s5_def)
  ultimately show ?thesis by simp
qed

text \<open>A client finds the queue full and comes to the point where it is about to sleep, with \<open>mtx_\<close>.\<close>

lemma ws_run_to_client_block:
  assumes "reach I (ws_step n m) s" "c < m" "ws_cl s c = C_idle" "\<not> ws_stop s" "\<not> length (ws_in s) < ws_cap s"
    "ws_mtx s = None" "ws_policy s = WS_BLOCK"
  shows "reach I (ws_step n m) (cl_at c (E_block x)
    (s\<lparr>ws_active := ws_active s + 1, ws_mtx := Some (WS_client c), ws_waiting := ws_waiting s + 1\<rparr>))"
proof -
  let ?R = "reach I (ws_step n m)"
  note d = assms(2-)
  define s1 where "s1 = cl_at c (E_push x) (s\<lparr>ws_active := ws_active s + 1\<rparr>)"
  have "?R s1" unfolding s1_def by (rule ws_run_to_push) (use assms in simp_all)
  note d = d s1_def
  define s2 where "s2 = cl_at c (E_lock x) s1"
  have "?R s2" unfolding s2_def by (rule ws_e [OF e_push_full \<open>?R s1\<close>]) (simp_all add: d in_push_def)
  note d = d s2_def
  define s3 where "s3 = cl_at c (E_crit x) (s2\<lparr>ws_mtx := Some (WS_client c)\<rparr>)"
  have "?R s3" unfolding s3_def by (rule ws_e [OF e_lock \<open>?R s2\<close>]) (simp_all add: d)
  note d = d s3_def
  define s4 where "s4 = cl_at c (E_slow x) s3"
  have "?R s4" unfolding s4_def using ws_e [OF e_crit \<open>?R s3\<close>, of c x] by (simp add: d)
  note d = d s4_def
  define s5 where "s5 = cl_at c (E_wait_inc x) s4"
  have "?R s5" unfolding s5_def by (rule ws_e [OF e_slow_full \<open>?R s4\<close>]) (simp_all add: d in_push_def)
  note d = d s5_def
  define s6 where "s6 = cl_at c (E_pred x) (s5\<lparr>ws_waiting := ws_waiting s5 + 1\<rparr>)"
  have "?R s6" unfolding s6_def by (rule ws_e [OF e_wait_inc \<open>?R s5\<close>]) (simp_all add: d)
  note d = d s6_def
  define s7 where "s7 = cl_at c (if ws_stop s6 \<or> length (ws_in s6) < ws_cap s6 then E_wait_dec x else E_block x) s6"
  have "?R s7" unfolding s7_def by (rule ws_e [OF e_pred \<open>?R s6\<close>]) (simp_all add: d)
  moreover have "s7 = cl_at c (E_block x)
      (s\<lparr>ws_active := ws_active s + 1, ws_mtx := Some (WS_client c), ws_waiting := ws_waiting s + 1\<rparr>)"
    by (rule ws_pool.equality) (simp_all add: d s7_def fun_eq_iff)
  ultimately show ?thesis by simp
qed

text \<open>The worker moves a task to its deque; a producer is counted as waiting, but none sleeps yet.\<close>

lemma ws_run_move:
  assumes "reach I (ws_step 1 m) s" "ws_wk s 0 = W_fill j any" "j < kLocalBatchSize" "ws_in s = x # xs"
    "length (ws_dq s 0) < ws_cap s" "ws_waiting s > 0" "\<And>c y. ws_cl s c \<noteq> E_asleep y"
  shows "reach I (ws_step 1 m) (wk_at 0 (W_fill (Suc j) True) (s\<lparr>ws_in := xs, ws_dq := (ws_dq s)(0 := ws_dq s 0 @ [x])\<rparr>))"
proof -
  let ?R = "reach I (ws_step 1 m)"
  note d = assms(2-)
  define s1 where "s1 = wk_at 0 (W_push x j) (s\<lparr>ws_in := xs\<rparr>)"
  have "?R s1" unfolding s1_def by (rule ws_k [OF k_fill assms(1)]) (simp_all add: d in_pop_def)
  note d = d s1_def
  define s2 where "s2 = wk_at 0 (W_check j) (s1\<lparr>ws_dq := (ws_dq s1)(0 := ws_dq s 0 @ [x])\<rparr>)"
  have "?R s2" unfolding s2_def by (rule ws_k [OF k_push [where x = x] \<open>?R s1\<close>]) (simp_all add: d dq_do_def)
  note d = d s2_def
  define s3 where "s3 = wk_at 0 (W_notify j) s2"
  have "?R s3" unfolding s3_def using ws_k [OF k_look \<open>?R s2\<close>, of 0 j] by (simp add: d)
  note d = d s3_def
  define s4 where "s4 = wk_at 0 (W_fill (Suc j) True) s3"
  have "?R s4" unfolding s4_def by (rule ws_k [OF k_tell_none \<open>?R s3\<close>]) (simp_all add: d)
  moreover have "s4 = wk_at 0 (W_fill (Suc j) True) (s\<lparr>ws_in := xs, ws_dq := (ws_dq s)(0 := ws_dq s 0 @ [x])\<rparr>)"
    by (rule ws_pool.equality) (simp_all add: d s4_def fun_eq_iff)
  ultimately show ?thesis by simp
qed

text \<open>The worker executes the last task of its deque; again nobody sleeps yet.\<close>

lemma ws_run_count_notify:
  assumes "reach I (ws_step n m) s" "i < n" "ws_wk s i = X_unbusy k" "ws_waiting s > 0" "\<And>c y. ws_cl s c \<noteq> E_asleep y"
  shows "reach I (ws_step n m) (wk_at i (after_task k) (s\<lparr>ws_busy := ws_busy s - 1, ws_completed := ws_completed s + 1\<rparr>))"
proof -
  let ?R = "reach I (ws_step n m)"
  let ?t = "s\<lparr>ws_busy := ws_busy s - 1, ws_completed := ws_completed s + 1\<rparr>"
  have "?R (wk_at i (X_complete k) (s\<lparr>ws_busy := ws_busy s - 1\<rparr>))" by (rule ws_k [OF k_unbusy assms(1)]) (simp_all add: assms)
  from ws_k [OF k_complete this, of i k] have "?R (wk_at i (X_check k) ?t)" by (simp add: assms)
  from ws_k [OF k_check this, of i k] have "?R (wk_at i (X_notify k) ?t)" by (simp add: assms)
  from ws_k [OF k_notify_none this, of i k] show ?thesis by (simp add: assms)
qed

lemma ws_run_last:
  assumes "reach I (ws_step 1 m) s" "ws_wk s 0 = W_pop" "ws_dq s 0 = xs @ [x]" "ws_waiting s > 0" "\<And>c y. ws_cl s c \<noteq> E_asleep y"
  shows "reach I (ws_step 1 m) (wk_at 0 W_pop (s\<lparr>ws_dq := (ws_dq s)(0 := xs), ws_executed := ws_executed s @ [x],
    ws_completed := ws_completed s + 1\<rparr>))"
proof -
  let ?R = "reach I (ws_step 1 m)"
  let ?t = "s\<lparr>ws_dq := (ws_dq s)(0 := xs)\<rparr>"
  have "?R (wk_at 0 (X_busy x None) ?t)" by (rule ws_k [OF k_pop assms(1)]) (simp_all add: assms dq_do_def)
  from ws_k [OF k_busy this, of 0 x None] have "?R (wk_at 0 (X_run x None) (?t\<lparr>ws_busy := ws_busy s + 1\<rparr>))" by simp
  from ws_k [OF k_run this, of 0 x None]
  have "?R (wk_at 0 (X_unbusy None) (?t\<lparr>ws_busy := ws_busy s + 1, ws_executed := ws_executed s @ [x]\<rparr>))" by simp
  from ws_run_count_notify [OF this, of 0 None] show ?thesis by (simp add: assms)
qed

text \<open>With a producer about to sleep, the worker empties the entry queue and executes both tasks.\<close>

lemma ws_run_two:
  assumes "reach I (ws_step 1 m) s" "ws_wk s 0 = W_pop" "ws_dq s 0 = []" "ws_in s = [a, b]" "2 \<le> ws_cap s" "ws_waiting s > 0"
    "\<And>c y. ws_cl s c \<noteq> E_asleep y"
  shows "reach I (ws_step 1 m) (wk_at 0 W_pop (s\<lparr>ws_in := [], ws_dq := (ws_dq s)(0 := []), ws_executed := ws_executed s @ [b, a],
    ws_completed := ws_completed s + 2\<rparr>))"
proof -
  let ?R = "reach I (ws_step 1 m)"
  have "0 < ws_cap s" "Suc 0 < ws_cap s" using assms(5) by simp_all
  note d = this assms(2-) kLocalBatchSize_def
  have "?R (wk_at 0 (W_fill 0 False) s)"
    by (rule ws_k [OF k_pop_empty [where xs = "[]"] assms(1)]) (simp_all add: d dq_do_def)
  from ws_run_move [OF this, of 0 False a "[b]"]
  have "?R (wk_at 0 (W_fill (Suc 0) True) (s\<lparr>ws_in := [b], ws_dq := (ws_dq s)(0 := [a])\<rparr>))" by (simp add: d)
  from ws_run_move [OF this, of "Suc 0" True b "[]"]
  have "?R (wk_at 0 (W_fill (Suc (Suc 0)) True) (s\<lparr>ws_in := [], ws_dq := (ws_dq s)(0 := [a, b])\<rparr>))" by (simp add: d)
  from ws_k [OF k_fill_empty this, of 0 "Suc (Suc 0)" True "[]"]
  have "?R (wk_at 0 W_pop (s\<lparr>ws_in := [], ws_dq := (ws_dq s)(0 := [a, b])\<rparr>))" by (simp add: d in_pop_def)
  from ws_run_last [OF this, of "[a]" b]
  have "?R (wk_at 0 W_pop (s\<lparr>ws_in := [], ws_dq := (ws_dq s)(0 := [a]), ws_executed := ws_executed s @ [b],
    ws_completed := ws_completed s + 1\<rparr>))" by (simp add: d)
  from ws_run_last [OF this, of "[]" a] show ?thesis by (simp add: d add.assoc)
qed

text \<open>The producer is outrun.\<close>

lemma ws_run_outrun:
  "\<exists>s. reach (ws_init 2 WS_BLOCK) (ws_step 1 1) s \<and> ws_cl s 0 = E_block (3 :: nat) \<and> ws_in s = [] \<and> ws_dq s 0 = [] \<and>
    ws_executed s = [2, 1] \<and> ws_wk s 0 = W_pop \<and> \<not> ws_stop s \<and> ws_accepted s = [1, 2]"
proof -
  let ?R = "reach (ws_init 2 WS_BLOCK) (ws_step 1 1) :: nat ws_pool \<Rightarrow> bool"
  define s0 :: "nat ws_pool" where "s0 = ws_start WS_BLOCK"
  have "?R s0" by (simp add: s0_def ws_start_reach)
  note d = s0_def ws_start_def kLocalBatchSize_def admitted_def
  define s1 where "s1 = cl_at 0 C_idle ((admitted 1 (ws_in s0 @ [1]) s0)\<lparr>ws_submitted := ws_submitted s0 + 1\<rparr>)"
  have "?R s1" unfolding s1_def by (rule ws_run_submit_room [OF \<open>?R s0\<close>]) (simp_all add: d)
  note d = d s1_def
  define s2 where "s2 = cl_at 0 C_idle ((admitted 2 (ws_in s1 @ [2]) s1)\<lparr>ws_submitted := ws_submitted s1 + 1\<rparr>)"
  have "?R s2" unfolding s2_def by (rule ws_run_submit_room [OF \<open>?R s1\<close>]) (simp_all add: d)
  note d = d s2_def
  define s3 where "s3 = cl_at 0 (E_block 3) (s2\<lparr>ws_active := ws_active s2 + 1, ws_mtx := Some (WS_client 0),
    ws_waiting := ws_waiting s2 + 1\<rparr>)"
  have "?R s3" unfolding s3_def by (rule ws_run_to_client_block [OF \<open>?R s2\<close>]) (simp_all add: d)
  note d = d s3_def
  have *: "?R (wk_at 0 W_pop (s3\<lparr>ws_in := [], ws_dq := (ws_dq s3)(0 := []), ws_executed := ws_executed s3 @ [2, 1],
      ws_completed := ws_completed s3 + 2\<rparr>))"
    by (rule ws_run_two [OF \<open>?R s3\<close>]) (simp_all add: d)
  show ?thesis by (intro exI conjI, rule *) (simp_all add: d)
qed

section \<open>Property\<close>

text \<open>C37: a producer under \<open>BLOCK\<close> can wait for space forever although there is space: it finds the queue full, and before it
  is asleep the worker empties the queue, executes everything and notifies \<open>not_full_cv_\<close>, which wakes nobody
  yet. In the end the producer sleeps with its task, all queues are empty, the worker sleeps too, and no thread can take
  a step unless somebody calls again or a wake-up is spurious.\<close>

theorem ws_pool_producer_hangs:
  "\<exists>s. reach (ws_init 2 WS_BLOCK) (ws_step 1 1) s \<and> ws_cl s 0 = E_asleep (3 :: nat) \<and> ws_in s = [] \<and> ws_dq s 0 = [] \<and>
    ws_executed s = [2, 1] \<and> ws_wk s 0 = W_asleep \<and> \<not> ws_stop s \<and> \<not> (\<exists>s'. ws_works 1 1 s s')"
proof -
  let ?R = "reach (ws_init 2 WS_BLOCK) (ws_step 1 1) :: nat ws_pool \<Rightarrow> bool"
  obtain s9 :: "nat ws_pool" where s9: "?R s9" "ws_cl s9 0 = E_block 3" "ws_in s9 = []" "ws_dq s9 0 = []"
    "ws_executed s9 = [2, 1]" "ws_wk s9 0 = W_pop" "\<not> ws_stop s9" "ws_accepted s9 = [1, 2]"
    using ws_run_outrun by blast
  define s10 where "s10 = cl_at 0 (E_asleep 3) (s9\<lparr>ws_mtx := None\<rparr>)"
  have "?R s10" unfolding s10_def by (rule ws_e [OF e_block s9(1)]) (simp_all add: s9)
  note d = s9(2-) s10_def
  define s11 where "s11 = wk_at 0 W_lock s10"
  have "?R s11" unfolding s11_def by (rule ws_run_to_lock [OF \<open>?R s10\<close>]) (simp_all add: d)
  note d = d s11_def
  define s12 where "s12 = wk_at 0 W_block (s11\<lparr>ws_mtx := Some (WS_worker 0), ws_idle := ws_idle s11 + 1\<rparr>)"
  have "?R s12" unfolding s12_def by (rule ws_run_to_block [OF \<open>?R s11\<close>]) (simp_all add: d)
  note d = d s12_def
  define s13 where "s13 = wk_at 0 W_asleep (s12\<lparr>ws_mtx := None\<rparr>)"
  have "?R s13" unfolding s13_def by (rule ws_r [OF r_block \<open>?R s12\<close>]) (simp_all add: d)
  note d = d s13_def
  have "ws_quiet 1 1 s13" by (simp add: ws_quiet_def d)
  then have "\<not> (\<exists>s'. ws_works 1 1 s13 s')" by (intro notI, elim exE) (rule quiet_no_step)
  then show ?thesis using \<open>?R s13\<close> by (intro exI [of _ s13]) (simp add: d)
qed

end
