(* ===== verification/Pool_Futures.thy ===== *)
theory Pool_Futures
  imports Task_Model Thread_Pool_Properties WS_Thread_Pool_Properties
begin

text \<open>
  The pools of \<open>Thread_Pool\<close> and \<open>WS_Thread_Pool\<close> hand out tasks without looking into them; here they are the
  tasks of \<open>Task_Model\<close>, made by \<open>submit\<close>, \<open>submitVoid\<close> and \<open>trySubmit\<close>, and running them acts on the
  futures. A task's execution counts as one step on the world, at the place it has in the log of
  executed tasks.
\<close>

section \<open>Running the tasks\<close>

datatype ('u, 'r) request =
    Rq_future nat "('u, 'r) user_fun"      \<comment> \<open>\<open>submit\<close>, with the future's number\<close>
  | Rq_void "('u, 'r) user_fun"            \<comment> \<open>\<open>submitVoid\<close>, \<open>trySubmit\<close>\<close>

fun request_task :: "('u, 'r) tracing \<Rightarrow> ('u, 'r) request \<times> ('u, 'r) world \<Rightarrow> ('u, 'r) world task" where
  "request_task t (Rq_future k f, w0) = fst (submit_task t k f w0)"
| "request_task t (Rq_void f, w0) = fst (submitVoid_task t f w0)"

text \<open>\<open>task.execute()\<close> in the loops of the workers: an exception that escapes ends the program.\<close>

fun run_tasks :: "'w task list \<Rightarrow> 'w callable" where
  "run_tasks [] w = (None, w)"
| "run_tasks (t # ts) w =
     (case task_execute t w of
        (Some e, w') \<Rightarrow> (Some e, w')
      | (None, w') \<Rightarrow> run_tasks ts w')"

section \<open>What the futures hold\<close>

definition outcome :: "('u, 'r) user_fun \<Rightarrow> 'u \<times> u64 \<Rightarrow> 'r future" where
  "outcome f a = (case fst (f a) of Inr r \<Rightarrow> Ready r | Inl e \<Rightarrow> Raised e)"

text \<open>A sink that does not throw and leaves the futures alone.\<close>

definition quiet :: "('u, 'r) tracing \<Rightarrow> bool" where
  "quiet t \<longleftrightarrow> (\<forall>sink tr w. trc_sink t = Some sink \<longrightarrow> fst (sink tr w) = None \<and> w_futures (snd (sink tr w)) = w_futures w)"

definition keys :: "('u, 'r) request list \<Rightarrow> nat list" where
  "keys rs = concat (map (\<lambda>r. case r of Rq_future k f \<Rightarrow> [k] | Rq_void f \<Rightarrow> []) rs)"

lemma keys_simps [simp]:
  "keys [] = []" "keys (Rq_future k f # rs) = k # keys rs" "keys (Rq_void f # rs) = keys rs"
  by (simp_all add: keys_def)

lemma keys_member: "Rq_future k f \<in> set rs \<Longrightarrow> k \<in> set (keys rs)"
  by (force simp: keys_def)

lemma keys_sum: "mset (keys rs) = (\<Sum>r\<in>#mset rs. case r of Rq_future k f \<Rightarrow> {#k#} | Rq_void f \<Rightarrow> {#})"
proof (induction rs)
  case (Cons r rs)
  then show ?case by (cases r) simp_all
qed simp

lemma keys_mset: "mset rs = mset rs' \<Longrightarrow> mset (keys rs) = mset (keys rs')"
  by (simp only: keys_sum)

lemma execute_request:
  assumes "quiet t"
  shows "\<exists>w'. task_execute (request_task t (r, w0)) w = (None, w') \<and>
    w_futures w' = (case r of
      Rq_future k f \<Rightarrow> (w_futures w)(k := outcome f (w_user w, w_clock w)) | Rq_void f \<Rightarrow> w_futures w)"
proof -
  have "fst (task_execute (request_task t (r, w0)) w) = None \<and>
    w_futures (snd (task_execute (request_task t (r, w0)) w)) = (case r of
      Rq_future k f \<Rightarrow> (w_futures w)(k := outcome f (w_user w, w_clock w)) | Rq_void f \<Rightarrow> w_futures w)"
    using assms
    by (cases r) (auto simp: quiet_def submit_task_def submitVoid_task_def makeTraceableTask_def task_execute_def
        task_make_def traced_def nextTaskId_def nowNs_def packaged_result guarded_void_result call_user_def Let_def
        outcome_def split: option.splits prod.splits sum.splits)
  then show ?thesis by (metis prod.collapse)
qed

lemma run_requests:
  assumes "quiet t" "distinct (keys (map fst rs))"
  shows "fst (run_tasks (map (request_task t) rs) w) = None \<and>
    (\<forall>k f. Rq_future k f \<in> set (map fst rs) \<longrightarrow>
      (\<exists>a. w_futures (snd (run_tasks (map (request_task t) rs) w)) k = outcome f a)) \<and>
    (\<forall>k. k \<notin> set (keys (map fst rs)) \<longrightarrow>
      w_futures (snd (run_tasks (map (request_task t) rs) w)) k = w_futures w k)"
  using assms(2)
proof (induction rs arbitrary: w)
  case (Cons p rs)
  obtain r w0 where p: "p = (r, w0)" by fastforce
  obtain w' where w': "task_execute (request_task t (r, w0)) w = (None, w')"
      "w_futures w' = (case r of
        Rq_future k f \<Rightarrow> (w_futures w)(k := outcome f (w_user w, w_clock w)) | Rq_void f \<Rightarrow> w_futures w)"
    using execute_request [OF assms(1)] by blast
  have "distinct (keys (map fst rs))" using Cons.prems p by (cases r) simp_all
  note IH = Cons.IH [OF this, of w']
  show ?case
  proof (cases r)
    case (Rq_future k f)
    have k: "k \<notin> set (keys (map fst rs))" using Cons.prems p Rq_future by simp
    then have "w_futures (snd (run_tasks (map (request_task t) rs) w')) k = outcome f (w_user w, w_clock w)"
      using IH w'(2) Rq_future by simp
    then show ?thesis using IH k w' p Rq_future by (auto dest: keys_member)
  next
    case (Rq_void f)
    then show ?thesis using IH w' p by simp
  qed
qed simp

lemma mset_map_split: "mset ts = mset (map g rs) \<Longrightarrow> \<exists>rs'. mset rs' = mset rs \<and> ts = map g rs'"
proof (induction ts arbitrary: rs)
  case (Cons t ts)
  have "t \<in># mset (map g rs)" unfolding Cons.prems [symmetric] by simp
  then obtain r where r: "r \<in> set rs" "t = g r" by auto
  obtain us where us: "mset rs = add_mset r (mset us)" using r(1) mset_remove1 [of r rs] by (metis insert_DiffM in_multiset_in_set)
  have "add_mset t (mset ts) = add_mset t (mset (map g us))"
    using Cons.prems unfolding mset_map us r(2) by simp
  then have "mset ts = mset (map g us)" by simp
  then obtain rs' where rs': "mset rs' = mset us" "ts = map g rs'" using Cons.IH by blast
  show ?case
  proof (intro exI conjI)
    show "mset (r # rs') = mset rs" using us rs'(1) by simp
    show "t # ts = map g (r # rs')" using r(2) rs'(2) by simp
  qed
qed simp

text \<open>The tasks may run in any order.\<close>

lemma run_accepted:
  assumes "quiet t" "distinct (keys (map fst rs))" "mset ts = mset (map (request_task t) rs)"
  shows "fst (run_tasks ts w) = None \<and>
    (\<forall>k f. Rq_future k f \<in> set (map fst rs) \<longrightarrow> (\<exists>a. w_futures (snd (run_tasks ts w)) k = outcome f a)) \<and>
    (\<forall>k. k \<notin> set (keys (map fst rs)) \<longrightarrow> w_futures (snd (run_tasks ts w)) k = w_futures w k)"
proof -
  obtain rs' where rs': "mset rs' = mset rs" "ts = map (request_task t) rs'"
    using mset_map_split [OF assms(3)] by blast
  have m: "mset (map fst rs') = mset (map fst rs)" using rs'(1) by simp
  have k: "mset (keys (map fst rs')) = mset (keys (map fst rs))" by (rule keys_mset [OF m])
  have "distinct (keys (map fst rs'))" using assms(2) mset_eq_imp_distinct_iff [OF k] by simp
  from run_requests [OF assms(1) this, of w] show ?thesis
    unfolding rs'(2) mset_eq_setD [OF m] mset_eq_setD [OF k] .
qed

section \<open>The pools\<close>

text \<open>C31: what a client of \<open>ThreadPool\<close> relies on: once \<open>shutdown\<close> has run through (at least one worker, a
  quiet sink, one future per call), running the executed tasks let no exception escape into a worker
  thread, the future of every accepted \<open>submit\<close> holds the result or the exception of its own
  function, and no other future was touched.\<close>

theorem thread_pool_futures_resolve:
  assumes "reach (tp_init q p) (tp_step n m) s" "0 < n" "tp_cl s c = H_done"
    and "tp_accepted s = map (request_task t) rs" "distinct (keys (map fst rs))" "quiet t"
  shows "fst (run_tasks (tp_executed s) w) = None \<and>
    (\<forall>k f. Rq_future k f \<in> set (map fst rs) \<longrightarrow>
      (\<exists>a. w_futures (snd (run_tasks (tp_executed s) w)) k = outcome f a)) \<and>
    (\<forall>k. k \<notin> set (keys (map fst rs)) \<longrightarrow> w_futures (snd (run_tasks (tp_executed s) w)) k = w_futures w k)"
  by (rule run_accepted [OF assms(6,5)]) (simp only: tp_shutdown_done(4) [OF assms(1-3)] assms(4))

theorem thread_pool_futures_resolve_witness:
  "let trc = \<lparr>trc_enabled = False, trc_sink = None\<rparr>; f = \<lambda>(u, c). (Inr (u + 5), (u + 1, c));
      w = \<lparr>w_user = 1, w_futures = \<lambda>_. Pending, w_failed = 0, w_next_id = 0, w_clock = 0\<rparr> :: (nat, nat) world in
    \<exists>s. reach (tp_init 2 BLOCK) (tp_step 1 1) s \<and> tp_cl s 0 = H_done \<and>
      tp_accepted s = [request_task trc (Rq_future 7 f, w)] \<and>
      (\<exists>a. w_futures (snd (run_tasks (tp_executed s) w)) 7 = outcome f a) \<and>
      w_futures (snd (run_tasks (tp_executed s) w)) 8 = Pending"
proof -
  let ?f = "\<lambda>(u, c). (Inr (u + 5), (u + 1, c)) :: (exn + nat) \<times> nat \<times> u64"
  let ?w = "\<lparr>w_user = 1, w_futures = \<lambda>_. Pending, w_failed = 0, w_next_id = 0, w_clock = 0\<rparr> :: (nat, nat) world"
  let ?trc = "\<lparr>trc_enabled = False, trc_sink = None\<rparr> :: (nat, nat) tracing"
  let ?t = "request_task ?trc (Rq_future 7 ?f, ?w)"
  obtain r :: "(nat, nat) world task ring" where r: "rb_new 2 = Inr r" "\<not> rb_full r" using rb_new_2_room by blast
  obtain s where s: "reach (tp_init 2 BLOCK) (tp_step 1 1) s" "tp_cl s 0 = H_done" "tp_accepted s = [?t]"
    using tp_run_done [OF r, of BLOCK ?t] by blast
  have "quiet ?trc" by (simp add: quiet_def)
  then show ?thesis
    using thread_pool_futures_resolve [OF s(1) _ s(2), where t = ?trc and rs = "[(Rq_future 7 ?f, ?w)]" and w = ?w] s
    unfolding Let_def by (intro exI [of _ s]) simp
qed

text \<open>The same for \<open>WorkStealingThreadPool\<close>, for the tasks that were not left in the entry queue.\<close>

theorem ws_pool_futures_resolve:
  assumes "reach (ws_init q p) (ws_step (ws_num_threads k) m) s" "ws_cl s c = S_done" "ws_late s = []"
    and "ws_accepted s = map (request_task t) rs" "distinct (keys (map fst rs))" "quiet t"
  shows "fst (run_tasks (ws_executed s) w) = None \<and>
    (\<forall>k f. Rq_future k f \<in> set (map fst rs) \<longrightarrow>
      (\<exists>a. w_futures (snd (run_tasks (ws_executed s) w)) k = outcome f a)) \<and>
    (\<forall>k. k \<notin> set (keys (map fst rs)) \<longrightarrow> w_futures (snd (run_tasks (ws_executed s) w)) k = w_futures w k)"
proof (rule run_accepted [OF assms(6,5)])
  show "mset (ws_executed s) = mset (map (request_task t) rs)"
    using ws_shutdown_done(2,3) [OF assms(1,2)] assms(3,4) by simp
qed

end
