(* ===== verification/Pool_Program.thy ===== *)
theory Pool_Program
  imports Thread_Pool_Progress
begin

text \<open>
  Programs around a \<open>ThreadPool\<close>: some of its clients submit tasks (\<open>producers\<close>) and one more, numbered
  \<open>producers\<close>, shuts it down when they are done. What the steps inside the pool leave to the program, and
  a contract (\<open>pool_program\<close>) under which the program can always bring its pool to rest.
\<close>

section \<open>Callers of the pool\<close>

text \<open>A step of the pool's threads in which no client starts a call.\<close>

definition tp_inside :: "nat \<Rightarrow> nat \<Rightarrow> 't pool \<Rightarrow> 't pool \<Rightarrow> bool" where
  "tp_inside n producers t t' \<longleftrightarrow>
     tp_step n (Suc producers) t t' \<and> (\<forall>c. tp_cl t c = L_idle \<longrightarrow> tp_cl t' c = L_idle)"

text \<open>Where a producer's call and the main thread's call can be; the task a producer has not handed over yet.\<close>

fun producer_pc :: "'t cl_pc \<Rightarrow> bool" where
  "producer_pc L_idle = True"
| "producer_pc (L_lock k x) = (k = Submit)"
| "producer_pc (L_crit k x) = (k = Submit)"
| "producer_pc (L_asleep x) = True"
| "producer_pc (L_unlock r) = (r = R_accepted)"
| "producer_pc L_notify = True"
| "producer_pc (L_end r) = (r = R_accepted)"
| "producer_pc _ = False"

fun shutdown_pc :: "'t cl_pc \<Rightarrow> bool" where
  "shutdown_pc L_idle = True"
| "shutdown_pc H_lock = True"
| "shutdown_pc H_crit = True"
| "shutdown_pc H_unlock_return = True"
| "shutdown_pc H_unlock = True"
| "shutdown_pc H_notify_workers = True"
| "shutdown_pc H_notify_producers = True"
| "shutdown_pc H_spin = True"
| "shutdown_pc (H_join k) = True"
| "shutdown_pc H_done = True"
| "shutdown_pc _ = False"

fun pending :: "'t cl_pc \<Rightarrow> 't multiset" where
  "pending (L_lock k x) = {#x#}"
| "pending (L_crit k x) = {#x#}"
| "pending (L_asleep x) = {#x#}"
| "pending _ = {#}"

definition callers_ok :: "nat \<Rightarrow> 't pool \<Rightarrow> bool" where
  "callers_ok producers t \<longleftrightarrow> tp_policy t = BLOCK \<and>
     (\<forall>c<producers. producer_pc (tp_cl t c)) \<and> shutdown_pc (tp_cl t producers) \<and>
     (tp_stop t \<or> tp_cl t producers \<noteq> L_idle \<longrightarrow> (\<forall>c<producers. tp_cl t c = L_idle))"

definition given :: "nat \<Rightarrow> 't pool \<Rightarrow> 't multiset" where
  "given producers t = mset (tp_accepted t) + (\<Sum>c<producers. pending (tp_cl t c))"

lemma pool_ok_frame:
  assumes "callers_ok producers t" "tp_policy t' = tp_policy t" "shutdown_pc (tp_cl t' producers)"
    and "\<And>c. c < producers \<Longrightarrow> tp_cl t' c = tp_cl t c \<or> (\<exists>x. tp_cl t c = L_asleep x \<and> tp_cl t' c = L_lock Submit x)"
    and "tp_accepted t' = tp_accepted t"
    and "tp_stop t' \<or> tp_cl t' producers \<noteq> L_idle \<Longrightarrow> tp_stop t \<or> tp_cl t producers \<noteq> L_idle"
  shows "callers_ok producers t' \<and> given producers t' = given producers t"
proof -
  have "producer_pc (tp_cl t' c) \<and> pending (tp_cl t' c) = pending (tp_cl t c)" if "c < producers" for c
    using assms(1) assms(4) [OF that] that by (auto simp: callers_ok_def)
  moreover have "tp_cl t' c = L_idle" if "tp_stop t \<or> tp_cl t producers \<noteq> L_idle" "c < producers" for c
    using assms(1) assms(4) [OF that(2)] that by (auto simp: callers_ok_def)
  ultimately show ?thesis using assms by (auto simp: callers_ok_def given_def)
qed

lemma pool_ok_client:
  assumes "callers_ok producers t" "c < producers" "tp_cl t' = (tp_cl t)(c := q)" "producer_pc q"
    and "tp_policy t' = tp_policy t" "tp_stop t' = tp_stop t" "tp_cl t c \<noteq> L_idle"
    and "mset (tp_accepted t') + pending q = mset (tp_accepted t) + pending (tp_cl t c)"
  shows "callers_ok producers t' \<and> given producers t' = given producers t"
proof
  show "callers_ok producers t'" using assms(1-7) by (auto simp: callers_ok_def)
  have "(\<Sum>d<producers. pending (tp_cl t' d)) + pending (tp_cl t c) = (\<Sum>d<producers. pending (tp_cl t d)) + pending q"
    using sum_thread_update [OF assms(2), of pending "tp_cl t" q] assms(3) by simp
  then have "given producers t' + (pending (tp_cl t c) + pending q) = given producers t + (pending (tp_cl t c) + pending q)"
    using assms(8) by (simp add: given_def ac_simps)
  then show "given producers t' = given producers t" by simp
qed

lemma cl_step_pool_ok:
  assumes ok: "callers_ok producers t" and st: "cl_step n (Suc producers) t t'"
    and idle: "\<forall>c. tp_cl t c = L_idle \<longrightarrow> tp_cl t' c = L_idle"
  shows "callers_ok producers t' \<and> given producers t' = given producers t"
proof -
  have c: "c < producers" if "c < Suc producers" "\<not> shutdown_pc (tp_cl t c)" for c
    using ok that by (auto simp: callers_ok_def less_Suc_eq)
  have pc: "producer_pc (tp_cl t c)" "tp_cl t c \<noteq> L_idle \<Longrightarrow> \<not> tp_stop t \<and> tp_policy t = BLOCK" if "c < producers" for c
    using ok that by (auto simp: callers_ok_def)
  from st show ?thesis
  proof cases
    case (c_submit d x)
    then show ?thesis using idle by auto
  next
    case (c_try d x)
    then show ?thesis using idle by auto
  next
    case (c_try_stopped d x)
    then show ?thesis using c [of d] pc(1) [of d] by auto
  next
    case (c_try_go d x)
    then show ?thesis using c [of d] pc(1) [of d] by auto
  next
    case (c_lock d k x)
    then show ?thesis using c [of d] pc(1) [of d] by (intro pool_ok_client [OF ok, of d]) auto
  next
    case (c_wait d k x)
    then show ?thesis using c [of d] pc(1) [of d] by (intro pool_ok_client [OF ok, of d]) auto
  next
    case (c_reject d k x)
    then show ?thesis using c [of d] pc [of d] admit_block [of t x] by auto
  next
    case (c_throw d k x e)
    then show ?thesis using c [of d] pc [of d] admit_block [of t x e] by auto
  next
    case (c_accept d k x r)
    then show ?thesis using c [of d] pc(1) [of d] by (intro pool_ok_client [OF ok, of d]) auto
  next
    case (c_wake d x)
    then show ?thesis using c [of d] pc(1) [of d] by (intro pool_ok_client [OF ok, of d]) auto
  next
    case (c_unlock d r)
    then show ?thesis using c [of d] pc(1) [of d] by (intro pool_ok_client [OF ok, of d]) auto
  next
    case (c_notify d i)
    then show ?thesis using c [of d] pc(1) [of d] by (intro pool_ok_client [OF ok, of d]) auto
  next
    case (c_notify_none d)
    then show ?thesis using c [of d] pc(1) [of d] by (intro pool_ok_client [OF ok, of d]) auto
  next
    case (c_end d r)
    then show ?thesis using c [of d] pc(1) [of d] by (intro pool_ok_client [OF ok, of d]) auto
  qed
qed

lemma wk_step_pool_ok:
  assumes ok: "callers_ok producers t" and st: "wk_step n t t'"
  shows "callers_ok producers t' \<and> given producers t' = given producers t"
proof (rule pool_ok_frame [OF ok])
  note f = wk_step_frame [OF st]
  have main: "tp_cl t' producers = tp_cl t producers"
    using ok f(5) [of producers] by (auto simp: callers_ok_def)
  show "tp_policy t' = tp_policy t" by (rule f(2))
  show "shutdown_pc (tp_cl t' producers)" using ok main by (simp add: callers_ok_def)
  show "tp_cl t' c = tp_cl t c \<or> (\<exists>x. tp_cl t c = L_asleep x \<and> tp_cl t' c = L_lock Submit x)" for c
    by (rule f(5))
  show "tp_accepted t' = tp_accepted t" using st by cases auto
  show "tp_stop t \<or> tp_cl t producers \<noteq> L_idle" if "tp_stop t' \<or> tp_cl t' producers \<noteq> L_idle"
    using that f(1) main by simp
qed

lemma sd_step_pool_ok:
  assumes ok: "callers_ok producers t" and st: "sd_step n (Suc producers) t t'"
    and idle: "\<forall>c. tp_cl t c = L_idle \<longrightarrow> tp_cl t' c = L_idle"
  shows "callers_ok producers t' \<and> given producers t' = given producers t"
proof -
  have c: "c = producers" if "c < Suc producers" "\<not> producer_pc (tp_cl t c)" for c
    using ok that by (auto simp: callers_ok_def less_Suc_eq)
  have wake: "wake_client p = p \<or> (\<exists>x. p = L_asleep x \<and> wake_client p = L_lock Submit x)" for p :: "'t cl_pc"
    by (cases p) auto
  from st show ?thesis
  proof cases
    case (h_call d)
    then show ?thesis using idle by auto
  next
    case (h_notify_producers d)
    then show ?thesis using c [of d] wake by (intro pool_ok_frame [OF ok]) auto
  next
    case (h_spin d)
    then show ?thesis using ok by simp
  qed (rule pool_ok_frame [OF ok]; use c in fastforce)+
qed

lemma inside_callers_ok:
  assumes "callers_ok producers t" "tp_inside n producers t t'"
  shows "callers_ok producers t'" "given producers t' = given producers t"
  using cl_step_pool_ok [OF assms(1)] wk_step_pool_ok [OF assms(1)] sd_step_pool_ok [OF assms(1)] assms(2)
  by (auto simp: tp_inside_def tp_step_def)

text \<open>Before \<open>shutdown\<close> is called nobody stops the pool.\<close>

lemma inside_main_idle:
  assumes "callers_ok producers t" "tp_inside n producers t t'" "tp_cl t producers = L_idle"
  shows "tp_stop t' = tp_stop t \<and> tp_cl t' producers = L_idle"
proof
  have st: "wk_step n t t' \<or> cl_step n (Suc producers) t t' \<or> sd_step n (Suc producers) t t'"
    and idle: "\<forall>c. tp_cl t c = L_idle \<longrightarrow> tp_cl t' c = L_idle"
    using assms(2) by (auto simp: tp_inside_def tp_step_def)
  show "tp_cl t' producers = L_idle" using idle assms(3) by blast
  have c: "producer_pc (tp_cl t c)" if "c < Suc producers" for c
    using assms(1,3) that by (auto simp: callers_ok_def less_Suc_eq)
  have "\<not> sd_step n (Suc producers) t t'"
  proof
    assume "sd_step n (Suc producers) t t'"
    then show False by cases (use c idle in force)+
  qed
  then show "tp_stop t' = tp_stop t" using st wk_step_frame(1) cl_step_frame(1) by blast
qed

lemma tp_step_executed: "tp_step n m t t' \<Longrightarrow> tp_executed t' = tp_executed t \<or> (\<exists>x. tp_executed t' = tp_executed t @ [x])"
  unfolding tp_step_def by (elim disjE wk_step.cases cl_step.cases sd_step.cases) simp_all

section \<open>The pool of a program comes to rest\<close>

text \<open>
  A program with a pool in its state: its invariant says that the pool is one that \<open>m\<close> clients and \<open>n\<close>
  workers can get to, and the program takes every working step of the pool without moving on itself
  (\<open>rest\<close> is what it keeps to itself).
\<close>

locale pool_program =
  fixes n m :: nat and queue_size :: size_t and p :: policy
    and trans :: "'s \<Rightarrow> 's \<Rightarrow> bool" and inv :: "'s \<Rightarrow> bool" and pool :: "'s \<Rightarrow> 't pool" and rest :: "'s \<Rightarrow> 'r"
  assumes threads: "inv s \<Longrightarrow> 0 < n \<and> m < 2 ^ 32"
    and pool_reach: "inv s \<Longrightarrow> reach (tp_init queue_size p) (tp_step n m) (pool s)"
    and keeps: "inv s \<Longrightarrow> trans s s' \<Longrightarrow> inv s'"
    and follows: "inv s \<Longrightarrow> tp_works n m (pool s) t \<Longrightarrow> \<exists>s'. trans s s' \<and> pool s' = t \<and> rest s' = rest s"
begin

lemma runs_keep: "trans\<^sup>*\<^sup>* s s' \<Longrightarrow> inv s \<Longrightarrow> inv s'"
  by (induction rule: rtranclp_induct) (auto intro: keeps)

lemma runs_follow:
  assumes "(tp_works n m)\<^sup>*\<^sup>* (pool s) t" "inv s"
  shows "\<exists>s'. trans\<^sup>*\<^sup>* s s' \<and> pool s' = t \<and> rest s' = rest s"
  using assms(1)
proof (induction rule: rtranclp_induct)
  case base
  then show ?case by blast
next
  case (step t u)
  then obtain s' where s': "trans\<^sup>*\<^sup>* s s'" "pool s' = t" "rest s' = rest s" by blast
  then obtain s'' where "trans s' s''" "pool s'' = u" "rest s'' = rest s'"
    using follows [OF runs_keep [OF s'(1) assms(2)], of u] step(2) by blast
  then show ?case using s' by (metis rtranclp.rtrancl_into_rtrancl)
qed

lemma comes_to_rest:
  assumes i: "inv s"
  shows "\<exists>s'. trans\<^sup>*\<^sup>* s s' \<and> rest s' = rest s \<and> inv s' \<and> tp_finished n m (pool s')"
proof -
  note r = tp.inv_reach [OF pool_reach [OF i]] tp_reach_range [OF pool_reach [OF i]]
  obtain t where t: "(tp_works n m)\<^sup>*\<^sup>* (pool s) t" "tp_rests n m t"
    using tp_goal.reaches [of n m "pool s"] r by blast
  have "tp_finished n m t"
    using rests_finished [OF _ _ _ _ t(2)] tp_works_rtrancl [OF t(1) r] threads [OF i] by blast
  then show ?thesis using runs_follow [OF t(1) i] runs_keep [OF _ i] by metis
qed

end

end
