(* ===== verification/Pipeline_Demo.thy ===== *)
theory Pipeline_Demo
  imports Complex_Main Lock_Free_Queue Pool_Program
begin

text \<open>
  \<open>app/pipeline_demo.cpp\<close>: producer threads submit numbered tasks to a \<open>ThreadPool\<close>; every task counts itself,
  adds its number to a checksum and pushes the latency from its submission to its completion into a
  \<open>LockFreeQueue\<close>; the main thread waits for all tasks, collects the samples and evaluates them.

  The pool is the step relation of \<open>Thread_Pool\<close>, the sink is the queue of \<open>Lock_Free_Queue\<close>. A task's body is
  one step, as everywhere in the pools. A reading of the clock is an arbitrary number. The number of tasks per
  producer is an \<open>int\<close> and may be negative: a loop then does nothing, but \<open>total\<close> is computed from it modulo \<open>2 ^ 64\<close>.
  The numbers of producers and workers are those with which the loops that start them run; \<open>Pipeline_Report\<close>
  converts the command line's.
\<close>

section \<open>Evaluating the samples\<close>

text \<open>\<open>percentile\<close>. \<open>rnd\<close> rounds the exact product to a \<open>double\<close>; a \<open>double\<close> is a rational number.\<close>

definition percentile :: "(rat \<Rightarrow> rat) \<Rightarrow> u64 list \<Rightarrow> rat \<Rightarrow> u64" where
  "percentile rnd sorted_xs p =
     (if sorted_xs = [] then 0
      else let idx = nat \<lfloor>rnd (p * rnd (of_nat (length sorted_xs - 1)))\<rfloor> in sorted_xs ! idx)"

text \<open>What IEEE 754 promises of rounding to a \<open>double\<close>: it is monotone and keeps integers of at most 53 bits.\<close>

definition ieee_rounding :: "(rat \<Rightarrow> rat) \<Rightarrow> bool" where
  "ieee_rounding rnd \<longleftrightarrow> (\<forall>x y. x \<le> y \<longrightarrow> rnd x \<le> rnd y) \<and> (\<forall>k. \<bar>k\<bar> \<le> 2 ^ 53 \<longrightarrow> rnd (of_int k) = of_int k)"

section \<open>The program\<close>

record pipe_result =
  pr_total :: u64
  pr_processed :: u64
  pr_checksum :: u64
  pr_expect :: u64
  pr_dropped :: u64
  pr_elapsed :: u64
  pr_lat :: "u64 list"

text \<open>A task carries its number and the time of its submission.\<close>

type_synonym item = "u64 \<times> u64"

record tally =
  ps_processed :: u64
  ps_checksum :: u64
  ps_dropped :: u64
  ps_sink :: "u64 lfq"

text \<open>The body of a task; \<open>None\<close> would be a \<open>push\<close> that retries.\<close>

fun pl_task :: "item \<Rightarrow> u64 \<Rightarrow> tally \<Rightarrow> tally option" where
  "pl_task (seq, t0) now w =
     (let w1 = w\<lparr>ps_processed := ps_processed w + 1, ps_checksum := ps_checksum w + seq\<rparr>;
          lat = now - t0
      in case lf_push 1 lat (ps_sink w1) of
           None \<Rightarrow> None
         | Some (True, q) \<Rightarrow> Some (w1\<lparr>ps_sink := q\<rparr>)
         | Some (False, q) \<Rightarrow> Some (w1\<lparr>ps_sink := q, ps_dropped := ps_dropped w1 + 1\<rparr>))"

text \<open>The pacing loop of a producer, once around.\<close>

datatype pace = Pace_go | Pace_sleep u64 | Pace_spin

definition pace_at :: "u64 \<Rightarrow> u64 \<Rightarrow> nat \<Rightarrow> u64 \<Rightarrow> pace" where
  "pace_at origin period_ns i now =
     (let deadline = origin + period_ns * of_nat (i + 1) in
      if deadline \<le> now then Pace_go
      else let remain = deadline - now in
        if remain > 20000 then Pace_sleep (remain - 10000) else Pace_spin)"

definition pl_seq :: "int \<Rightarrow> nat \<Rightarrow> nat \<Rightarrow> u64" where
  "pl_seq per p i = of_nat p * of_int per + of_nat i"

definition pl_total :: "nat \<Rightarrow> int \<Rightarrow> u64" where
  "pl_total producers per = of_nat producers * of_int per"

definition expect_checksum :: "u64 \<Rightarrow> u64" where
  "expect_checksum n = n * (n - 1) div 2"

datatype main_pc =
    M_join | M_wait
  | M_load u64                  \<comment> \<open>with \<open>t_end\<close>\<close>
  | M_drain pipe_result | M_shutdown pipe_result | M_shutting pipe_result | M_return pipe_result

text \<open>Producers are the clients \<open>0, \<dots>, producers - 1\<close> of the pool, the main thread is the next one.
  \<open>pl_next p\<close> is the variable \<open>i\<close> of producer \<open>p\<close>.\<close>

record pipe =
  pl_pool :: "item pool"
  pl_sums :: tally
  pl_next :: "nat \<Rightarrow> nat"
  pl_origin :: "nat \<Rightarrow> u64"
  pl_start :: u64
  pl_main :: main_pc

definition pl_init :: "pipe \<Rightarrow> bool" where
  "pl_init s \<longleftrightarrow> tp_init 65536 BLOCK (pl_pool s) \<and> pl_next s = (\<lambda>_. 0) \<and> pl_main s = M_join \<and>
     (\<exists>q. lf_new 0 (push_bit 20 1) = Inr q \<and>
       pl_sums s = \<lparr>ps_processed = 0, ps_checksum = 0, ps_dropped = 0, ps_sink = q\<rparr>)"

inductive pl_step :: "nat \<Rightarrow> nat \<Rightarrow> int \<Rightarrow> u64 \<Rightarrow> pipe \<Rightarrow> pipe \<Rightarrow> bool"
  for workers producers :: nat and per :: int and period_ns :: u64 where
  pl_other: "tp_inside workers producers (pl_pool s) t \<Longrightarrow> tp_executed t = tp_executed (pl_pool s) \<Longrightarrow>
    pl_step workers producers per period_ns s (s\<lparr>pl_pool := t\<rparr>)"
| pl_run: "tp_inside workers producers (pl_pool s) t \<Longrightarrow> tp_executed t = tp_executed (pl_pool s) @ [x] \<Longrightarrow>
    pl_task x now (pl_sums s) = Some w \<Longrightarrow>
    pl_step workers producers per period_ns s (s\<lparr>pl_pool := t, pl_sums := w\<rparr>)"
| pl_submit: "p < producers \<Longrightarrow> int (pl_next s p) < per \<Longrightarrow> tp_cl (pl_pool s) p = L_idle \<Longrightarrow>
    period_ns = 0 \<or> pace_at (pl_origin s p) period_ns (pl_next s p) now = Pace_go \<Longrightarrow>
    pl_step workers producers per period_ns s
      (s\<lparr>pl_pool := cl_to p (L_lock Submit (pl_seq per p (pl_next s p), t0))
            ((pl_pool s)\<lparr>tp_active := tp_active (pl_pool s) + 1\<rparr>),
         pl_next := (pl_next s)(p := pl_next s p + 1)\<rparr>)"
| pl_join: "pl_main s = M_join \<Longrightarrow> (\<forall>p<producers. \<not> int (pl_next s p) < per \<and> tp_cl (pl_pool s) p = L_idle) \<Longrightarrow>
    pl_step workers producers per period_ns s (s\<lparr>pl_main := M_wait\<rparr>)"
| pl_wait: "pl_main s = M_wait \<Longrightarrow> tp_completed (pl_pool s) < pl_total producers per \<Longrightarrow>
    pl_step workers producers per period_ns s s"
| pl_waited: "pl_main s = M_wait \<Longrightarrow> \<not> tp_completed (pl_pool s) < pl_total producers per \<Longrightarrow>
    pl_step workers producers per period_ns s (s\<lparr>pl_main := M_load t_end\<rparr>)"
| pl_load: "pl_main s = M_load t_end \<Longrightarrow>
    pl_step workers producers per period_ns s
      (s\<lparr>pl_main := M_drain
         \<lparr>pr_total = pl_total producers per, pr_processed = ps_processed (pl_sums s),
          pr_checksum = ps_checksum (pl_sums s), pr_expect = expect_checksum (pl_total producers per),
          pr_dropped = ps_dropped (pl_sums s), pr_elapsed = t_end - pl_start s, pr_lat = []\<rparr>\<rparr>)"
| pl_pop: "pl_main s = M_drain r \<Longrightarrow> lf_pop 1 (ps_sink (pl_sums s)) = Some (Some v, q) \<Longrightarrow>
    pl_step workers producers per period_ns s
      (s\<lparr>pl_main := M_drain (r\<lparr>pr_lat := pr_lat r @ [v]\<rparr>), pl_sums := (pl_sums s)\<lparr>ps_sink := q\<rparr>\<rparr>)"
| pl_sort: "pl_main s = M_drain r \<Longrightarrow> lf_pop 1 (ps_sink (pl_sums s)) = Some (None, q) \<Longrightarrow>
    pl_step workers producers per period_ns s (s\<lparr>pl_main := M_shutdown (r\<lparr>pr_lat := sort (pr_lat r)\<rparr>)\<rparr>)"
| pl_shutdown: "pl_main s = M_shutdown r \<Longrightarrow>
    pl_step workers producers per period_ns s
      (s\<lparr>pl_main := M_shutting r, pl_pool := cl_to producers H_lock (pl_pool s)\<rparr>)"
| pl_return: "pl_main s = M_shutting r \<Longrightarrow> tp_cl (pl_pool s) producers \<in> {H_done, L_idle} \<Longrightarrow>
    pl_step workers producers per period_ns s (s\<lparr>pl_main := M_return r\<rparr>)"

text \<open>The exit code of \<open>main\<close>.\<close>

definition pl_exit :: "pipe_result \<Rightarrow> nat" where
  "pl_exit r = (if pr_checksum r = pr_expect r then 0 else 1)"

section \<open>Properties\<close>

text \<open>A producer that sleeps for its deadline wakes up before it.\<close>

lemma pace_sleep_bound:
  assumes "pace_at origin period_ns i now = Pace_sleep d"
  shows "now < origin + period_ns * of_nat (i + 1)" "d < origin + period_ns * of_nat (i + 1) - now"
proof -
  let ?r = "origin + period_ns * of_nat (i + 1) - now"
  have r: "now < origin + period_ns * of_nat (i + 1)" "20000 < ?r" "d = ?r - 10000"
    using assms by (auto simp: pace_at_def Let_def not_le split: if_splits)
  show "now < origin + period_ns * of_nat (i + 1)" by (rule r(1))
  show "d < ?r" using r(2,3) by (simp add: word_less_nat_alt unat_sub_if_size)
qed

text \<open>\<open>percentile\<close> never indexes out of range, although the index is computed in floating point: for
  \<open>0 \<le> p \<le> 1\<close> and at most \<open>2 ^ 53\<close> sorted samples it returns one of them, the first for 0, the last for 1,
  and never less for a larger \<open>p\<close>; without samples it returns 0.\<close>

lemma percentile_in_range:
  assumes "ieee_rounding rnd" "sorted xs" "xs \<noteq> []" "length xs \<le> 2 ^ 53" "0 \<le> p" "p \<le> q" "q \<le> 1"
  shows "percentile rnd xs p \<in> set xs \<and> percentile rnd xs p \<le> percentile rnd xs q \<and>
    percentile rnd xs 0 = xs ! 0 \<and> percentile rnd xs 1 = last xs \<and> percentile rnd [] p = 0"
proof -
  define m where "m = length xs - 1"
  define idx where "idx u = nat \<lfloor>rnd (u * of_nat m)\<rfloor>" for u :: rat
  have mono: "rnd x \<le> rnd y" if "x \<le> y" for x y using assms(1) that by (simp add: ieee_rounding_def)
  have exact: "rnd (of_int k) = of_int k" if "\<bar>k\<bar> \<le> 2 ^ 53" for k using assms(1) that by (simp add: ieee_rounding_def)
  have m: "rnd (of_nat m) = of_nat m" using exact [of "int m"] assms(4) by (simp add: m_def)
  have z: "rnd 0 = 0" using exact [of 0] by simp
  have val: "percentile rnd xs u = xs ! idx u" for u using assms(3) m by (simp add: percentile_def idx_def m_def)
  have le: "idx u \<le> idx v" if "u \<le> v" for u v
  proof -
    have "u * of_nat m \<le> v * of_nat m" using that by (simp add: mult_right_mono)
    then show ?thesis unfolding idx_def by (intro nat_mono floor_mono mono)
  qed
  have ends: "idx 0 = 0" "idx 1 = m" by (simp_all add: idx_def z m)
  have "idx p \<le> m" "idx q \<le> m" using le [of p 1] le [of q 1] assms(6,7) ends by auto
  then have "idx p < length xs" "idx q < length xs" using assms(3) by (cases xs; simp add: m_def)+
  then show ?thesis
    using val ends le [OF assms(6)] assms(2,3) by (simp add: sorted_nth_mono last_conv_nth m_def) (simp add: percentile_def)
qed

text \<open>A rounding: down to multiples of \<open>2 ^ -20\<close>.\<close>

definition round_down :: "rat \<Rightarrow> rat" where
  "round_down x = of_int \<lfloor>x * 2 ^ 20\<rfloor> / 2 ^ 20"

lemma round_down_ieee: "ieee_rounding round_down"
  unfolding ieee_rounding_def
proof (intro conjI allI impI)
  show "round_down x \<le> round_down y" if "x \<le> y" for x y
    using that by (simp add: round_down_def divide_right_mono floor_mono)
  show "round_down (of_int k) = of_int k" for k
  proof -
    have "(of_int k :: rat) * 2 ^ 20 = of_int (k * 2 ^ 20)" by simp
    then show ?thesis unfolding round_down_def by (simp only: floor_of_int) simp
  qed
qed

end
