(* ===== verification/Pipeline_Demo_Correct.thy ===== *)
theory Pipeline_Demo_Correct
  imports Pipeline_Demo
begin

text \<open>
  The pipeline as a whole: an invariant ties the numbers submitted to the tasks in the pool, the tasks executed to the
  sums and the sink, and both to the point the main thread has reached; from it follow the result, and that
  the program can always go on to its end.
\<close>

section \<open>The numbers of the tasks\<close>

text \<open>The tasks of producer \<open>p\<close> have the numbers \<open>p * per, \<dots>, p * per + per - 1\<close>.\<close>

definition pl_numbers :: "nat \<Rightarrow> nat \<Rightarrow> (nat \<Rightarrow> nat) \<Rightarrow> u64 multiset" where
  "pl_numbers producers per nxt = (\<Sum>p<producers. mset (map (pl_seq (int per) p) [0..<nxt p]))"

lemma pl_numbers_step:
  assumes "p < producers"
  shows "pl_numbers producers per (nxt(p := nxt p + 1)) = add_mset (pl_seq (int per) p (nxt p)) (pl_numbers producers per nxt)"
proof -
  define f where "f = (\<lambda>u :: nat \<times> nat. mset (map (pl_seq (int per) (fst u)) [0..<snd u]))"
  define pc where "pc = (\<lambda>u. (u, nxt u))"
  have "pl_numbers producers per (nxt(p := nxt p + 1)) = (\<Sum>u<producers. f ((pc(p := (p, nxt p + 1))) u))"
    unfolding pl_numbers_def f_def pc_def by (rule sum.cong) auto
  moreover have "pl_numbers producers per nxt = (\<Sum>u<producers. f (pc u))"
    by (simp add: pl_numbers_def f_def pc_def)
  moreover have "f (p, nxt p + 1) = add_mset (pl_seq (int per) p (nxt p)) (f (pc p))"
    by (simp add: f_def pc_def del: mset_upt)
  ultimately show ?thesis
    using sum_thread_update [OF assms, of f pc "(p, nxt p + 1)"] by simp
qed

lemma pl_numbers_all: "pl_numbers producers per (\<lambda>_. per) = mset (map of_nat [0..<producers * per])"
proof (induction producers)
  case (Suc k)
  have "map (pl_seq (int per) k) [0..<per] = map of_nat [k * per..<k * per + per]"
    by (rule nth_equalityI) (simp_all add: pl_seq_def)
  moreover have "[0..<Suc k * per] = [0..<k * per] @ [k * per..<k * per + per]"
    using upt_add_eq_append [of 0 "k * per" per] by (simp add: add.commute)
  ultimately show ?case using Suc by (simp add: pl_numbers_def del: mset_upt mset_map)
qed (simp add: pl_numbers_def)


section \<open>The sums\<close>

abbreviation sink_size :: nat where
  "sink_size \<equiv> 1048576"

text \<open>The tasks \<open>xs\<close> have been executed and nothing has been taken out of the sink.\<close>

definition tally_ok :: "item list \<Rightarrow> tally \<Rightarrow> bool" where
  "tally_ok xs w \<longleftrightarrow>
     ps_processed w = of_nat (length xs) \<and> ps_checksum w = sum_list (map fst xs) \<and>
     ps_dropped w = of_nat (length xs - sink_size) \<and>
     lf_cap (ps_sink w) = sink_size \<and> length (lf_list (ps_sink w)) = min (length xs) sink_size \<and>
     lf_ok (4 * sink_size - length (lf_list (ps_sink w))) (ps_sink w)"

lemma lf_ok_mono: "lf_ok k q \<Longrightarrow> j \<le> k \<Longrightarrow> lf_ok j q"
  by (simp add: lf_ok_def)

lemma pl_init_tally:
  assumes "lf_new 0 (push_bit 20 1) = Inr q"
  shows "tally_ok [] \<lparr>ps_processed = 0, ps_checksum = 0, ps_dropped = 0, ps_sink = q\<rparr>"
proof -
  have np: "nextPowerOfTwoChecked (push_bit 20 1) = Inr (push_bit 20 1)" by code_simp
  moreover have "unat (push_bit 20 1 :: size_t) = sink_size" by simp
  ultimately have cap: "lf_cap q = sink_size" using assms by (auto simp: lf_new_def lf_cap_def simp del: push_bit_of_1)
  have "lf_ok (4 * sink_size) q" "lf_list q = []"
    by (rule lf_new_ok(1,2) [OF assms, of "4 * sink_size"]; simp add: cap)+
  then show ?thesis by (simp add: tally_ok_def cap)
qed

lemma pl_task_tally:
  assumes t: "tally_ok xs w"
  shows "\<exists>w'. pl_task x now w = Some w' \<and> tally_ok (xs @ [x]) w'"
proof -
  obtain seq t0 where x: "x = (seq, t0)" by fastforce
  let ?q = "ps_sink w" and ?L = "lf_list (ps_sink w)"
  have ok: "lf_ok (Suc (4 * sink_size - length ?L - 1)) ?q" and len: "length ?L = min (length xs) sink_size"
    and cap: "lf_cap ?q = sink_size"
    using t by (auto simp: tally_ok_def Suc_diff_le Suc_diff_Suc elim!: lf_ok_mono)
  note d = lf_okD(3,4) [OF ok] lf_list_length [of ?q]
  show ?thesis
  proof (cases "length xs < sink_size")
    case True
    then have "unat (lf_tail ?q) < unat (lf_head ?q) + lf_cap ?q" using d len cap by linarith
    then obtain q' where q': "lf_push 1 (now - t0) ?q = Some (True, q')" "lf_ok (4 * sink_size - length ?L - 1) q'"
        "lf_list q' = ?L @ [now - t0]" "lf_cap q' = lf_cap ?q"
      using lf_push_room [OF ok, of 0 "now - t0"] unfolding One_nat_def by blast
    have "lf_ok (4 * sink_size - length (lf_list q')) q'" by (rule lf_ok_mono [OF q'(2)]) (simp add: q'(3))
    then show ?thesis using t q' True len by (simp add: x tally_ok_def)
  next
    case False
    then have "unat (lf_tail ?q) = unat (lf_head ?q) + lf_cap ?q" using d len cap by simp
    then have "lf_push 1 (now - t0) ?q = Some (False, ?q)" using lf_push_full [OF ok, of 0] by simp
    then show ?thesis using t False by (auto simp: x tally_ok_def Suc_diff_le)
  qed
qed

section \<open>The main thread\<close>

definition pl_joined :: "nat \<Rightarrow> nat \<Rightarrow> pipe \<Rightarrow> bool" where
  "pl_joined producers per s \<longleftrightarrow> (\<forall>p<producers. pl_next s p = per \<and> tp_cl (pl_pool s) p = L_idle)"

definition result_ok :: "nat \<Rightarrow> pipe_result \<Rightarrow> bool" where
  "result_ok n r \<longleftrightarrow> pr_total r = of_nat n \<and> pr_processed r = of_nat n \<and> pr_checksum r = of_nat (\<Sum>{..<n}) \<and>
     pr_expect r = expect_checksum (of_nat n) \<and> pr_dropped r = of_nat (n - sink_size)"

definition result_done :: "nat \<Rightarrow> pipe_result \<Rightarrow> bool" where
  "result_done n r \<longleftrightarrow> result_ok n r \<and> length (pr_lat r) = min n sink_size \<and> sorted (pr_lat r)"

text \<open>What holds at each point of the main thread, with \<open>n\<close> tasks to process: \<open>xs\<close> have been executed.\<close>

fun main_stage :: "nat \<Rightarrow> item list \<Rightarrow> tally \<Rightarrow> main_pc \<Rightarrow> bool" where
  "main_stage n xs w M_join = tally_ok xs w"
| "main_stage n xs w M_wait = tally_ok xs w"
| "main_stage n xs w (M_load e) = (tally_ok xs w \<and> length xs = n)"
| "main_stage n xs w (M_drain r) = (length xs = n \<and> result_ok n r \<and>
     lf_ok (2 * sink_size + length (lf_list (ps_sink w))) (ps_sink w) \<and>
     length (pr_lat r) + length (lf_list (ps_sink w)) = min n sink_size)"
| "main_stage n xs w (M_shutdown r) = (length xs = n \<and> result_done n r)"
| "main_stage n xs w (M_shutting r) = (length xs = n \<and> result_done n r)"
| "main_stage n xs w (M_return r) = (length xs = n \<and> result_done n r)"

fun in_shutdown :: "main_pc \<Rightarrow> bool" where
  "in_shutdown (M_shutting r) = True"
| "in_shutdown (M_return r) = True"
| "in_shutdown _ = False"

definition pl_inv :: "nat \<Rightarrow> nat \<Rightarrow> nat \<Rightarrow> pipe \<Rightarrow> bool" where
  "pl_inv n producers per s \<longleftrightarrow>
     reach (tp_init 65536 BLOCK) (tp_step n (Suc producers)) (pl_pool s) \<and>
     callers_ok producers (pl_pool s) \<and>
     image_mset fst (given producers (pl_pool s)) = pl_numbers producers per (pl_next s) \<and>
     (\<forall>p<producers. pl_next s p \<le> per) \<and>
     (pl_main s \<noteq> M_join \<longrightarrow> pl_joined producers per s) \<and>
     (\<not> in_shutdown (pl_main s) \<longrightarrow> \<not> tp_stop (pl_pool s) \<and> tp_cl (pl_pool s) producers = L_idle) \<and>
     main_stage (producers * per) (tp_executed (pl_pool s)) (pl_sums s) (pl_main s)"

lemma pl_invD:
  assumes "pl_inv n producers per s"
  shows "reach (tp_init 65536 BLOCK) (tp_step n (Suc producers)) (pl_pool s)" "callers_ok producers (pl_pool s)"
    "image_mset fst (given producers (pl_pool s)) = pl_numbers producers per (pl_next s)"
    "p < producers \<Longrightarrow> pl_next s p \<le> per" "pl_main s \<noteq> M_join \<Longrightarrow> pl_joined producers per s"
    "\<not> in_shutdown (pl_main s) \<Longrightarrow> \<not> tp_stop (pl_pool s) \<and> tp_cl (pl_pool s) producers = L_idle"
    "main_stage (producers * per) (tp_executed (pl_pool s)) (pl_sums s) (pl_main s)"
  using assms unfolding pl_inv_def by blast+

lemma pl_numbers_joined: "pl_joined producers per s \<Longrightarrow> pl_numbers producers per (pl_next s) = mset (map of_nat [0..<producers * per])"
  unfolding pl_numbers_all [symmetric] by (auto simp: pl_numbers_def pl_joined_def intro!: sum.cong)

lemma executed_size:
  assumes "pl_inv n producers per s" "pl_joined producers per s"
  shows "length (tp_executed (pl_pool s)) \<le> producers * per"
proof -
  have "mset (tp_executed (pl_pool s)) \<subseteq># given producers (pl_pool s)"
    using executed_given [OF pl_invD(1) [OF assms(1)]] unfolding given_def by (simp add: subset_mset.add_increasing2)
  then have "length (tp_executed (pl_pool s)) \<le> size (given producers (pl_pool s))"
    using size_mset_mono by fastforce
  also have "\<dots> = size (image_mset fst (given producers (pl_pool s)))" by simp
  also have "\<dots> = producers * per"
    unfolding pl_invD(3) [OF assms(1)] pl_numbers_joined [OF assms(2)] by (simp del: mset_map mset_upt)
  finally show ?thesis .
qed

lemma executed_all:
  assumes i: "pl_inv n producers per s" and j: "pl_joined producers per s"
    and l: "length (tp_executed (pl_pool s)) = producers * per"
  shows "mset (map fst (tp_executed (pl_pool s))) = mset (map of_nat [0..<producers * per])"
    and "mset (tp_executed (pl_pool s)) = mset (tp_accepted (pl_pool s))"
proof -
  let ?t = "pl_pool s"
  have sub: "mset (tp_executed ?t) \<subseteq># mset (tp_accepted ?t)" by (rule executed_given [OF pl_invD(1) [OF i]])
  have "(\<Sum>c<producers. pending (tp_cl ?t c)) = {#}" using j by (simp add: pl_joined_def)
  then have g: "image_mset fst (mset (tp_accepted ?t)) = mset (map of_nat [0..<producers * per])"
    using pl_invD(3) [OF i] pl_numbers_joined [OF j] by (simp add: given_def del: mset_map)
  then have "size (mset (tp_accepted ?t)) = size (mset (tp_executed ?t))"
    using l by (metis size_image_mset size_mset length_map length_upt diff_zero)
  then show e: "mset (tp_executed ?t) = mset (tp_accepted ?t)"
    using sub by (metis mset_subset_size subset_mset.le_less less_irrefl)
  show "mset (map fst (tp_executed ?t)) = mset (map of_nat [0..<producers * per])"
    using g e by simp
qed

section \<open>The invariant\<close>

text \<open>A step inside the pool keeps everything but the stage of the main thread.\<close>

lemma inside_inv:
  assumes i: "pl_inv n producers per s" and st: "tp_inside n producers (pl_pool s) t"
    and m: "main_stage (producers * per) (tp_executed t) w (pl_main s)"
  shows "pl_inv n producers per (s\<lparr>pl_pool := t, pl_sums := w\<rparr>)"
proof -
  note d = pl_invD [OF i] and ok = inside_callers_ok [OF pl_invD(2) [OF i] st]
  have "reach (tp_init 65536 BLOCK) (tp_step n (Suc producers)) t"
    by (rule reach_step [OF d(1)]) (use st in \<open>simp add: tp_inside_def\<close>)
  moreover have "pl_joined producers per s \<Longrightarrow> pl_joined producers per (s\<lparr>pl_pool := t, pl_sums := w\<rparr>)"
    using st by (auto simp: pl_joined_def tp_inside_def)
  ultimately show ?thesis
    using d ok inside_main_idle [OF d(2) st] m unfolding pl_inv_def by simp
qed

text \<open>Tasks are executed only while the main thread waits for them.\<close>

lemma run_stage:
  assumes i: "pl_inv n producers per s" and st: "tp_inside n producers (pl_pool s) t"
    and x: "tp_executed t = tp_executed (pl_pool s) @ [x]"
  shows "pl_main s \<in> {M_join, M_wait} \<and> tally_ok (tp_executed (pl_pool s)) (pl_sums s)"
proof -
  have no: "length (tp_executed (pl_pool s)) \<noteq> producers * per" if j: "pl_joined producers per s"
  proof
    assume l: "length (tp_executed (pl_pool s)) = producers * per"
    have r: "reach (tp_init 65536 BLOCK) (tp_step n (Suc producers)) t"
      by (rule reach_step [OF pl_invD(1) [OF i]]) (use st in \<open>simp add: tp_inside_def\<close>)
    have "given producers t = given producers (pl_pool s)" by (rule inside_callers_ok(2) [OF pl_invD(2) [OF i] st])
    moreover have "mset (tp_executed t) \<subseteq># given producers t"
      using executed_given [OF r] unfolding given_def by (simp add: subset_mset.add_increasing2)
    moreover have "size (given producers (pl_pool s)) = producers * per"
      using arg_cong [OF pl_invD(3) [OF i], of size] unfolding pl_numbers_joined [OF j] by (simp del: mset_map mset_upt)
    ultimately have "length (tp_executed t) \<le> producers * per" using size_mset_mono by fastforce
    then show False using l x by simp
  qed
  then show ?thesis using pl_invD(5,7) [OF i] by (cases "pl_main s") auto
qed

lemma completed_stage:
  assumes "pl_inv n producers per s" "pl_joined producers per s" "producers * per < 2 ^ 64"
    and "\<not> tp_completed (pl_pool s) < pl_total producers (int per)"
  shows "length (tp_executed (pl_pool s)) = producers * per"
proof -
  have "pl_total producers (int per) = of_nat (producers * per)" by (simp add: pl_total_def)
  then have "unat (pl_total producers (int per)) = producers * per" using assms(3) by (simp add: unat_of_nat del: of_nat_mult)
  then have "producers * per \<le> unat (tp_completed (pl_pool s))" using assms(4) by (simp add: word_less_nat_alt)
  then show ?thesis
    using completed_bound [OF pl_invD(1) [OF assms(1)]] executed_size [OF assms(1,2)] by linarith
qed

lemma checksum_all:
  fixes xs :: "item list"
  assumes "mset (map fst xs) = mset (map of_nat [0..<n])"
  shows "sum_list (map fst xs) = of_nat (\<Sum>{..<n})"
proof -
  have "sum_list (map fst xs) = sum_list (map (of_nat :: nat \<Rightarrow> u64) [0..<n])"
    using assms by (metis sum_mset_sum_list)
  also have "\<dots> = of_nat (\<Sum>{..<n})" by (induction n) (simp_all add: lessThan_Suc add.commute)
  finally show ?thesis .
qed

lemma pl_step_inv:
  assumes i: "pl_inv n producers per s" and T: "producers * per < 2 ^ 64" and st: "pl_step n producers (int per) period_ns s s'"
  shows "pl_inv n producers per s'"
  using st
proof cases
  case (pl_other t)
  have "pl_inv n producers per (s\<lparr>pl_pool := t, pl_sums := pl_sums s\<rparr>)"
    by (rule inside_inv [OF i pl_other(2)]) (simp add: pl_other(3) pl_invD(7) [OF i])
  then show ?thesis by (simp add: pl_other(1))
next
  case (pl_run t x now w)
  have "main_stage (producers * per) (tp_executed t) w (pl_main s)"
    using run_stage [OF i pl_run(2,3)] pl_task_tally [of "tp_executed (pl_pool s)" "pl_sums s" x now] pl_run(3,4) by auto
  from inside_inv [OF i pl_run(2) this] show ?thesis by (simp add: pl_run(1))
next
  case (pl_submit p now t0)
  define x where "x = (pl_seq (int per) p (pl_next s p), t0)"
  define t where "t = cl_to p (L_lock Submit x) ((pl_pool s)\<lparr>tp_active := tp_active (pl_pool s) + 1\<rparr>)"
  have s': "s' = s\<lparr>pl_pool := t, pl_next := (pl_next s)(p := pl_next s p + 1)\<rparr>" by (simp add: pl_submit(1) t_def x_def)
  note d = pl_invD [OF i]
  have main: "pl_main s = M_join" using d(5) pl_submit(2,3) by (auto simp: pl_joined_def)
  have "reach (tp_init 65536 BLOCK) (tp_step n (Suc producers)) t"
    unfolding t_def by (rule tp_cl [OF c_submit d(1)]) (use pl_submit in simp_all)
  moreover have "callers_ok producers t" using d(2,6) main pl_submit(2) by (auto simp: t_def callers_ok_def)
  moreover have "given producers t = add_mset x (given producers (pl_pool s))"
    using sum_thread_update [OF pl_submit(2), of pending "tp_cl (pl_pool s)" "L_lock Submit x"] pl_submit(4)
    by (simp add: given_def t_def)
  then have "image_mset fst (given producers t) = pl_numbers producers per ((pl_next s)(p := pl_next s p + 1))"
    unfolding pl_numbers_step [OF pl_submit(2)] using d(3) by (simp add: x_def)
  ultimately show ?thesis
    using d(4,6,7) main pl_submit(2,3) unfolding pl_inv_def s' by (simp add: t_def)
next
  case pl_join
  note d = pl_invD [OF i]
  have "pl_joined producers per s" using pl_join(3) by (auto simp: pl_joined_def not_less intro!: le_antisym d(4))
  then show ?thesis using d pl_join(1,2) by (simp add: pl_inv_def pl_joined_def)
next
  case pl_wait
  then show ?thesis using i by simp
next
  case (pl_waited t_end)
  have j: "pl_joined producers per s" using pl_invD(5) [OF i] pl_waited(2) by simp
  then show ?thesis
    using pl_invD [OF i] pl_waited completed_stage [OF i j T] by (simp add: pl_inv_def pl_joined_def)
next
  case (pl_load t_end)
  note d = pl_invD [OF i]
  have j: "pl_joined producers per s" using d(5) pl_load(2) by simp
  have l: "length (tp_executed (pl_pool s)) = producers * per" and tally: "tally_ok (tp_executed (pl_pool s)) (pl_sums s)"
    using d(7) pl_load(2) by simp_all
  have "lf_ok (2 * sink_size + length (lf_list (ps_sink (pl_sums s)))) (ps_sink (pl_sums s))"
    using tally by (auto simp: tally_ok_def elim: lf_ok_mono)
  then show ?thesis
    using d j l tally pl_load checksum_all [OF executed_all(1) [OF i j l]]
    by (simp add: pl_inv_def pl_joined_def result_ok_def pl_total_def tally_ok_def)
next
  case (pl_pop r v q)
  note d = pl_invD [OF i]
  let ?q = "ps_sink (pl_sums s)"
  have ok: "lf_ok (Suc (2 * sink_size + length (lf_list ?q) - 1)) ?q" and len: "length (pr_lat r) + length (lf_list ?q) = min (producers * per) sink_size"
    and r: "result_ok (producers * per) r"
    using d(7) pl_pop(2) by simp_all
  have "unat (lf_head ?q) < unat (lf_tail ?q)"
    using lf_pop_empty [OF ok, of 0] lf_okD(3) [OF ok] pl_pop(3) by fastforce
  then have "lf_ok (2 * sink_size + length (lf_list ?q) - 1) q" "lf_list q = tl (lf_list ?q)" "lf_list ?q \<noteq> []"
    using lf_pop_some [OF ok, of 0] pl_pop(3) lf_list_length [of ?q] by auto
  then have "lf_ok (2 * sink_size + length (lf_list q)) q" "Suc (length (lf_list q)) = length (lf_list ?q)"
    by (cases "lf_list ?q"; simp)+
  then show ?thesis
    using d pl_pop(1,2) len r by (simp add: pl_inv_def pl_joined_def result_ok_def)
next
  case (pl_sort r q)
  note d = pl_invD [OF i]
  let ?q = "ps_sink (pl_sums s)"
  have ok: "lf_ok (Suc (2 * sink_size + length (lf_list ?q) - 1)) ?q"
    using d(7) pl_sort(2) by simp
  have "lf_list ?q = []"
    using lf_pop_some [OF ok, of 0] lf_okD(3) [OF ok] pl_sort(3) lf_list_length [of ?q] by fastforce
  then show ?thesis
    using d pl_sort(1,2) by (simp add: pl_inv_def pl_joined_def result_ok_def result_done_def)
next
  case (pl_shutdown r)
  note d = pl_invD [OF i]
  have "reach (tp_init 65536 BLOCK) (tp_step n (Suc producers)) (cl_to producers H_lock (pl_pool s))"
    by (rule tp_sd [OF h_call d(1)]) (use d(6) pl_shutdown(2) in simp_all)
  then show ?thesis
    using d pl_shutdown by (simp add: pl_inv_def pl_joined_def callers_ok_def given_def)
next
  case (pl_return r)
  then show ?thesis using pl_invD [OF i] by (simp add: pl_inv_def pl_joined_def)
qed

lemma pl_init_inv: "pl_init s \<Longrightarrow> pl_inv n producers per s"
  using pl_init_tally
  by (auto simp: pl_init_def tp_init_def pl_inv_def callers_ok_def given_def pl_numbers_def intro!: reach_init)

interpretation pipeline: inductive_invariant pl_init "pl_step n producers (int per) period_ns"
  "\<lambda>s. producers * per < 2 ^ 64 \<longrightarrow> pl_inv n producers per s" for n producers per period_ns
  by unfold_locales (auto intro: pl_init_inv pl_step_inv)

section \<open>The pipeline runs to its end\<close>

lemma pl_works:
  assumes i: "pl_inv n producers per s" and w: "tp_works n (Suc producers) (pl_pool s) t"
  shows "\<exists>s'. pl_step n producers (int per) period_ns s s' \<and> pl_pool s' = t \<and> pl_main s' = pl_main s \<and> pl_next s' = pl_next s"
proof -
  have st: "tp_inside n producers (pl_pool s) t" using w by (auto simp: tp_works_def tp_inside_def)
  show ?thesis
  proof (cases "tp_executed t = tp_executed (pl_pool s)")
    case True
    then show ?thesis using pl_step.pl_other [OF st] by fastforce
  next
    case False
    then obtain x where x: "tp_executed t = tp_executed (pl_pool s) @ [x]"
      using w tp_step_executed unfolding tp_works_def by blast
    obtain w' where "pl_task x 0 (pl_sums s) = Some w'"
      using pl_task_tally [of _ "pl_sums s" x 0] run_stage [OF i st x] by blast
    then show ?thesis using pl_step.pl_run [OF st x] by fastforce
  qed
qed

abbreviation pl_runs :: "nat \<Rightarrow> nat \<Rightarrow> int \<Rightarrow> u64 \<Rightarrow> pipe \<Rightarrow> pipe \<Rightarrow> bool" where
  "pl_runs n producers per period_ns \<equiv> (pl_step n producers per period_ns)\<^sup>*\<^sup>*"

lemma pl_runs_inv:
  assumes "pl_runs n producers (int per) period_ns s s'" "pl_inv n producers per s" "producers * per < 2 ^ 64"
  shows "pl_inv n producers per s'"
  using assms(1) by (induction rule: rtranclp_induct) (use assms pl_step_inv in blast)+

interpretation pl: pool_program n "Suc producers" 65536 BLOCK "pl_step n producers (int per) period_ns"
  "\<lambda>s. pl_inv n producers per s \<and> producers * per < 2 ^ 64 \<and> 0 < n \<and> Suc producers < 2 ^ 32" pl_pool
  "\<lambda>s. (pl_main s, pl_next s)"
  for n producers per period_ns
  by unfold_locales (auto intro: pl_invD(1) pl_step_inv dest: pl_works)

text \<open>Whatever the main thread and the producers are doing, the pool can come to rest.\<close>

lemma pl_rest:
  assumes i: "pl_inv n producers per s" and T: "producers * per < 2 ^ 64" and n: "0 < n" "Suc producers < 2 ^ 32"
  shows "\<exists>s'. pl_runs n producers (int per) period_ns s s' \<and> pl_main s' = pl_main s \<and> pl_next s' = pl_next s \<and>
    pl_inv n producers per s' \<and> tp_finished n (Suc producers) (pl_pool s')"
  using pl.comes_to_rest [of n producers per s period_ns] assms by auto

lemma pl_finish_submitting:
  assumes "pl_inv n producers per s" and T: "producers * per < 2 ^ 64" and n: "0 < n" "Suc producers < 2 ^ 32"
    and "pl_main s = M_join"
  shows "\<exists>s'. pl_runs n producers (int per) period_ns s s' \<and> pl_main s' = M_wait"
  using assms(1,5)
proof (induction "\<Sum>p<producers. per - pl_next s p" arbitrary: s rule: less_induct)
  case less
  obtain s1 where s1: "pl_runs n producers (int per) period_ns s s1" "pl_main s1 = M_join" "pl_next s1 = pl_next s"
      "pl_inv n producers per s1" "tp_finished n (Suc producers) (pl_pool s1)"
    using pl_rest [OF less.prems(1) T n] less.prems(2) by metis
  have idle: "tp_cl (pl_pool s1) p = L_idle" if "p < producers" for p
    using s1(5) pl_invD(2) [OF s1(4)] that by (fastforce simp: tp_finished_def callers_ok_def less_Suc_eq)
  show ?case
  proof (cases "\<forall>p<producers. pl_next s1 p = per")
    case True
    then have "pl_step n producers (int per) period_ns s1 (s1\<lparr>pl_main := M_wait\<rparr>)"
      by (intro pl_step.pl_join) (use s1(2) idle in auto)
    then show ?thesis using s1(1) by (intro exI [of _ "s1\<lparr>pl_main := M_wait\<rparr>"]) simp
  next
    case False
    then obtain p where p: "p < producers" "pl_next s1 p < per" using pl_invD(4) [OF s1(4)] by (metis le_neq_implies_less)
    let ?now = "pl_origin s1 p + period_ns * of_nat (pl_next s1 p + 1)"
    have go: "pace_at (pl_origin s1 p) period_ns (pl_next s1 p) ?now = Pace_go" by (simp add: pace_at_def)
    obtain s2 where s2: "pl_step n producers (int per) period_ns s1 s2" "pl_main s2 = M_join"
        "pl_next s2 = (pl_next s1)(p := pl_next s1 p + 1)"
      using pl_step.pl_submit [OF p(1) _ idle [OF p(1)] disjI2 [OF go], of "int per" n] p(2) s1(2) by fastforce
    have "(\<Sum>u<producers. per - pl_next s2 u) + (per - pl_next s1 p) = (\<Sum>u<producers. per - pl_next s1 u) + (per - (pl_next s1 p + 1))"
      using sum_thread_update [OF p(1), of "\<lambda>k. per - k" "pl_next s1" "pl_next s1 p + 1"] unfolding s2(3) by simp
    then have "(\<Sum>u<producers. per - pl_next s2 u) < (\<Sum>u<producers. per - pl_next s u)" using p s1(3) by simp
    from less.hyps [OF this pl_step_inv [OF s1(4) T s2(1)] s2(2)]
    show ?thesis using s1(1) s2(1) by (meson rtranclp.rtrancl_into_rtrancl rtranclp_trans)
  qed
qed

lemma pl_finish_waiting:
  assumes i: "pl_inv n producers per s" and T: "producers * per < 2 ^ 64" and n: "0 < n" "Suc producers < 2 ^ 32"
    and m: "pl_main s = M_wait"
  shows "\<exists>s'. pl_runs n producers (int per) period_ns s s' \<and> pl_main s' = M_load 0"
proof -
  obtain s1 where s1: "pl_runs n producers (int per) period_ns s s1" "pl_main s1 = M_wait"
      "pl_inv n producers per s1" "tp_finished n (Suc producers) (pl_pool s1)"
    using pl_rest [OF i T n] m by metis
  let ?t = "pl_pool s1"
  have j: "pl_joined producers per s1" using pl_invD(5) [OF s1(3)] s1(2) by simp
  then have "(\<Sum>c<producers. pending (tp_cl ?t c)) = {#}" by (simp add: pl_joined_def)
  then have "given producers ?t = mset (tp_executed ?t)" using s1(4) by (simp add: given_def tp_finished_def)
  then have "length (tp_executed ?t) = producers * per"
    using arg_cong [OF pl_invD(3) [OF s1(3)], of size] unfolding pl_numbers_joined [OF j] by (simp del: mset_map mset_upt)
  moreover have "(\<Sum>i<n. finishing (tp_wk ?t i)) = 0" using s1(4) by (simp add: tp_finished_def)
  ultimately have "tp_completed ?t = of_nat (producers * per)"
    using counts.inv_reach [OF pl_invD(1) [OF s1(3)]] by (auto simp: tp_counts_def)
  then have "\<not> tp_completed ?t < pl_total producers (int per)" by (simp add: pl_total_def)
  from pl_step.pl_waited [OF s1(2) this, of n period_ns 0] show ?thesis
    using s1(1) by (intro exI [of _ "s1\<lparr>pl_main := M_load 0\<rparr>"]) simp
qed

lemma pl_finish_draining:
  assumes "pl_inv n producers per s" and T: "producers * per < 2 ^ 64" and "pl_main s = M_drain r"
  shows "\<exists>s' r'. pl_runs n producers (int per) period_ns s s' \<and> pl_main s' = M_shutdown r'"
  using assms(1,3)
proof (induction "length (lf_list (ps_sink (pl_sums s)))" arbitrary: s r rule: less_induct)
  case less
  let ?q = "ps_sink (pl_sums s)"
  have ok: "lf_ok (Suc (2 * sink_size + length (lf_list ?q) - 1)) ?q"
    using pl_invD(7) [OF less.prems(1)] less.prems(2) by simp
  show ?case
  proof (cases "unat (lf_head ?q) < unat (lf_tail ?q)")
    case True
    then obtain v q where q: "lf_pop 1 ?q = Some (Some v, q)" "lf_list q = tl (lf_list ?q)"
      using lf_pop_some [OF ok, of 0] by auto
    have "length (lf_list q) < length (lf_list ?q)" using q(2) True lf_list_length [of ?q] by simp
    moreover note st = pl_step.pl_pop [OF less.prems(2) q(1), of n producers per period_ns]
    ultimately obtain s' r' where "pl_runs n producers (int per) period_ns
        (s\<lparr>pl_main := M_drain (r\<lparr>pr_lat := pr_lat r @ [v]\<rparr>), pl_sums := (pl_sums s)\<lparr>ps_sink := q\<rparr>\<rparr>) s'"
        "pl_main s' = M_shutdown r'"
      using less.hyps [OF _ pl_step_inv [OF less.prems(1) T st]] by force
    then show ?thesis using st by (meson converse_rtranclp_into_rtranclp)
  next
    case False
    then have "lf_pop 1 ?q = Some (None, ?q)" using lf_pop_empty [OF ok, of 0] lf_okD(3) [OF ok] by simp
    from pl_step.pl_sort [OF less.prems(2) this, of n producers per period_ns] show ?thesis
      by (intro exI [of _ "s\<lparr>pl_main := M_shutdown (r\<lparr>pr_lat := sort (pr_lat r)\<rparr>)\<rparr>"]) auto
  qed
qed

lemma pl_finish_shutdown:
  assumes i: "pl_inv n producers per s" and T: "producers * per < 2 ^ 64" and n: "0 < n" "Suc producers < 2 ^ 32"
    and m: "pl_main s = M_shutting r"
  shows "\<exists>s'. pl_runs n producers (int per) period_ns s s' \<and> pl_main s' = M_return r"
proof -
  obtain s1 where s1: "pl_runs n producers (int per) period_ns s s1" "pl_main s1 = M_shutting r"
      "tp_finished n (Suc producers) (pl_pool s1)"
    using pl_rest [OF i T n] m by metis
  then have "pl_step n producers (int per) period_ns s1 (s1\<lparr>pl_main := M_return r\<rparr>)"
    by (intro pl_step.pl_return) (auto simp: tp_finished_def)
  then show ?thesis using s1(1) by (intro exI [of _ "s1\<lparr>pl_main := M_return r\<rparr>"]) simp
qed

text \<open>The same from any point of the main thread on.\<close>

lemma pl_finish:
  assumes i: "pl_inv n producers per s" and T: "producers * per < 2 ^ 64" and n: "0 < n" "Suc producers < 2 ^ 32"
  shows "\<exists>s' r. pl_runs n producers (int per) period_ns s s' \<and> pl_main s' = M_return r"
proof -
  let ?R = "pl_runs n producers (int per) period_ns"
  have inv: "pl_inv n producers per s'" if "?R s s'" for s' by (rule pl_runs_inv [OF that i T])
  have shutting: ?thesis if "?R s s'" "pl_main s' = M_shutting r" for s' r
    using pl_finish_shutdown [OF inv [OF that(1)] T n that(2), of period_ns] that(1) by (meson rtranclp_trans)
  have shutdown: ?thesis if "?R s s'" "pl_main s' = M_shutdown r" for s' r
    by (rule shutting [OF rtranclp.rtrancl_into_rtrancl [OF that(1) pl_step.pl_shutdown [OF that(2)]]]) simp
  have drain: ?thesis if "?R s s'" "pl_main s' = M_drain r" for s' r
    using pl_finish_draining [OF inv [OF that(1)] T that(2), of period_ns] that(1) shutdown by (meson rtranclp_trans)
  have load: ?thesis if "?R s s'" "pl_main s' = M_load e" for s' e
    by (rule drain [OF rtranclp.rtrancl_into_rtrancl [OF that(1) pl_step.pl_load [OF that(2)]]]) simp
  have wait: ?thesis if "?R s s'" "pl_main s' = M_wait" for s'
    using pl_finish_waiting [OF inv [OF that(1)] T n that(2), of period_ns] that(1) load by (meson rtranclp_trans)
  have join: ?thesis if "?R s s'" "pl_main s' = M_join" for s'
    using pl_finish_submitting [OF inv [OF that(1)] T n that(2), of period_ns] that(1) wait by (meson rtranclp_trans)
  show ?thesis
    using join [of s] wait [of s] load [of s] drain [of s] shutdown [of s] shutting [of s]
    by (cases "pl_main s") blast+
qed

section \<open>A negative number of tasks\<close>

text \<open>With a negative number of tasks per producer nothing is submitted, but \<open>total\<close> is close to \<open>2 ^ 64\<close>, and the main
  thread waits for that many tasks.\<close>

definition pl_starved :: "nat \<Rightarrow> nat \<Rightarrow> pipe \<Rightarrow> bool" where
  "pl_starved n producers s \<longleftrightarrow>
     reach (tp_init 65536 BLOCK) (tp_step n (Suc producers)) (pl_pool s) \<and> callers_ok producers (pl_pool s) \<and>
     given producers (pl_pool s) = {#} \<and> pl_main s \<in> {M_join, M_wait}"

lemma starved_completed: "pl_starved n producers s \<Longrightarrow> tp_completed (pl_pool s) = 0"
  using completed_bound [of 65536 BLOCK n "Suc producers" "pl_pool s"] executed_given [of 65536 BLOCK n "Suc producers" "pl_pool s"]
  by (auto simp: pl_starved_def given_def unat_0_iff)

lemma starved_inside:
  assumes "pl_starved n producers s" "tp_inside n producers (pl_pool s) t"
  shows "pl_starved n producers (s\<lparr>pl_pool := t, pl_sums := w\<rparr>)"
proof -
  have ok: "callers_ok producers (pl_pool s)" using assms(1) by (simp add: pl_starved_def)
  have "reach (tp_init 65536 BLOCK) (tp_step n (Suc producers)) t"
    by (rule reach_step [of _ _ "pl_pool s"]) (use assms in \<open>simp_all add: pl_starved_def tp_inside_def\<close>)
  then show ?thesis using inside_callers_ok [OF ok assms(2)] assms(1) by (simp add: pl_starved_def)
qed

lemma pl_total_negative:
  assumes "per < 0" "0 < producers" "int producers * - per < 2 ^ 64"
  shows "0 < pl_total producers per"
proof -
  have "0 < int producers * - per" using assms(1,2) by (intro mult_pos_pos) auto
  then have "\<not> 2 ^ 64 dvd int producers * - per" using assms(3) zdvd_not_zless by blast
  then have "(of_int (int producers * - per) :: u64) \<noteq> 0" by (simp add: word_of_int_eq_0_iff del: of_int_mult)
  then show ?thesis by (simp add: pl_total_def word_neq_0_conv [symmetric])
qed

lemma starved_step:
  assumes s: "pl_starved n producers s" and T: "0 < pl_total producers per" and neg: "per < 0"
    and st: "pl_step n producers per period_ns s s'"
  shows "pl_starved n producers s'"
  using st
proof cases
  case (pl_other t)
  then show ?thesis using starved_inside [OF s pl_other(2), of "pl_sums s"] by simp
next
  case (pl_run t x now w)
  then show ?thesis using starved_inside [OF s pl_run(2), of w] by simp
next
  case (pl_waited t_end)
  then show ?thesis using T starved_completed [OF s] by simp
qed (use s neg in \<open>simp_all add: pl_starved_def\<close>)

lemma starved_never_returns:
  assumes "reach pl_init (pl_step n producers per period_ns) s"
    and "per < 0" "0 < producers" "int producers * - per < 2 ^ 64"
  shows "pl_main s \<in> {M_join, M_wait}"
proof -
  have "pl_starved n producers s"
    using assms(1)
  proof (induction rule: reach.induct)
    case (reach_init s)
    then show ?case by (auto simp: pl_starved_def pl_init_def tp_init_def callers_ok_def given_def intro!: reach.reach_init)
  next
    case (reach_step s s')
    then show ?case using starved_step [OF _ pl_total_negative [OF assms(2-4)] assms(2)] by blast
  qed
  then show ?thesis by (simp add: pl_starved_def)
qed

text \<open>Without producers the number of tasks does not matter.\<close>

lemma pl_step_no_producers: "pl_step n 0 per period_ns s s' \<Longrightarrow> pl_step n 0 0 period_ns s s'"
proof (induction rule: pl_step.induct)
  case (pl_load s t_end)
  then show ?case using pl_step.pl_load [of s t_end n 0 0 period_ns] by (simp add: pl_total_def)
qed (auto simp: pl_total_def intro: pl_step.intros)

lemma reach_no_producers:
  assumes "reach pl_init (pl_step n 0 per period_ns) s"
  shows "reach pl_init (pl_step n 0 0 period_ns) s"
  using assms by (induction rule: reach.induct) (auto intro: reach.intros dest: pl_step_no_producers)

section \<open>Properties\<close>

lemma int_sum_below: "2 * int (\<Sum>{..<n}) = int n * (int n - 1)"
  by (induction n) (simp_all add: lessThan_Suc algebra_simps)

lemma nat_sum_below: "\<Sum>{..<n} = n * (n - 1) div 2" for n :: nat
proof -
  have "int (2 * \<Sum>{..<n}) = int (n * (n - 1))" using int_sum_below [of n] by (cases n) (simp_all add: algebra_simps)
  then have "2 * \<Sum>{..<n} = n * (n - 1)" by (simp only: of_nat_eq_iff)
  then show ?thesis by simp
qed

text \<open>\<open>total * (total - 1) / 2\<close> is exact up to \<open>2 ^ 32\<close> tasks; beyond, the product wraps around before it
  is divided.\<close>

lemma expect_checksum_exact:
  assumes "n \<le> 2 ^ 32"
  shows "expect_checksum (of_nat n) = of_nat (\<Sum>{..<n})"
proof (cases n)
  case (Suc k)
  have "n * k \<le> 2 ^ 32 * (2 ^ 32 - 1)" using assms Suc by (intro mult_mono) auto
  then have "n * k < 2 ^ 64" by simp
  then have "unat (of_nat (n * k) :: u64) = n * k" by (simp add: unat_of_nat del: of_nat_mult)
  moreover have "(of_nat n :: u64) * (of_nat n - 1) = of_nat (n * k)" using Suc by (simp add: algebra_simps)
  ultimately have "expect_checksum (of_nat n) = of_nat (n * k div 2)"
    by (simp add: expect_checksum_def word_arith_nat_div del: of_nat_mult)
  then show ?thesis using Suc by (simp add: nat_sum_below)
qed (simp add: expect_checksum_def)

lemma expect_checksum_wraps: "expect_checksum (of_nat (2 ^ 32 + 1)) \<noteq> of_nat (\<Sum>{..<2 ^ 32 + 1})"
  unfolding nat_sum_below expect_checksum_def by simp

lemma returned_result:
  assumes "reach pl_init (pl_step n producers (int per) period_ns) s" and "pl_main s = M_return r"
    and "producers * per < 2 ^ 64"
  shows "mset (map fst (tp_executed (pl_pool s))) = mset (map of_nat [0..<producers * per]) \<and>
    pr_total r = of_nat (producers * per) \<and> pr_processed r = pr_total r \<and>
    pr_checksum r = of_nat (producers * per * (producers * per - 1) div 2) \<and>
    length (pr_lat r) = min (producers * per) (2 ^ 20) \<and> sorted (pr_lat r) \<and>
    pr_dropped r = of_nat (producers * per - length (pr_lat r)) \<and>
    (producers * per \<le> 2 ^ 32 \<longrightarrow> pl_exit r = 0)"
proof -
  have i: "pl_inv n producers per s" using pipeline.inv_reach [OF assms(1)] assms(3) by blast
  have j: "pl_joined producers per s" using pl_invD(5) [OF i] assms(2) by simp
  have l: "length (tp_executed (pl_pool s)) = producers * per" and r: "result_done (producers * per) r"
    using pl_invD(7) [OF i] assms(2) by simp_all
  have "pl_exit r = 0" if "producers * per \<le> 2 ^ 32"
    using r expect_checksum_exact [OF that] by (simp add: pl_exit_def result_done_def result_ok_def del: of_nat_mult)
  moreover have "producers * per - min (producers * per) sink_size = producers * per - sink_size" by simp
  ultimately show ?thesis
    using r executed_all(1) [OF i j l]
    by (simp add: result_done_def result_ok_def nat_sum_below del: of_nat_mult mset_map mset_upt)
qed

text \<open>C38: when \<open>run_pipeline\<close> returns, in whatever way its threads were interleaved, it has processed each
  of the \<open>producers * per\<close> numbers exactly once: \<open>processed\<close> and \<open>total\<close> are that number, the checksum is
  their sum modulo \<open>2 ^ 64\<close>, the samples are sorted and, with those dropped, account for every
  task; up to \<open>2 ^ 32\<close> tasks the checksum is the expected one and \<open>main\<close> returns 0.\<close>

theorem pipeline_result:
  assumes "reach pl_init (pl_step n producers (int per) period_ns) s" and "pl_main s = M_return r"
    and "producers * per < 2 ^ 64"
  shows "mset (map fst (tp_executed (pl_pool s))) = mset (map of_nat [0..<producers * per]) \<and>
    pr_total r = of_nat (producers * per) \<and> pr_processed r = pr_total r \<and>
    pr_checksum r = of_nat (producers * per * (producers * per - 1) div 2) \<and>
    length (pr_lat r) = min (producers * per) (2 ^ 20) \<and> sorted (pr_lat r) \<and>
    pr_dropped r = of_nat (producers * per - length (pr_lat r)) \<and>
    (producers * per \<le> 2 ^ 32 \<longrightarrow> pl_exit r = 0)"
  by (rule returned_result [OF assms])

text \<open>From every point of every run, however far the producers, the workers and the main thread
  have come, \<open>run_pipeline\<close> can go on to its return, provided there is a worker: it never gets stuck.\<close>

theorem pipeline_returns:
  assumes "reach pl_init (pl_step n producers (int per) period_ns) s" and "0 < n"
    and "producers < 2 ^ 31" and "per < 2 ^ 31"
  shows "\<exists>s' r. pl_runs n producers (int per) period_ns s s' \<and> pl_main s' = M_return r"
proof (rule pl_finish)
  have "producers * per \<le> 2 ^ 31 * 2 ^ 31" using assms(3,4) by (intro mult_mono) auto
  also have "\<dots> < (2 :: nat) ^ 64" by simp
  finally show T: "producers * per < 2 ^ 64" .
  show "pl_inv n producers per s" using pipeline.inv_reach [OF assms(1)] T by blast
qed (use assms in simp_all)

lemma pl_init_exists: "\<exists>s. pl_init s"
proof -
  obtain r :: "item ring" where r: "rb_new 65536 = Inr r" using rb_new_total [of 65536] by auto
  have "nextPowerOfTwoChecked (push_bit 20 1) = Inr (push_bit 20 1)" by code_simp
  then obtain q where q: "lf_new (0 :: u64) (push_bit 20 1) = Inr q" by (simp add: lf_new_def del: push_bit_of_1)
  define t :: "item pool" where "t = \<lparr>tp_ring = r, tp_mtx = None, tp_stop = False, tp_policy = BLOCK, tp_active = 0,
    tp_submitted = 0, tp_completed = 0, tp_busy = 0, tp_wk = (\<lambda>_. K_lock), tp_cl = (\<lambda>_. L_idle),
    tp_accepted = [], tp_started = [], tp_executed = []\<rparr>"
  have "tp_init 65536 BLOCK t" using r by (auto simp: tp_init_def t_def)
  then show ?thesis
    using q by (intro exI [of _ "\<lparr>pl_pool = t, pl_sums = \<lparr>ps_processed = 0, ps_checksum = 0, ps_dropped = 0, ps_sink = q\<rparr>,
      pl_next = (\<lambda>_. 0), pl_origin = (\<lambda>_. 0), pl_start = 0, pl_main = M_join\<rparr>"]) (simp add: pl_init_def del: push_bit_of_1)
qed

text \<open>Two producers with three tasks each and two workers.\<close>

theorem pipeline_returns_witness:
  "\<exists>s s' r. pl_init s \<and> pl_runs 2 2 3 0 s s' \<and> pl_main s' = M_return r"
proof -
  obtain s where s: "pl_init s" using pl_init_exists by blast
  have "\<exists>s' r. pl_runs 2 2 3 0 s s' \<and> pl_main s' = M_return r"
    using pipeline_returns [OF reach_init [of pl_init, OF s], of 2 2 3 0] by simp
  then show ?thesis using s by blast
qed

theorem pipeline_result_witness:
  "\<exists>s r. reach pl_init (pl_step 2 2 3 1000) s \<and> pl_main s = M_return r \<and> pr_processed r = 6 \<and> pr_checksum r = 15 \<and>
     length (pr_lat r) = 6 \<and> pl_exit r = 0"
proof -
  obtain s0 where s0: "pl_init s0" using pl_init_exists by blast
  obtain s r where s: "pl_runs 2 2 3 1000 s0 s" "pl_main s = M_return r"
    using pl_finish [of 2 2 3 s0 1000] pl_init_inv [OF s0] by auto
  have "reach pl_init (pl_step 2 2 3 1000) s" by (rule reach_rtranclp [OF reach_init [of pl_init, OF s0] s(1)])
  with pipeline_result [of 2 2 3 1000 s r] s(2) show ?thesis by (intro exI [of _ s] exI [of _ r]) simp
qed

end
