(* ===== verification/Pipeline_Report.thy ===== *)
theory Pipeline_Report
  imports Pipeline_Demo_Correct
begin

text \<open>
  What \<open>app/pipeline_demo.cpp\<close> makes of its arguments and its measurements: \<open>main\<close>, the conversions at the head of
  \<open>run_pipeline\<close>, and \<open>print_result\<close>. An \<open>int\<close> is a word of 32 bits, read with its sign; the conversions to \<open>uint64_t\<close> and
  \<open>size_t\<close> keep the sign bit, so that a negative number of tasks or workers becomes a huge one, and
  \<open>std::vector::reserve\<close> throws on a negative number of producers. Numbers of type \<open>double\<close> are rational, infinite
  or not a number; \<open>rnd\<close> rounds the exact result of an operation. The reports are the values printed, in the order in
  which they are printed, not the text that \<open>printf\<close> makes of them; \<open>std::atoi\<close> and \<open>std::atof\<close> are parameters. That threads
  can be started is assumed.
\<close>

section \<open>The program\<close>

datatype double = Fin rat | Infinite | Minus_infinite | NaN

text \<open>The test \<open>> 0.0\<close>.\<close>

fun dbl_pos :: "double \<Rightarrow> bool" where
  "dbl_pos (Fin q) = (q > 0)"
| "dbl_pos Infinite = True"
| "dbl_pos Minus_infinite = False"
| "dbl_pos NaN = False"

text \<open>Division of numbers that are not negative.\<close>

definition fp_div :: "(rat \<Rightarrow> rat) \<Rightarrow> rat \<Rightarrow> rat \<Rightarrow> double" where
  "fp_div rnd a b = (if b = 0 then (if a = 0 then NaN else Infinite) else Fin (rnd (a / b)))"

definition to_double :: "(rat \<Rightarrow> rat) \<Rightarrow> u64 \<Rightarrow> rat" where
  "to_double rnd w = rnd (of_nat (unat w))"

record report =
  rp_label :: string
  rp_processed :: u64
  rp_total :: u64
  rp_elapsed_ms :: rat
  rp_throughput :: double
  rp_samples :: nat
  rp_dropped :: u64
  rp_mean :: double
  rp_p50 :: u64
  rp_p90 :: u64
  rp_p99 :: u64
  rp_p999 :: u64
  rp_max :: u64
  rp_checksum_ok :: bool

definition print_result :: "(rat \<Rightarrow> rat) \<Rightarrow> string \<Rightarrow> pipe_result \<Rightarrow> report" where
  "print_result rnd label r =
     (let sec = rnd (to_double rnd (pr_elapsed r) / 10 ^ 9);
          throughput = fp_div rnd (to_double rnd (pr_total r)) sec;
          total = fold (\<lambda>x s. s + x) (pr_lat r) 0;
          mean = if pr_lat r = [] then Fin 0 else fp_div rnd (to_double rnd total) (rnd (of_nat (length (pr_lat r))))
      in \<lparr>rp_label = label, rp_processed = pr_processed r, rp_total = pr_total r, rp_elapsed_ms = rnd (sec * 10 ^ 3), rp_throughput = throughput,
          rp_samples = length (pr_lat r), rp_dropped = pr_dropped r, rp_mean = mean,
          rp_p50 = percentile rnd (pr_lat r) (rnd (50 / 100)), rp_p90 = percentile rnd (pr_lat r) (rnd (90 / 100)),
          rp_p99 = percentile rnd (pr_lat r) (rnd (99 / 100)), rp_p999 = percentile rnd (pr_lat r) (rnd (999 / 1000)),
          rp_max = (if pr_lat r = [] then 0 else last (pr_lat r)),
          rp_checksum_ok = (pr_checksum r = pr_expect r)\<rparr>)"

fun dbl_div :: "(rat \<Rightarrow> rat) \<Rightarrow> double \<Rightarrow> double \<Rightarrow> double" where
  "dbl_div rnd (Fin a) (Fin b) = fp_div rnd a b"
| "dbl_div rnd (Fin a) Infinite = Fin 0"
| "dbl_div rnd Infinite (Fin b) = Infinite"
| "dbl_div rnd _ _ = NaN"

text \<open>The conversion to \<open>uint64_t\<close> cuts off the fraction; it is undefined for what does not fit.\<close>

fun to_uint64 :: "double \<Rightarrow> u64 option" where
  "to_uint64 (Fin q) = (if - 1 < q \<and> q < 2 ^ 64 then Some (of_nat (nat \<lfloor>q\<rfloor>)) else None)"
| "to_uint64 _ = None"

text \<open>The target period of a producer; 0 means unlimited.\<close>

definition pl_period :: "(rat \<Rightarrow> rat) \<Rightarrow> double \<Rightarrow> nat \<Rightarrow> u64 option" where
  "pl_period rnd rate_per_sec producers =
     (let per_prod_rate = if dbl_pos rate_per_sec then dbl_div rnd rate_per_sec (Fin (rnd (of_nat producers))) else Fin 0
      in if dbl_pos per_prod_rate then to_uint64 (dbl_div rnd (Fin (10 ^ 9)) per_prod_rate) else Some 0)"

text \<open>The arguments of the command line.\<close>

record arguments =
  ar_producers :: u32
  ar_workers :: u32
  ar_per :: u32
  ar_rate :: double

definition pd_arguments :: "(string \<Rightarrow> u32) \<Rightarrow> (string \<Rightarrow> double) \<Rightarrow> string list \<Rightarrow> arguments" where
  "pd_arguments atoi atof argv =
     \<lparr>ar_producers = (if length argv > 1 then atoi (argv ! 1) else 4),
      ar_workers = (if length argv > 2 then atoi (argv ! 2) else 4),
      ar_per = (if length argv > 3 then atoi (argv ! 3) else 200000),
      ar_rate = (if length argv > 4 then atof (argv ! 4) else Fin 500000)\<rparr>"

text \<open>The comparison of the medians: both, and how many times the first is the second.\<close>

definition comparison :: "(rat \<Rightarrow> rat) \<Rightarrow> pipe_result \<Rightarrow> pipe_result \<Rightarrow> rat \<times> rat \<times> double" where
  "comparison rnd sat paced =
     (let sat_p50 = to_double rnd (percentile rnd (pr_lat sat) (rnd (50 / 100)));
          paced_p50 = to_double rnd (percentile rnd (pr_lat paced) (rnd (50 / 100)))
      in (sat_p50, paced_p50, if paced_p50 > 0 then fp_div rnd sat_p50 paced_p50 else Fin 0))"

definition label_saturated :: string where
  "label_saturated = ''saturated (no pacing): latency dominated by queueing''"

definition label_paced :: string where
  "label_paced = ''paced (rate-limited): queue near-empty''"

text \<open>What a call of \<open>run_pipeline\<close> can end with. A period whose conversion is undefined is an arbitrary number.\<close>

definition run_pipeline :: "(rat \<Rightarrow> rat) \<Rightarrow> u32 \<Rightarrow> u32 \<Rightarrow> u32 \<Rightarrow> double \<Rightarrow> exn + pipe_result \<Rightarrow> bool" where
  "run_pipeline rnd producers workers per rate out \<longleftrightarrow>
     (if sint producers < 0 then out = Inl Length_error
      else \<exists>period_ns s r. pl_period rnd rate (nat (sint producers)) \<in> {None, Some period_ns} \<and>
        reach pl_init (pl_step (unat (scast workers :: size_t)) (nat (sint producers)) (sint per) period_ns) s \<and>
        pl_main s = M_return r \<and> out = Inr r)"

text \<open>\<open>main\<close> prints a report of an unlimited run, and if a rate is given, one of a paced run and the comparison.
  It ends with an exit code or with an exception that nobody catches.\<close>

inductive pd_main :: "(rat \<Rightarrow> rat) \<Rightarrow> (string \<Rightarrow> u32) \<Rightarrow> (string \<Rightarrow> double) \<Rightarrow> string list \<Rightarrow>
    report list \<Rightarrow> (rat \<times> rat \<times> double) option \<Rightarrow> exn + nat \<Rightarrow> bool"
  for rnd :: "rat \<Rightarrow> rat" and atoi :: "string \<Rightarrow> u32" and atof :: "string \<Rightarrow> double" and argv :: "string list" where
  main_uncaught: "a = pd_arguments atoi atof argv \<Longrightarrow>
    run_pipeline rnd (ar_producers a) (ar_workers a) (ar_per a) (Fin 0) (Inl e) \<Longrightarrow>
    pd_main rnd atoi atof argv [] None (Inl e)"
| main_saturated: "a = pd_arguments atoi atof argv \<Longrightarrow>
    run_pipeline rnd (ar_producers a) (ar_workers a) (ar_per a) (Fin 0) (Inr sat) \<Longrightarrow> \<not> dbl_pos (ar_rate a) \<Longrightarrow>
    pd_main rnd atoi atof argv [print_result rnd label_saturated sat] None (Inr (pl_exit sat))"
| main_paced_uncaught: "a = pd_arguments atoi atof argv \<Longrightarrow>
    run_pipeline rnd (ar_producers a) (ar_workers a) (ar_per a) (Fin 0) (Inr sat) \<Longrightarrow> dbl_pos (ar_rate a) \<Longrightarrow>
    run_pipeline rnd (ar_producers a) (ar_workers a) (ar_per a) (ar_rate a) (Inl e) \<Longrightarrow>
    pd_main rnd atoi atof argv [print_result rnd label_saturated sat] None (Inl e)"
| main_both: "a = pd_arguments atoi atof argv \<Longrightarrow>
    run_pipeline rnd (ar_producers a) (ar_workers a) (ar_per a) (Fin 0) (Inr sat) \<Longrightarrow> dbl_pos (ar_rate a) \<Longrightarrow>
    run_pipeline rnd (ar_producers a) (ar_workers a) (ar_per a) (ar_rate a) (Inr paced) \<Longrightarrow>
    pd_main rnd atoi atof argv [print_result rnd label_saturated sat, print_result rnd label_paced paced]
      (Some (comparison rnd sat paced)) (Inr (pl_exit sat))"

section \<open>The statistics\<close>

lemma ieee_literal:
  assumes "ieee_rounding rnd" "0 \<le> p" "p \<le> 1"
  shows "0 \<le> rnd p" "rnd p \<le> 1"
proof -
  have z: "rnd 0 = 0" and o: "rnd 1 = 1" using assms(1) unfolding ieee_rounding_def by (metis of_int_0 abs_zero zero_le_power zero_le_numeral, metis of_int_1 abs_one one_le_power one_le_numeral)
  show "0 \<le> rnd p" "rnd p \<le> 1" using assms z o unfolding ieee_rounding_def by metis+
qed

lemma ieee_exact: "ieee_rounding rnd \<Longrightarrow> k \<le> 2 ^ 53 \<Longrightarrow> rnd (of_nat k) = of_nat k"
proof -
  assume a: "ieee_rounding rnd" "k \<le> 2 ^ 53"
  have "rnd (of_int (int k)) = of_int (int k)" using a unfolding ieee_rounding_def by (simp del: of_int_of_nat_eq)
  then show ?thesis by simp
qed

lemma ieee_mono: "ieee_rounding rnd \<Longrightarrow> x \<le> y \<Longrightarrow> rnd x \<le> rnd y"
  by (simp add: ieee_rounding_def)

lemma ieee_nonneg: "ieee_rounding rnd \<Longrightarrow> 0 \<le> x \<Longrightarrow> 0 \<le> rnd x"
  using ieee_mono [of rnd 0 x] ieee_exact [of rnd 0] by simp

lemma percentiles_ordered:
  assumes r: "ieee_rounding rnd" and xs: "sorted xs" "length xs \<le> 2 ^ 53" and p: "0 \<le> p" "p \<le> q" "q \<le> 1"
  shows "percentile rnd xs (rnd p) \<le> percentile rnd xs (rnd q)"
    "percentile rnd xs (rnd q) \<le> (if xs = [] then 0 else last xs)"
proof -
  have pq: "0 \<le> rnd p" "rnd p \<le> rnd q" "rnd q \<le> 1"
    using ieee_literal [OF r, of p] ieee_literal [OF r, of q] ieee_mono [OF r p(2)] p by simp_all
  show "percentile rnd xs (rnd p) \<le> percentile rnd xs (rnd q)"
    using percentile_in_range [OF r xs(1) _ xs(2) pq] by (cases "xs = []") (simp_all add: percentile_def)
  show "percentile rnd xs (rnd q) \<le> (if xs = [] then 0 else last xs)"
  proof (cases "xs = []")
    case False
    have "0 \<le> rnd q" using pq by simp
    then have "percentile rnd xs (rnd q) \<le> percentile rnd xs 1" "percentile rnd xs 1 = last xs"
      using percentile_in_range [OF r xs(1) False xs(2) _ pq(3)] by blast+
    then show ?thesis using False by simp
  qed (simp add: percentile_def)
qed

text \<open>The sum of the samples may wrap around; it is never more than as many times the largest sample.\<close>

lemma fold_samples: "fold (\<lambda>x s. s + x) xs s = s + sum_list xs" for s :: u64
  by (induction xs arbitrary: s) (simp_all add: add.assoc)

lemma samples_bound:
  fixes xs :: "u64 list"
  assumes "\<forall>x\<in>set xs. x \<le> b"
  shows "unat (sum_list xs) \<le> length xs * unat b"
  using assms
proof (induction xs)
  case (Cons x xs)
  have "unat (x + sum_list xs) \<le> unat x + unat (sum_list xs)" by (simp add: unat_plus_if_size)
  moreover have "unat x \<le> unat b" using Cons.prems by (simp add: word_le_nat_alt)
  ultimately show ?case using Cons by simp
qed simp

lemma mean_bound:
  assumes r: "ieee_rounding rnd" and xs: "sorted xs" "xs \<noteq> []" "length xs \<le> 2 ^ 53"
  shows "\<exists>m. fp_div rnd (to_double rnd (sum_list xs)) (rnd (of_nat (length xs))) = Fin m \<and> 0 \<le> m \<and>
    (length xs * unat (last xs) \<le> 2 ^ 53 \<longrightarrow> m \<le> of_nat (unat (last xs)))"
proof -
  let ?n = "of_nat (length xs) :: rat"
  have n: "rnd ?n = ?n" "0 < ?n" using ieee_exact [OF r xs(3)] xs(2) by simp_all
  define m where "m = rnd (to_double rnd (sum_list xs) / ?n)"
  have "0 \<le> to_double rnd (sum_list xs)" unfolding to_double_def by (rule ieee_nonneg [OF r of_nat_0_le_iff])
  then have "0 \<le> m" unfolding m_def by (intro ieee_nonneg [OF r]) simp
  moreover have "m \<le> of_nat (unat (last xs))" if b: "length xs * unat (last xs) \<le> 2 ^ 53"
  proof -
    have "x \<le> last xs" if "x \<in> set xs" for x using that xs(1,2) by (metis in_set_conv_nth last_conv_nth length_greater_0_conv
      diff_less less_numeral_extra(1) less_Suc_eq_le Suc_pred' sorted_nth_mono)
    then have s: "unat (sum_list xs) \<le> length xs * unat (last xs)" by (intro samples_bound) blast
    then have "to_double rnd (sum_list xs) \<le> rnd (of_nat (length xs * unat (last xs)))"
      unfolding to_double_def by (intro ieee_mono [OF r]) (simp only: of_nat_le_iff)
    also have "\<dots> = ?n * of_nat (unat (last xs))" using ieee_exact [OF r b] by simp
    finally have "to_double rnd (sum_list xs) / ?n \<le> of_nat (unat (last xs))"
      using n(2) by (simp add: divide_le_eq mult.commute)
    then have "m \<le> rnd (of_nat (unat (last xs)))" unfolding m_def by (rule ieee_mono [OF r])
    moreover have "unat (last xs) \<le> 2 ^ 53" using b xs(2) by (cases "length xs") auto
    ultimately show ?thesis using ieee_exact [OF r, of "unat (last xs)"] by simp
  qed
  ultimately show ?thesis using n by (simp add: fp_div_def m_def)
qed

section \<open>Property\<close>

lemma label_print_result [simp]: "rp_label (print_result rnd label r) = label"
  by (simp add: print_result_def Let_def)

text \<open>A call that returns has been given numbers with which it can: it is a run over natural numbers.\<close>

lemma int_product_bound: "int producers * - sint (per :: u32) < 2 ^ 64" if "producers < 2 ^ 31"
proof -
  have "- sint per \<le> 2 ^ 31" using sint_greater_eq [of per] by simp
  then have "int producers * - sint per \<le> int producers * 2 ^ 31" by (intro mult_left_mono) simp_all
  also have "\<dots> \<le> 2 ^ 31 * 2 ^ 31" using that by (intro mult_right_mono) simp_all
  finally show ?thesis by simp
qed

lemma nat_sint_bound: "nat (sint (w :: u32)) < 2 ^ 31"
  using sint_less [of w] by simp

lemma run_pipeline_returned:
  assumes "run_pipeline rnd producers workers per rate (Inr r)"
  shows "0 \<le> sint producers \<and> \<not> (0 < sint producers \<and> sint per < 0) \<and>
    (\<exists>s n period_ns k. reach pl_init (pl_step n (nat (sint producers)) (int k) period_ns) s \<and>
      pl_main s = M_return r \<and> int (nat (sint producers) * k) = sint producers * sint per)"
proof -
  let ?p = "nat (sint producers)"
  have p: "0 \<le> sint producers" using assms by (simp add: run_pipeline_def split: if_splits)
  obtain s n period_ns where s: "reach pl_init (pl_step n ?p (sint per) period_ns) s" "pl_main s = M_return r"
    using assms p by (auto simp: run_pipeline_def)
  have no: "\<not> (0 < sint producers \<and> sint per < 0)"
    using starved_never_returns [OF s(1) _ _ int_product_bound [OF nat_sint_bound]] s(2) by auto
  show ?thesis
  proof (cases "sint per < 0")
    case True
    then have z: "sint producers = 0" using no p by simp
    then have "reach pl_init (pl_step n ?p (int 0) period_ns) s" using reach_no_producers s(1) by simp
    then have "\<exists>s n period_ns k. reach pl_init (pl_step n ?p (int k) period_ns) s \<and>
        pl_main s = M_return r \<and> int (?p * k) = sint producers * sint per"
      using s(2) z by (intro exI [of _ s] exI [of _ n] exI [of _ period_ns] exI [of _ 0]) simp
    then show ?thesis using p no by blast
  next
    case False
    then have "reach pl_init (pl_step n ?p (int (nat (sint per))) period_ns) s" using s(1) by simp
    moreover have "int (?p * nat (sint per)) = sint producers * sint per" using p False by simp
    ultimately show ?thesis using p no s(2) by blast
  qed
qed

lemma run_pipeline_ok:
  assumes "run_pipeline rnd producers workers per rate (Inr r)" "sint producers * sint per \<le> 2 ^ 32"
  shows "pr_total r = of_int (sint producers * sint per)" "pr_processed r = pr_total r" "sorted (pr_lat r)"
    "length (pr_lat r) \<le> 2 ^ 20" "of_nat (length (pr_lat r)) + pr_dropped r = pr_total r"
    "pr_checksum r = pr_expect r" "pl_exit r = 0"
proof -
  let ?p = "nat (sint producers)"
  obtain s n period_ns k where s: "reach pl_init (pl_step n ?p (int k) period_ns) s" "pl_main s = M_return r"
      and k: "int (?p * k) = sint producers * sint per"
    using run_pipeline_returned [OF assms(1)] by blast
  have N: "?p * k \<le> 2 ^ 32" using assms(2) unfolding k [symmetric] by (metis of_nat_le_iff of_nat_numeral of_nat_power)
  then have *: "pr_total r = of_nat (?p * k)" "pr_processed r = pr_total r" "sorted (pr_lat r)"
      "length (pr_lat r) = min (?p * k) (2 ^ 20)" "pr_dropped r = of_nat (?p * k - length (pr_lat r))"
      "pl_exit r = 0"
    using returned_result [OF s] by simp_all
  show "pr_total r = of_int (sint producers * sint per)" unfolding k [symmetric] *(1) by (rule of_int_of_nat_eq [symmetric])
  show "pr_processed r = pr_total r" "sorted (pr_lat r)" "pl_exit r = 0" using * by blast+
  show "length (pr_lat r) \<le> 2 ^ 20" using *(4) by simp
  have "length (pr_lat r) + (?p * k - length (pr_lat r)) = ?p * k" using *(4) by simp
  then show "of_nat (length (pr_lat r)) + pr_dropped r = pr_total r" unfolding *(1,5) of_nat_add [symmetric] by simp
  show "pr_checksum r = pr_expect r" using *(6) by (simp add: pl_exit_def split: if_splits)
qed

lemma report_ok:
  fixes label :: string
  assumes "run_pipeline rnd producers workers per rate (Inr r)" "sint producers * sint per \<le> 2 ^ 32" "ieee_rounding rnd"
  defines "rp \<equiv> print_result rnd label r"
  shows "rp_total rp = of_int (sint producers * sint per) \<and> rp_processed rp = rp_total rp \<and> rp_checksum_ok rp \<and>
    of_nat (rp_samples rp) + rp_dropped rp = rp_total rp \<and>
    rp_p50 rp \<le> rp_p90 rp \<and> rp_p90 rp \<le> rp_p99 rp \<and> rp_p99 rp \<le> rp_p999 rp \<and> rp_p999 rp \<le> rp_max rp \<and>
    (\<exists>m. rp_mean rp = Fin m \<and> 0 \<le> m \<and> (rp_samples rp * unat (rp_max rp) \<le> 2 ^ 53 \<longrightarrow> m \<le> of_nat (unat (rp_max rp))))"
proof -
  note r = run_pipeline_ok [OF assms(1,2)]
  have l: "length (pr_lat r) \<le> 2 ^ 53" using r(4) by simp
  note o = percentiles_ordered(1) [OF assms(3) r(3) l] percentiles_ordered(2) [OF assms(3) r(3) l order_refl]
  have mean: "rp_mean rp = (if pr_lat r = [] then Fin 0 else fp_div rnd (to_double rnd (sum_list (pr_lat r))) (rnd (of_nat (length (pr_lat r)))))"
    and f: "rp_samples rp = length (pr_lat r)" "rp_max rp = (if pr_lat r = [] then 0 else last (pr_lat r))"
    by (simp_all add: rp_def print_result_def Let_def fold_samples)
  have "\<exists>m. rp_mean rp = Fin m \<and> 0 \<le> m \<and> (rp_samples rp * unat (rp_max rp) \<le> 2 ^ 53 \<longrightarrow> m \<le> of_nat (unat (rp_max rp)))"
    unfolding mean f using mean_bound [OF assms(3) r(3) _ l] by simp
  moreover have "rp_p50 rp \<le> rp_p90 rp" "rp_p90 rp \<le> rp_p99 rp" "rp_p99 rp \<le> rp_p999 rp" "rp_p999 rp \<le> rp_max rp"
    unfolding rp_def print_result_def Let_def report.simps by (intro o; simp)+
  moreover have "rp_total rp = of_int (sint producers * sint per)" "rp_processed rp = rp_total rp" "rp_checksum_ok rp"
    "of_nat (rp_samples rp) + rp_dropped rp = rp_total rp"
    using r by (simp_all add: rp_def print_result_def Let_def)
  ultimately show ?thesis by blast
qed

lemma run_pipeline_throws: "run_pipeline rnd producers workers per rate (Inl e) \<longleftrightarrow> sint producers < 0 \<and> e = Length_error"
  by (auto simp: run_pipeline_def)

text \<open>C39: what \<open>pipeline_demo\<close> reports and returns, for at most \<open>2 ^ 32\<close> tasks and any rounding that keeps to IEEE 754, where
  \<open>P\<close>, \<open>Q\<close> and \<open>R\<close> are the numbers of producers and of tasks of each, and the rate, from the command line or by default.
  If \<open>P\<close> is negative it ends with an uncaught \<open>std::length_error\<close> and no report. If \<open>P\<close> is positive and \<open>Q\<close> is
  negative it does not end. Otherwise it exits with 0; it reports on the saturated run and, exactly when \<open>R\<close> is positive, on
  the paced one; every report says that all \<open>P * Q\<close> tasks were processed and the checksum is right, and accounts
  for all of them with its samples and those dropped; the percentiles are in order up to the maximum; the mean is a number,
  and no more than the maximum as long as the number of samples times the maximum is at most \<open>2 ^ 53\<close>; the comparison,
  made exactly when there are two reports, is a number too.\<close>

theorem pipeline_report:
  assumes "pd_main rnd atoi atof argv reports cmp out" "ieee_rounding rnd"
    and "P = (if length argv > 1 then sint (atoi (argv ! 1)) else 4)"
    and "Q = (if length argv > 3 then sint (atoi (argv ! 3)) else 200000)"
    and "R = (if length argv > 4 then atof (argv ! 4) else Fin 500000)"
    and "0 \<le> P \<Longrightarrow> P * Q \<le> 2 ^ 32"
  shows "out = (if P < 0 then Inl Length_error else Inr 0) \<and> \<not> (0 < P \<and> Q < 0) \<and>
    (cmp = None \<longleftrightarrow> P < 0 \<or> \<not> dbl_pos R) \<and>
    map rp_label reports = (if P < 0 then [] else if dbl_pos R then [label_saturated, label_paced] else [label_saturated]) \<and>
    (\<forall>x y z. cmp = Some (x, y, z) \<longrightarrow> (\<exists>q. z = Fin q \<and> 0 \<le> q)) \<and>
    (\<forall>rp\<in>set reports. rp_total rp = of_int (P * Q) \<and> rp_processed rp = rp_total rp \<and>
      rp_checksum_ok rp \<and> of_nat (rp_samples rp) + rp_dropped rp = rp_total rp \<and>
      rp_p50 rp \<le> rp_p90 rp \<and> rp_p90 rp \<le> rp_p99 rp \<and> rp_p99 rp \<le> rp_p999 rp \<and> rp_p999 rp \<le> rp_max rp \<and>
      (\<exists>m. rp_mean rp = Fin m \<and> 0 \<le> m \<and>
        (rp_samples rp * unat (rp_max rp) \<le> 2 ^ 53 \<longrightarrow> m \<le> of_nat (unat (rp_max rp)))))"
proof -
  let ?a = "pd_arguments atoi atof argv"
  have a: "sint (ar_producers ?a) = P" "sint (ar_per ?a) = Q" "ar_rate ?a = R"
    unfolding assms(3-5) by (simp_all add: pd_arguments_def)
  have ok: "0 \<le> P" "\<not> (0 < P \<and> Q < 0)" "sint (ar_producers ?a) * sint (ar_per ?a) \<le> 2 ^ 32"
    if "run_pipeline rnd (ar_producers ?a) (ar_workers ?a) (ar_per ?a) rate (Inr r)" for rate r
    using run_pipeline_returned [OF that] assms(6) by (simp_all add: a)
  from assms(1) show ?thesis
  proof cases
    case (main_uncaught b e)
    then show ?thesis by (simp add: run_pipeline_throws a)
  next
    case (main_saturated b sat)
    note run = main_saturated(5) [unfolded main_saturated(4)]
    show ?thesis using main_saturated(1-4,6) ok [OF run] run_pipeline_ok(7) [OF run ok(3) [OF run]]
        report_ok [OF run ok(3) [OF run] assms(2), unfolded a] by (simp add: a)
  next
    case (main_paced_uncaught b sat e)
    then show ?thesis using ok(1) [of "Fin 0" sat] by (simp add: run_pipeline_throws a)
  next
    case (main_both b sat paced)
    note run = main_both(5) [unfolded main_both(4)] and run2 = main_both(7) [unfolded main_both(4)]
    have pos: "0 \<le> to_double rnd w" for w unfolding to_double_def by (rule ieee_nonneg [OF assms(2) of_nat_0_le_iff])
    have "\<exists>q. z = Fin q \<and> 0 \<le> q" if "cmp = Some (x, y, z)" for x y z
      using that pos ieee_nonneg [OF assms(2)] unfolding main_both(2)
      by (auto simp: comparison_def fp_div_def Let_def)
    then show ?thesis
      using main_both(1-4,6) ok [OF run] run_pipeline_ok(7) [OF run ok(3) [OF run]]
        report_ok [OF run ok(3) [OF run] assms(2), unfolded a] report_ok [OF run2 ok(3) [OF run] assms(2), unfolded a]
      by (simp add: a)
  qed
qed

lemma size_t_conversion: "ucast (scast w :: size_t) = w" for w :: u32
  by (rule bit_word_eqI) (auto simp: bit_simps)

lemma run_pipeline_exists:
  assumes "0 \<le> sint producers" "0 \<le> sint per" "0 < sint workers"
  shows "\<exists>r. run_pipeline rnd producers workers per rate (Inr r)"
proof -
  let ?n = "unat (scast workers :: size_t)" and ?p = "nat (sint producers)" and ?k = "nat (sint per)"
  have "workers \<noteq> 0" using assms(3) by auto
  then have "(scast workers :: size_t) \<noteq> 0" using size_t_conversion [of workers] by auto
  then have n: "0 < ?n" by (simp add: unat_gt_0)
  have b: "?p < 2 ^ 31" "?k < 2 ^ 31" by (rule nat_sint_bound)+
  then have "?p * ?k \<le> 2 ^ 31 * 2 ^ 31" by (intro mult_mono) auto
  also have "\<dots> < (2 :: nat) ^ 64" by simp
  finally have T: "?p * ?k < 2 ^ 64" .
  obtain T0 where T0: "pl_period rnd rate ?p \<in> {None, Some T0}" by (cases "pl_period rnd rate ?p") auto
  obtain s0 where s0: "pl_init s0" using pl_init_exists by blast
  obtain s r where s: "pl_runs ?n ?p (int ?k) T0 s0 s" "pl_main s = M_return r"
    using pl_finish [OF pl_init_inv [OF s0] T n] b(1) by fastforce
  have "reach pl_init (pl_step ?n ?p (int ?k) T0) s" by (rule reach_rtranclp [OF reach_init [of pl_init, OF s0] s(1)])
  then show ?thesis using assms(1,2) T0 s(2) unfolding run_pipeline_def by auto
qed

text \<open>Without arguments: four producers with 200000 tasks each, both runs. With -3 producers: nothing but the exception.
  With four producers, four workers and -3 tasks for each: no end.\<close>

theorem pipeline_report_witness:
  "(\<exists>reports cmp. pd_main round_down (\<lambda>s. if s = ''-3'' then - 3 else 4) (\<lambda>_. NaN) [''pipeline_demo''] reports cmp (Inr 0) \<and>
      length reports = 2 \<and> (\<forall>rp\<in>set reports. rp_total rp = 800000 \<and> rp_checksum_ok rp \<and> rp_p50 rp \<le> rp_max rp)) \<and>
    (\<forall>reports cmp code. \<not> pd_main round_down (\<lambda>s. if s = ''-3'' then - 3 else 4) (\<lambda>_. NaN)
      [''pipeline_demo'', ''-3''] reports cmp (Inr code)) \<and>
    pd_main round_down (\<lambda>s. if s = ''-3'' then - 3 else 4) (\<lambda>_. NaN) [''pipeline_demo'', ''-3''] [] None (Inl Length_error) \<and>
    (\<forall>reports cmp out. \<not> pd_main round_down (\<lambda>s. if s = ''-3'' then - 3 else 4) (\<lambda>_. NaN)
      [''pipeline_demo'', ''4'', ''4'', ''-3''] reports cmp out)"
proof (intro conjI allI)
  let ?i = "\<lambda>s. if s = ''-3'' then - 3 else 4 :: u32" and ?f = "\<lambda>_. NaN"
  let ?a = "pd_arguments ?i ?f [''pipeline_demo'']"
  have a: "sint (ar_producers ?a) = 4" "sint (ar_per ?a) = 200000" "sint (ar_workers ?a) = 4" "dbl_pos (ar_rate ?a)"
    by (simp_all add: pd_arguments_def)
  obtain sat where sat: "run_pipeline round_down (ar_producers ?a) (ar_workers ?a) (ar_per ?a) (Fin 0) (Inr sat)"
    using run_pipeline_exists [of "ar_producers ?a" "ar_per ?a" "ar_workers ?a"] a by auto
  obtain paced where paced: "run_pipeline round_down (ar_producers ?a) (ar_workers ?a) (ar_per ?a) (ar_rate ?a) (Inr paced)"
    using run_pipeline_exists [of "ar_producers ?a" "ar_per ?a" "ar_workers ?a"] a by auto
  let ?r = "[print_result round_down label_saturated sat, print_result round_down label_paced paced]"
  have run: "pd_main round_down ?i ?f [''pipeline_demo''] ?r (Some (comparison round_down sat paced)) (Inr (pl_exit sat))"
    by (rule main_both [OF refl sat a(4) paced])
  note p = pipeline_report [OF run round_down_ieee, of 4 200000 "Fin 500000"]
  have code: "pl_exit sat = 0" using p by simp
  have ok: "rp_total rp = 800000 \<and> rp_checksum_ok rp \<and> rp_p50 rp \<le> rp_max rp" if "rp \<in> set ?r" for rp
  proof -
    have "rp_total rp = of_int (4 * 200000)" "rp_checksum_ok rp" "rp_p50 rp \<le> rp_max rp"
      using p that by (simp_all del: list.set, meson order_trans)
    then show ?thesis by simp
  qed
  show "\<exists>reports cmp. pd_main round_down ?i ?f [''pipeline_demo''] reports cmp (Inr 0) \<and>
      length reports = 2 \<and> (\<forall>rp\<in>set reports. rp_total rp = 800000 \<and> rp_checksum_ok rp \<and> rp_p50 rp \<le> rp_max rp)"
  proof (intro exI conjI ballI)
    show "pd_main round_down ?i ?f [''pipeline_demo''] ?r (Some (comparison round_down sat paced)) (Inr 0)"
      using run unfolding code .
  qed (use ok in auto)
  show "pd_main round_down ?i ?f [''pipeline_demo'', ''-3''] [] None (Inl Length_error)"
    by (rule main_uncaught [OF refl]) (simp add: run_pipeline_throws pd_arguments_def)
  show "\<not> pd_main round_down ?i ?f [''pipeline_demo'', ''-3''] reports cmp (Inr code)" for reports cmp code
    using pipeline_report [OF _ round_down_ieee, of ?i ?f "[''pipeline_demo'', ''-3'']" reports cmp "Inr code" "- 3" 200000 "Fin 500000"]
    by auto
  show "\<not> pd_main round_down ?i ?f [''pipeline_demo'', ''4'', ''4'', ''-3''] reports cmp out" for reports cmp out
    using pipeline_report [of round_down ?i ?f "[''pipeline_demo'', ''4'', ''4'', ''-3'']" reports cmp out 4 "- 3" "Fin 500000"]
      round_down_ieee by auto
qed

end
