(* ===== verification/Usage_Example.thy ===== *)
theory Usage_Example
  imports Pool_Program Pool_Futures
begin

text \<open>
  \<open>app/main.cpp\<close>: the main thread submits three functions to a \<open>ThreadPool\<close> of four workers, prints what their
  futures hold, and lets the pool's destructor shut the pool down.

  The pool is the step relation of \<open>Thread_Pool\<close>, its tasks are those that \<open>submit\<close> makes of a function
  (\<open>submit_task\<close>), and executing one acts on the futures, which are numbered in the order of the calls. The main thread
  calls \<open>submit\<close> as client 0 and, in the destructor, \<open>shutdown\<close> as client 1.
\<close>

section \<open>The program\<close>

datatype printed = An_int "32 word" | A_string string

definition add_ints :: "32 word \<Rightarrow> 32 word \<Rightarrow> 32 word" where
  "add_ints a b = a + b"

text \<open>The functions submitted. They use neither a state nor the clock.\<close>

definition ex_calls :: "(unit, printed) user_fun list" where
  "ex_calls = [\<lambda>u. (Inr (An_int (1 + 2)), u), \<lambda>u. (Inr (A_string ''hello thread pool''), u),
     \<lambda>u. (Inr (An_int (add_ints 10 12)), u)]"

text \<open>The order in which the futures are asked.\<close>

definition ex_asked :: "nat list" where
  "ex_asked = [2, 0, 1]"

text \<open>What \<open>operator <<\<close> writes for an \<open>int\<close> and a \<open>std::string\<close>.\<close>

fun decimal :: "nat \<Rightarrow> string" where
  "decimal n = (if n < 10 then [char_of (48 + n)] else decimal (n div 10) @ [char_of (48 + n mod 10)])"

declare decimal.simps [simp del]

fun shown :: "printed \<Rightarrow> string" where
  "shown (An_int w) = (if sint w < 0 then ''-'' @ decimal (nat (- sint w)) else decimal (nat (sint w)))"
| "shown (A_string s) = s"

definition no_tracing :: "(unit, printed) tracing" where
  "no_tracing = \<lparr>trc_enabled = False, trc_sink = None\<rparr>"

datatype ex_pc =
    X_submit nat              \<comment> \<open>that many calls of \<open>submit\<close> have been started\<close>
  | X_get nat                 \<comment> \<open>that many lines have been printed\<close>
  | X_destroy | X_return
  | X_terminate               \<comment> \<open>an exception has escaped a thread\<close>

type_synonym ex_world = "(unit, printed) world"

record ex =
  ex_pool :: "ex_world task pool"
  ex_world :: ex_world
  ex_out :: string
  ex_main :: ex_pc

definition ex_init :: "ex \<Rightarrow> bool" where
  "ex_init s \<longleftrightarrow> tp_init 100 BLOCK (ex_pool s) \<and> w_futures (ex_world s) = (\<lambda>_. Pending) \<and> ex_out s = '''' \<and>
     ex_main s = X_submit 0"

inductive ex_step :: "ex \<Rightarrow> ex \<Rightarrow> bool" where
  x_other: "tp_inside 4 1 (ex_pool s) t \<Longrightarrow> tp_executed t = tp_executed (ex_pool s) \<Longrightarrow>
    ex_step s (s\<lparr>ex_pool := t\<rparr>)"
| x_run: "tp_inside 4 1 (ex_pool s) t \<Longrightarrow> tp_executed t = tp_executed (ex_pool s) @ [x] \<Longrightarrow>
    task_execute x (ex_world s) = (None, w) \<Longrightarrow>
    ex_step s (s\<lparr>ex_pool := t, ex_world := w\<rparr>)"
| x_run_throws: "tp_inside 4 1 (ex_pool s) t \<Longrightarrow> tp_executed t = tp_executed (ex_pool s) @ [x] \<Longrightarrow>
    task_execute x (ex_world s) = (Some e, w) \<Longrightarrow>
    ex_step s (s\<lparr>ex_pool := t, ex_world := w, ex_main := X_terminate\<rparr>)"
| x_submit: "ex_main s = X_submit i \<Longrightarrow> i < length ex_calls \<Longrightarrow> tp_cl (ex_pool s) 0 = L_idle \<Longrightarrow>
    submit_task no_tracing i (ex_calls ! i) (ex_world s) = (x, w) \<Longrightarrow>
    ex_step s (s\<lparr>ex_pool := cl_to 0 (L_lock Submit x) ((ex_pool s)\<lparr>tp_active := tp_active (ex_pool s) + 1\<rparr>),
      ex_world := w, ex_main := X_submit (Suc i)\<rparr>)"
| x_submit_throws: "ex_main s = X_submit i \<Longrightarrow> tp_cl (ex_pool s) 0 = L_end (R_threw e) \<Longrightarrow>
    ex_step s (s\<lparr>ex_main := X_terminate\<rparr>)"
| x_submitted: "ex_main s = X_submit (length ex_calls) \<Longrightarrow> tp_cl (ex_pool s) 0 = L_idle \<Longrightarrow>
    ex_step s (s\<lparr>ex_main := X_get 0\<rparr>)"
| x_get: "ex_main s = X_get i \<Longrightarrow> i < length ex_asked \<Longrightarrow> w_futures (ex_world s) (ex_asked ! i) = Ready v \<Longrightarrow>
    ex_step s (s\<lparr>ex_out := ex_out s @ shown v @ [CHR 0x0A], ex_main := X_get (Suc i)\<rparr>)"
| x_get_throws: "ex_main s = X_get i \<Longrightarrow> i < length ex_asked \<Longrightarrow>
    w_futures (ex_world s) (ex_asked ! i) \<in> {Raised e, Broken_promise} \<Longrightarrow>
    ex_step s (s\<lparr>ex_main := X_terminate\<rparr>)"
| x_destroy: "ex_main s = X_get (length ex_asked) \<Longrightarrow>
    ex_step s (s\<lparr>ex_main := X_destroy, ex_pool := cl_to 1 H_lock (ex_pool s)\<rparr>)"
| x_return: "ex_main s = X_destroy \<Longrightarrow> tp_cl (ex_pool s) 1 \<in> {H_done, L_idle} \<Longrightarrow>
    ex_step s (s\<lparr>ex_main := X_return\<rparr>)"

section \<open>The tasks\<close>

abbreviation ex_request :: "nat \<Rightarrow> (unit, printed) request \<times> ex_world" where
  "ex_request i \<equiv> (Rq_future i (ex_calls ! i), undefined)"

definition ex_task :: "nat \<Rightarrow> ex_world task" where
  "ex_task i = request_task no_tracing (ex_request i)"

definition ex_value :: "nat \<Rightarrow> printed" where
  "ex_value i = [An_int 3, A_string ''hello thread pool'', An_int 22] ! i"

lemma calls_length [simp]: "length ex_calls = 3" "length ex_asked = 3"
  by (simp_all add: ex_calls_def ex_asked_def)

lemma submit_ex: "submit_task no_tracing i (ex_calls ! i) w = (x, w') \<longleftrightarrow> x = ex_task i \<and> w' = w"
  by (auto simp: ex_task_def submit_task_def makeTraceableTask_def no_tracing_def)

lemma outcome_ex: "i < 3 \<Longrightarrow> outcome (ex_calls ! i) a = Ready (ex_value i)"
  by (cases a) (auto simp: less_Suc_eq numeral_3_eq_3 outcome_def ex_calls_def ex_value_def add_ints_def)

lemma shown_ex: "shown (ex_value 0) = ''3''" "shown (ex_value 1) = ''hello thread pool''" "shown (ex_value 2) = ''22''"
  by (simp_all add: ex_value_def; code_simp)+

text \<open>Executed tasks have put the value of their function into their future.\<close>

lemma run_tasks_snoc:
  "run_tasks ts w = (None, w') \<Longrightarrow> run_tasks (ts @ [x]) w = (case task_execute x w' of (Some e, u) \<Rightarrow> (Some e, u) | (None, u) \<Rightarrow> (None, u))"
  by (induction ts arbitrary: w) (auto split: prod.splits option.splits)

lemma quiet_no_tracing: "quiet no_tracing"
  by (simp add: quiet_def no_tracing_def)

lemma keys_ex: "keys (map (fst \<circ> ex_request) js) = js"
  by (induction js) simp_all

text \<open>Some of the first \<open>i\<close> tasks have been executed, in any order.\<close>

lemma executed_ex:
  assumes "mset ts \<subseteq># mset (map ex_task [0..<i])"
  shows "\<exists>js. ts = map ex_task js \<and> distinct js \<and> set js \<subseteq> {..<i} \<and>
    (mset ts = mset (map ex_task [0..<i]) \<longrightarrow> set js = {..<i})"
proof -
  obtain us where "mset us = mset (map ex_task [0..<i]) - mset ts" using ex_mset by blast
  then have "mset (ts @ us) = mset (map ex_task [0..<i])"
    unfolding mset_append using subset_mset.add_diff_inverse [OF assms] by (rule ssubst)
  from mset_map_split [OF this]
  obtain ks where ks: "mset ks = mset [0..<i]" "ts @ us = map ex_task ks" by (elim exE conjE) (rule that)
  define js where "js = take (length ts) ks"
  have ts: "ts = map ex_task js" unfolding js_def take_map [symmetric] ks(2) [symmetric] by simp
  have s: "set ks = {..<i}" "distinct ks" "length ks = i"
    unfolding mset_eq_setD [OF ks(1)] mset_eq_imp_distinct_iff [OF ks(1)] mset_eq_length [OF ks(1)] by auto
  have all: "set js = {..<i}" if "mset ts = mset (map ex_task [0..<i])"
  proof -
    have "length ts = length ks" using mset_eq_length [OF that] unfolding s(3) by (simp only: length_map length_upt diff_zero)
    then show ?thesis using s(1) by (simp only: js_def take_all order_refl)
  qed
  show ?thesis
  proof (intro exI conjI impI)
    show "ts = map ex_task js" by (rule ts)
    show "set js = {..<i}" if "mset ts = mset (map ex_task [0..<i])" by (rule all [OF that])
    show "distinct js" unfolding js_def by (rule distinct_take [OF s(2)])
    show "set js \<subseteq> {..<i}" using set_take_subset [of "length ts" ks] unfolding s(1) js_def .
  qed
qed

lemma run_ex:
  assumes "mset ts \<subseteq># mset (map ex_task [0..<i])" "i \<le> 3" "w_futures w = (\<lambda>_. Pending)"
  shows "fst (run_tasks ts w) = None" "w_futures (snd (run_tasks ts w)) k \<in> {Pending, Ready (ex_value k)}"
    "mset ts = mset (map ex_task [0..<i]) \<Longrightarrow> k < i \<Longrightarrow> w_futures (snd (run_tasks ts w)) k = Ready (ex_value k)"
proof -
  obtain js where js: "ts = map ex_task js" "distinct js" "set js \<subseteq> {..<i}"
      "mset ts = mset (map ex_task [0..<i]) \<Longrightarrow> set js = {..<i}"
    using executed_ex [OF assms(1)] by (elim exE conjE) (rule that; blast)
  have ts: "ts = map (request_task no_tracing) (map ex_request js)" by (simp add: js(1) ex_task_def [abs_def])
  have k: "keys (map fst (map ex_request js)) = js" using keys_ex [of js] by simp
  note run = run_requests [OF quiet_no_tracing, of "map ex_request js" w, folded ts, unfolded k, OF js(2)]
  show "fst (run_tasks ts w) = None" using run by blast
  have ready: "w_futures (snd (run_tasks ts w)) k = Ready (ex_value k)" if "k \<in> set js"
  proof -
    have "Rq_future k (ex_calls ! k) \<in> set (map fst (map ex_request js))" using that unfolding set_map image_image fst_conv by (rule imageI)
    then obtain a where "w_futures (snd (run_tasks ts w)) k = outcome (ex_calls ! k) a" using run by blast
    moreover have "k < 3" using that js(3) assms(2) by auto
    ultimately show ?thesis by (simp add: outcome_ex)
  qed
  then show "w_futures (snd (run_tasks ts w)) k \<in> {Pending, Ready (ex_value k)}" using run assms(3) by auto
  show "w_futures (snd (run_tasks ts w)) k = Ready (ex_value k)" if "mset ts = mset (map ex_task [0..<i])" "k < i"
    by (rule ready) (use js(4) that in auto)
qed

section \<open>The invariant\<close>

definition ex_text :: "nat \<Rightarrow> string" where
  "ex_text j = concat (map (\<lambda>i. shown (ex_value (ex_asked ! i)) @ [CHR 0x0A]) [0..<j])"

text \<open>What holds at each point of the main thread, when \<open>i\<close> calls of \<open>submit\<close> have been started.\<close>

fun ex_stage :: "nat \<Rightarrow> ex_world task pool \<Rightarrow> string \<Rightarrow> ex_pc \<Rightarrow> bool" where
  "ex_stage i t out (X_submit j) = (j = i \<and> \<not> tp_stop t \<and> tp_cl t 1 = L_idle \<and> out = '''')"
| "ex_stage i t out (X_get j) =
     (i = 3 \<and> j \<le> 3 \<and> \<not> tp_stop t \<and> tp_cl t 0 = L_idle \<and> tp_cl t 1 = L_idle \<and> out = ex_text j)"
| "ex_stage i t out X_destroy = (i = 3 \<and> tp_cl t 0 = L_idle \<and> out = ex_text 3)"
| "ex_stage i t out X_return = (i = 3 \<and> tp_cl t 0 = L_idle \<and> out = ex_text 3)"
| "ex_stage i t out X_terminate = False"

text \<open>The world is what the executed tasks have made of it.\<close>

definition ex_ran :: "ex_world task list \<Rightarrow> ex_world \<Rightarrow> bool" where
  "ex_ran ts w \<longleftrightarrow> (\<exists>w0. w_futures w0 = (\<lambda>_. Pending) \<and> run_tasks ts w0 = (None, w))"

definition ex_inv :: "ex \<Rightarrow> bool" where
  "ex_inv s \<longleftrightarrow> reach (tp_init 100 BLOCK) (tp_step 4 2) (ex_pool s) \<and> callers_ok 1 (ex_pool s) \<and>
     ex_ran (tp_executed (ex_pool s)) (ex_world s) \<and>
     (\<exists>i\<le>3. given 1 (ex_pool s) = mset (map ex_task [0..<i]) \<and> ex_stage i (ex_pool s) (ex_out s) (ex_main s))"

lemma ex_invE:
  assumes "ex_inv s"
  obtains i where "reach (tp_init 100 BLOCK) (tp_step 4 2) (ex_pool s)" "callers_ok 1 (ex_pool s)"
    "ex_ran (tp_executed (ex_pool s)) (ex_world s)" "i \<le> 3" "given 1 (ex_pool s) = mset (map ex_task [0..<i])"
    "ex_stage i (ex_pool s) (ex_out s) (ex_main s)"
  using assms unfolding ex_inv_def by blast

lemma ex_invI:
  assumes "reach (tp_init 100 BLOCK) (tp_step 4 2) (ex_pool s)" "callers_ok 1 (ex_pool s)"
    "ex_ran (tp_executed (ex_pool s)) (ex_world s)" "i \<le> 3" "given 1 (ex_pool s) = mset (map ex_task [0..<i])"
    "ex_stage i (ex_pool s) (ex_out s) (ex_main s)"
  shows "ex_inv s"
  using assms unfolding ex_inv_def by blast

lemma executed_sub:
  assumes "reach (tp_init 100 BLOCK) (tp_step 4 2) t" "given 1 t = mset (map ex_task [0..<i])"
  shows "mset (tp_executed t) \<subseteq># mset (map ex_task [0..<i])"
  unfolding assms(2) [symmetric] given_def using executed_given [OF assms(1)] by (rule subset_mset.add_increasing2 [rotated]) simp

lemma ran_futures:
  assumes "ex_ran ts w" "mset ts \<subseteq># mset (map ex_task [0..<i])" "i \<le> 3"
  shows "w_futures w k \<in> {Pending, Ready (ex_value k)}"
    "mset ts = mset (map ex_task [0..<i]) \<Longrightarrow> k < i \<Longrightarrow> w_futures w k = Ready (ex_value k)"
proof -
  obtain w0 where w0: "w_futures w0 = (\<lambda>_. Pending)" "run_tasks ts w0 = (None, w)" using assms(1) unfolding ex_ran_def by blast
  note r = run_ex [OF assms(2,3) w0(1), unfolded w0(2) snd_conv]
  show "w_futures w k \<in> {Pending, Ready (ex_value k)}" by (rule r(2))
  show "mset ts = mset (map ex_task [0..<i]) \<Longrightarrow> k < i \<Longrightarrow> w_futures w k = Ready (ex_value k)" by (rule r(3))
qed

text \<open>No task lets an exception escape.\<close>

lemma ran_step:
  assumes "ex_ran ts w" "mset (ts @ [x]) \<subseteq># mset (map ex_task [0..<i])" "i \<le> 3"
  shows "\<exists>w'. task_execute x w = (None, w') \<and> ex_ran (ts @ [x]) w'"
proof -
  obtain w0 where w0: "w_futures w0 = (\<lambda>_. Pending)" "run_tasks ts w0 = (None, w)" using assms(1) unfolding ex_ran_def by blast
  have "fst (run_tasks (ts @ [x]) w0) = None" by (rule run_ex(1) [OF assms(2,3) w0(1)])
  then show ?thesis
    using w0(1) run_tasks_snoc [OF w0(2), of x] unfolding ex_ran_def
    by (cases "task_execute x w"; cases "fst (task_execute x w)") auto
qed

lemma ex_inside:
  assumes i: "ex_inv s" and st: "tp_inside 4 1 (ex_pool s) t"
  shows "tp_executed t = tp_executed (ex_pool s) \<Longrightarrow> ex_inv (s\<lparr>ex_pool := t\<rparr>)"
    "tp_executed t = tp_executed (ex_pool s) @ [x] \<Longrightarrow>
      \<exists>w. task_execute x (ex_world s) = (None, w) \<and> ex_inv (s\<lparr>ex_pool := t, ex_world := w\<rparr>)"
proof -
  obtain k where k: "reach (tp_init 100 BLOCK) (tp_step 4 2) (ex_pool s)" "callers_ok 1 (ex_pool s)"
    "ex_ran (tp_executed (ex_pool s)) (ex_world s)" "k \<le> 3" "given 1 (ex_pool s) = mset (map ex_task [0..<k])"
    "ex_stage k (ex_pool s) (ex_out s) (ex_main s)"
    using i by (rule ex_invE)
  have r: "reach (tp_init 100 BLOCK) (tp_step 4 2) t"
    by (rule reach_step [OF k(1)]) (use st in \<open>simp add: tp_inside_def numeral_2_eq_2\<close>)
  have c: "callers_ok 1 t" by (rule inside_callers_ok(1) [OF k(2) st])
  have g: "given 1 t = mset (map ex_task [0..<k])" using inside_callers_ok(2) [OF k(2) st] k(5) by simp
  have "tp_cl t d = L_idle" if "tp_cl (ex_pool s) d = L_idle" for d using st that by (simp add: tp_inside_def)
  then have stage: "ex_stage k t (ex_out s) (ex_main s)"
    using k(6) inside_main_idle [OF k(2) st] by (cases "ex_main s") simp_all
  show "ex_inv (s\<lparr>ex_pool := t\<rparr>)" if "tp_executed t = tp_executed (ex_pool s)"
    by (rule ex_invI) (use r c g stage k(3,4) that in simp_all)
  show "\<exists>w. task_execute x (ex_world s) = (None, w) \<and> ex_inv (s\<lparr>ex_pool := t, ex_world := w\<rparr>)"
    if x: "tp_executed t = tp_executed (ex_pool s) @ [x]"
  proof -
    obtain w where w: "task_execute x (ex_world s) = (None, w)" "ex_ran (tp_executed t) w"
      using ran_step [OF k(3) executed_sub [OF r g, unfolded x] k(4)] unfolding x by blast
    have "ex_inv (s\<lparr>ex_pool := t, ex_world := w\<rparr>)" by (rule ex_invI) (use r c g stage k(4) w(2) in simp_all)
    then show ?thesis using w(1) by blast
  qed
qed

lemma ex_step_inv:
  assumes i: "ex_inv s" and st: "ex_step s s'"
  shows "ex_inv s'"
proof -
  obtain k where k: "reach (tp_init 100 BLOCK) (tp_step 4 2) (ex_pool s)" "callers_ok 1 (ex_pool s)"
    "ex_ran (tp_executed (ex_pool s)) (ex_world s)" "k \<le> 3" "given 1 (ex_pool s) = mset (map ex_task [0..<k])"
    "ex_stage k (ex_pool s) (ex_out s) (ex_main s)"
    using i by (rule ex_invE)
  have pc: "producer_pc (tp_cl (ex_pool s) 0)" using k(2) by (simp add: callers_ok_def)
  have fut: "w_futures (ex_world s) j \<in> {Pending, Ready (ex_value j)}" for j
    by (rule ran_futures(1) [OF k(3) executed_sub [OF k(1,5)] k(4)])
  from st show ?thesis
  proof cases
    case (x_other t)
    then show ?thesis using ex_inside(1) [OF i] by simp
  next
    case (x_run t x w)
    then show ?thesis using ex_inside(2) [OF i x_run(2,3)] by auto
  next
    case (x_run_throws t x e w)
    then show ?thesis using ex_inside(2) [OF i x_run_throws(2,3)] by auto
  next
    case (x_submit j x w)
    have j: "j = k" "\<not> tp_stop (ex_pool s)" "tp_cl (ex_pool s) 1 = L_idle" "ex_out s = ''''" using k(6) x_submit(2) by simp_all
    have x: "x = ex_task k" "w = ex_world s" using x_submit(5) j(1) by (simp_all add: submit_ex)
    let ?t = "cl_to 0 (L_lock Submit x) ((ex_pool s)\<lparr>tp_active := tp_active (ex_pool s) + 1\<rparr>)"
    have "reach (tp_init 100 BLOCK) (tp_step 4 2) ?t" by (rule tp_cl [OF c_submit k(1)]) (use x_submit(4) in simp_all)
    moreover have "callers_ok 1 ?t" using k(2) j by (auto simp: callers_ok_def)
    moreover have "given 1 ?t = mset (map ex_task [0..<Suc k])"
      using k(5) x(1) x_submit(4) by (simp add: given_def)
    ultimately show ?thesis
      using k(3) x(2) j x_submit(1,3) by (intro ex_invI [of _ "Suc k"]) simp_all
  next
    case (x_submit_throws j e)
    then show ?thesis using pc by simp
  next
    case x_submitted
    then show ?thesis using k by (intro ex_invI [of _ k]) (simp_all add: ex_text_def)
  next
    case (x_get j v)
    have "v = ex_value (ex_asked ! j)" using fut [of "ex_asked ! j"] x_get(4) by simp
    then show ?thesis using k x_get by (intro ex_invI [of _ k]) (simp_all add: ex_text_def)
  next
    case (x_get_throws j e)
    then show ?thesis using fut [of "ex_asked ! j"] by auto
  next
    case x_destroy
    have s: "k = 3" "\<not> tp_stop (ex_pool s)" "tp_cl (ex_pool s) 0 = L_idle" "tp_cl (ex_pool s) 1 = L_idle" "ex_out s = ex_text 3"
      using k(6) x_destroy(2) by simp_all
    have "reach (tp_init 100 BLOCK) (tp_step 4 2) (cl_to 1 H_lock (ex_pool s))" by (rule tp_sd [OF h_call k(1)]) (use s in simp_all)
    then show ?thesis
      using k(2-5) s x_destroy(1) by (intro ex_invI [of _ k]) (simp_all add: callers_ok_def given_def)
  next
    case x_return
    then show ?thesis using k by (intro ex_invI [of _ k]) simp_all
  qed
qed

lemma ex_init_inv: "ex_init s \<Longrightarrow> ex_inv s"
  by (rule ex_invI [of s 0])
    (auto simp: ex_init_def tp_init_def callers_ok_def given_def ex_ran_def intro!: reach_init)

interpretation example: inductive_invariant ex_init ex_step ex_inv
  by unfold_locales (auto intro: ex_init_inv ex_step_inv)

section \<open>The program can always return\<close>

lemma ex_follows:
  assumes "ex_inv s" "tp_works 4 2 (ex_pool s) t"
  shows "\<exists>s'. ex_step s s' \<and> ex_pool s' = t \<and> ex_main s' = ex_main s"
proof -
  have st: "tp_inside 4 1 (ex_pool s) t" using assms(2) by (auto simp: tp_works_def tp_inside_def numeral_2_eq_2)
  have "tp_step 4 2 (ex_pool s) t" using assms(2) by (simp add: tp_works_def)
  from tp_step_executed [OF this] show ?thesis
  proof
    assume "tp_executed t = tp_executed (ex_pool s)"
    then show ?thesis using x_other [OF st] by fastforce
  next
    assume "\<exists>x. tp_executed t = tp_executed (ex_pool s) @ [x]"
    then obtain x where x: "tp_executed t = tp_executed (ex_pool s) @ [x]" by blast
    obtain w where "task_execute x (ex_world s) = (None, w)" using ex_inside(2) [OF assms(1) st x] by blast
    from x_run [OF st x this] show ?thesis by fastforce
  qed
qed

interpretation ex: pool_program 4 2 100 BLOCK ex_step ex_inv ex_pool ex_main
  by unfold_locales (auto intro: ex_step_inv ex_follows elim: ex_invE)

fun ex_left :: "ex_pc \<Rightarrow> nat" where
  "ex_left (X_submit i) = 10 - i"
| "ex_left (X_get i) = 5 - i"
| "ex_left X_destroy = 1"
| "ex_left _ = 0"

lemma ex_moves_on:
  assumes i: "ex_inv s" and m: "ex_main s \<noteq> X_return"
  shows "\<exists>s'. ex_step\<^sup>*\<^sup>* s s' \<and> ex_left (ex_main s') < ex_left (ex_main s)"
proof -
  obtain r where r: "ex_step\<^sup>*\<^sup>* s r" "ex_main r = ex_main s" "ex_inv r" "tp_finished 4 2 (ex_pool r)"
    using ex.comes_to_rest [OF i] by blast
  obtain k where k: "reach (tp_init 100 BLOCK) (tp_step 4 2) (ex_pool r)" "callers_ok 1 (ex_pool r)"
    "ex_ran (tp_executed (ex_pool r)) (ex_world r)" "k \<le> 3" "given 1 (ex_pool r) = mset (map ex_task [0..<k])"
    "ex_stage k (ex_pool r) (ex_out r) (ex_main r)"
    using r(3) by (rule ex_invE)
  have cl: "tp_cl (ex_pool r) 0 \<in> {L_idle, H_done}" "tp_cl (ex_pool r) 1 \<in> {L_idle, H_done}"
    using r(4) by (simp_all add: tp_finished_def)
  then have idle: "tp_cl (ex_pool r) 0 = L_idle" using k(2) by (auto simp: callers_ok_def)
  have next_step: ?thesis if "ex_step r t" "ex_left (ex_main t) < ex_left (ex_main s)" for t
    using r(1) that by (meson rtranclp.rtrancl_into_rtrancl)
  show ?thesis
  proof (cases "ex_main r")
    case (X_submit j)
    then have j: "j \<le> 3" using k(4,6) by simp
    show ?thesis
    proof (cases "j < 3")
      case True
      show ?thesis by (rule next_step [OF x_submit [OF X_submit _ idle]]) (use True X_submit r(2) in \<open>simp_all add: submit_ex\<close>)
    next
      case False
      then have "ex_main r = X_submit (length ex_calls)" using j X_submit by simp
      from next_step [OF x_submitted [OF this idle]] show ?thesis using X_submit r(2) j by simp
    qed
  next
    case (X_get j)
    then have j: "j \<le> 3" "k = 3" using k(6) by simp_all
    show ?thesis
    proof (cases "j < 3")
      case True
      have "mset (tp_executed (ex_pool r)) = given 1 (ex_pool r)" using r(4) idle by (simp add: tp_finished_def given_def)
      then have e: "mset (tp_executed (ex_pool r)) = mset (map ex_task [0..<k])" unfolding k(5) .
      have "ex_asked ! j < k" using True j(2) by (auto simp: ex_asked_def less_Suc_eq numeral_3_eq_3)
      then have "w_futures (ex_world r) (ex_asked ! j) = Ready (ex_value (ex_asked ! j))"
        using ran_futures(2) [OF k(3) _ k(4) e] unfolding e by blast
      from next_step [OF x_get [OF X_get _ this]] show ?thesis using True X_get r(2) by simp
    next
      case False
      then have "ex_main r = X_get (length ex_asked)" using j X_get by simp
      from next_step [OF x_destroy [OF this]] show ?thesis using X_get r(2) j by simp
    qed
  next
    case X_destroy
    then show ?thesis using next_step [OF x_return [OF X_destroy]] cl(2) r(2) by auto
  qed (use k(6) m r(2) in simp_all)
qed

interpretation ex_goal: reaches_goal "ex_step\<^sup>*\<^sup>*" ex_inv "\<lambda>s. ex_main s = X_return" "measure (\<lambda>s. ex_left (ex_main s))"
  by unfold_locales (use ex.runs_keep ex_moves_on in auto)

section \<open>Property\<close>

lemma ex_text_all: "ex_text 3 = ''22'' @ [CHR 0x0A] @ ''3'' @ [CHR 0x0A] @ ''hello thread pool'' @ [CHR 0x0A]"
  by (simp add: ex_text_def ex_asked_def shown_ex shown_ex(2) [unfolded One_nat_def] upt_rec numeral_3_eq_3)

text \<open>C40: \<open>main.cpp\<close> never ends with an exception, whatever the interleaving of its main thread and the four workers;
  from every point on it can return, and when it does, it has printed 22, 3 and "hello thread pool", in this
  order and nothing else, although the functions may have been executed in any order.\<close>

theorem usage_example_prints:
  assumes "reach ex_init ex_step s"
  shows "ex_main s \<noteq> X_terminate \<and>
    (ex_main s = X_return \<longrightarrow>
      ex_out s = ''22'' @ [CHR 0x0A] @ ''3'' @ [CHR 0x0A] @ ''hello thread pool'' @ [CHR 0x0A]) \<and>
    (\<exists>s'. ex_step\<^sup>*\<^sup>* s s' \<and> ex_main s' = X_return)"
proof (intro conjI impI)
  have i: "ex_inv s" by (rule example.inv_reach [OF assms])
  show "ex_main s \<noteq> X_terminate" using i by (auto elim: ex_invE)
  show "ex_out s = ''22'' @ [CHR 0x0A] @ ''3'' @ [CHR 0x0A] @ ''hello thread pool'' @ [CHR 0x0A]" if "ex_main s = X_return"
    using i that unfolding ex_text_all [symmetric] by (auto elim: ex_invE)
  show "\<exists>s'. ex_step\<^sup>*\<^sup>* s s' \<and> ex_main s' = X_return" using ex_goal.reaches [OF i] by simp
qed

lemma ex_init_exists: "\<exists>s. ex_init s"
proof -
  obtain t :: "ex_world task pool" where "tp_init 100 BLOCK t"
    using rb_new_total [of 100] by (fastforce simp: tp_init_def)
  then show ?thesis
    by (intro exI [of _ "\<lparr>ex_pool = t, ex_world = \<lparr>w_user = (), w_futures = \<lambda>_. Pending, w_failed = 0, w_next_id = 0,
      w_clock = 0\<rparr>, ex_out = '''', ex_main = X_submit 0\<rparr>"]) (simp add: ex_init_def)
qed

theorem usage_example_prints_witness:
  "\<exists>s s'. ex_init s \<and> ex_step\<^sup>*\<^sup>* s s' \<and> ex_main s' = X_return \<and>
     ex_out s' = ''22'' @ [CHR 0x0A] @ ''3'' @ [CHR 0x0A] @ ''hello thread pool'' @ [CHR 0x0A]"
proof -
  obtain s where s: "ex_init s" using ex_init_exists by blast
  have r: "reach ex_init ex_step s" by (rule reach_init [of ex_init, OF s])
  obtain s' where s': "ex_step\<^sup>*\<^sup>* s s'" "ex_main s' = X_return" using usage_example_prints [OF r] by blast
  then show ?thesis using usage_example_prints [OF reach_rtranclp [OF r s'(1)]] s by blast
qed

end
