(* ===== verification/Spec2Isabelle.thy ===== *)
theory Spec2Isabelle
  imports Ring_Buffer Locked_Ring_Buffer SPSC_Concurrent LFQ_Refinement Light_Epoch WS_Deque_Concurrent WSQ_Properties
    Task_Model Memory_Pool Thread_Pool_Progress Pool_Metrics WS_Thread_Pool_Hang Pool_Futures
    Pipeline_Report Usage_Example
begin

text \<open>
  A verification development for \<open>ll_engine\<close>, a C++17 library of two thread pools and the containers they
  are built from.

  THE PROGRAM. \<open>ThreadPool\<close> (\<open>include/ThreadPool.h\<close>, \<open>src/ThreadPool.cpp\<close>) runs tasks on a fixed number of
  workers; tasks wait in a \<open>RingBuffer\<close> behind one mutex and two condition variables, and a full queue blocks,
  discards or throws. \<open>WorkStealingThreadPool\<close> has the same interface; its clients put tasks into a
  \<open>LockFreeQueue\<close> without the mutex, a worker moves batches of them into its own \<open>WorkStealingDeque\<close> and
  steals from the others. Both run \<open>Task\<close> objects on \<open>Worker\<close> threads and can report \<open>TaskTrace\<close>s.
  \<open>MemoryPool\<close> recycles \<open>Task\<close>s. The remaining containers are offered to users: \<open>LockedRingBuffer\<close>,
  \<open>SPSCRingBuffer\<close>, and \<open>WorkStealingQueue\<close>, which grows behind the gate \<open>LightEpoch\<close>. All containers round
  their capacity up with \<open>NextPowerOfTwo\<close>. \<open>app/pipeline_demo.cpp\<close> puts a \<open>ThreadPool\<close> and a \<open>LockFreeQueue\<close> together,
  and \<open>app/main.cpp\<close> a \<open>ThreadPool\<close> and its futures.

  THE THEORIES, from the bottom up. Names are those of the code with a prefix per class.

  \<^item> \<open>Prelude\<close>: machine types (\<open>size_t\<close> is a 64-bit word), exceptions, masked indices, the window of a circular
    buffer, sums over threads, reachability (\<open>reach\<close>) and the locales \<open>inductive_invariant\<close> and \<open>reaches_goal\<close> (steps that
    come closer to a goal end there).
  \<^item> \<open>Interfaces\<close>: the contracts as locales: data refinement of runs of operations, objects whose
    operations take effect at one step of an interleaving (\<open>atomic_object\<close>), the bounded FIFO
    (\<open>fifo_step\<close>), the work-stealing deque (\<open>deque_step\<close>). Each is interpreted where a container provides it.
  \<^item> \<open>Next_Power_Of_Two\<close>: \<open>include/NextPowerOfTwo.h\<close>, all three branches, equal to the least power of two.
  \<^item> \<open>Ring_Buffer\<close>; \<open>Mutex_Guard\<close> and \<open>Locked_Ring_Buffer\<close>: the ring (\<open>include/RingBuffer.h\<close>) refines the bounded FIFO;
    any object whose operations run under one \<open>lock_guard\<close> behaves as if they ran one after the other,
    in the order of their critical sections.
  \<^item> \<open>SPSC_Ring_Buffer\<close>, \<open>SPSC_Concurrent\<close>: \<open>include/SPSCRingBuffer.h\<close>, first one operation at a time with the
    wrap-around of the counters, then producer and consumer interleaved: order, no loss, and no data race on
    a slot.
  \<^item> \<open>Lock_Free_Queue\<close>, \<open>LFQ_Concurrent\<close>: \<open>include/LockFreeQueue.h\<close> in the same two stages, for any number of
    threads: the order of the claims is the order of the elements, no data race, and every answer is justified.
    \<open>LFQ_Refinement\<close>: the interleaved queue is an \<open>atomic_object\<close> of the bounded FIFO.
  \<^item> \<open>Light_Epoch\<close>: \<open>include/LightEpoch.h\<close> under total store order: exclusion with the fence, its failure
    without, and the end of the owner's wait.
  \<^item> \<open>Steal_Cells\<close>, \<open>WS_Deque\<close>, \<open>WS_Deque_Concurrent\<close>: \<open>include/WorkStealingDeque.h\<close>; the interleavings of the owner
    and the thieves hand out every element exactly once with sequentially consistent memory, and lose one with
    a store buffer.
  \<^item> \<open>WS_Queue\<close>, \<open>WSQ_Concurrent\<close>, \<open>WSQ_Properties\<close>: \<open>include/WorkStealingQueue.h\<close>; the deque contract without a bound,
    then owner, thieves, epoch and a heap of arrays together: no use of a deleted array, nothing handed out twice;
    and a run after which an element is never handed out and the queue takes at most one more.
  \<^item> \<open>Task_Model\<close>: \<open>Task\<close>, \<open>Worker\<close>, \<open>TaskTrace\<close> and the closures that \<open>submit\<close>, \<open>submitVoid\<close>, \<open>trySubmit\<close> and
    \<open>makeTraceableTask\<close> build. User functions and the trace sink are parameters.
  \<^item> \<open>Memory_Pool\<close>: \<open>include/MemoryPool.h\<close>, \<open>src/MemoryPool.cpp\<close>: free and used slots partition the blocks; what is
    acquired is clean.
  \<^item> \<open>Thread_Pool\<close>: the state and the steps of workers (\<open>wk_step\<close>), clients (\<open>cl_step\<close>) and \<open>shutdown\<close> (\<open>sd_step\<close>).
    \<open>Thread_Pool_Correct\<close> holds the invariants: the accounting of tasks, the mutex, the exit of workers, and one
    each for the three reasons to wake a sleeper. \<open>Thread_Pool_Properties\<close> draws the conclusions,
    \<open>Thread_Pool_Progress\<close> counts the steps the threads have left and shows that they end only when all work is
    done, and \<open>Pool_Metrics\<close> relates the numbers the observers report.
  \<^item> \<open>WS_Thread_Pool\<close>, \<open>WS_Thread_Pool_Correct\<close>, \<open>WS_Thread_Pool_Properties\<close>: the same for the other pool, over the
    contracts of its two containers. A rule ending in \<open>_race\<close> stands for an answer with which concurrent
    use may deviate from the contract. \<open>WS_Thread_Pool_Progress\<close>: the pool can always go on until nobody has
    anything to do (\<open>ws_quiet\<close>), and \<open>shutdown\<close> has no deadlock: there is no bound on the steps as for \<open>ThreadPool\<close>,
    because idle workers may scan again and again, but a well-founded order (\<open>ws_closer\<close>) in which some step always
    goes down. \<open>WS_Thread_Pool_Hang\<close>: a run at whose end a producer sleeps although the queue is empty.
  \<^item> \<open>Pool_Futures\<close>: both pools with the tasks of \<open>Task_Model\<close> in them: what the futures hold after \<open>shutdown\<close>.
  \<^item> \<open>Pool_Program\<close>: programs around a \<open>ThreadPool\<close>, with the contract (\<open>pool_program\<close>) under which they can always
    bring it to rest; both programs of \<open>app/\<close> provide it.
  \<^item> \<open>Usage_Example\<close>: \<open>app/main.cpp\<close>: three futures, what is printed of them, and the end of the program.
  \<^item> \<open>Pipeline_Demo\<close>, \<open>Pipeline_Demo_Correct\<close>: \<open>run_pipeline\<close> and \<open>percentile\<close> of \<open>app/pipeline_demo.cpp\<close>: producers, a
    \<open>ThreadPool\<close>, a \<open>LockFreeQueue\<close> and the main thread together: the result is right whatever the interleaving,
    and the program can always go on to its end. \<open>Pipeline_Report\<close>: \<open>print_result\<close>, \<open>main\<close>, its arguments
    (\<open>int\<close>s of 32 bits, negative ones included) and the period of the producers: what the reports say, and when there is
    none.

  STATES AND STEPS. A record has the fields of the class and, where threads run, a map from thread numbers
  to the point each has reached, with its local variables as arguments. A step is one access to shared memory,
  to a mutex or to a condition variable. Fields that record history (elements accepted, tasks executed) are
  written and never read. A lemma \<open>X_inv\<close> or an \<open>interpretation\<close> of \<open>inductive_invariant\<close> carries the invariants
  to all reachable states; a property is then a few steps over it.

  BOUNDS. \<open>LockFreeQueue\<close>, \<open>WorkStealingDeque\<close> and \<open>WorkStealingQueue\<close> compare counters after a signed conversion;
  their theorems hold while fewer than \<open>2 ^ 63\<close> positions have been used (\<open>lq_bound\<close>, \<open>dqc_bound\<close>; for \<open>WS_Queue\<close>
  \<open>2 ^ 61\<close> operations on a capacity of at most \<open>2 ^ 62\<close>). At one operation per nanosecond \<open>2 ^ 61\<close> take 73
  years. \<open>SPSCRingBuffer\<close> and \<open>RingBuffer\<close> need no bound. A \<open>LockFreeQueue\<close> needs a capacity of at least 2. The 32-bit
  counters \<open>active_\<close> and \<open>active_submits\<close> need fewer than \<open>2 ^ 32\<close> threads. Waiting loops that one thread runs
  alone take fuel (\<open>WS_Deque\<close>, \<open>WS_Queue\<close>); the refinement theorems say that one look is enough. In the
  interleaved models a wait is a step that changes nothing, and needs no fuel.

  NOT MODELLED. Memory orders weaker than sequential consistency, apart from the store buffers
  of \<open>Light_Epoch\<close> and \<open>WS_Deque_Concurrent\<close>; failure to allocate memory or to start a thread, apart from the
  length limits of the array in \<open>WSQ_Concurrent\<close> and of the vector of producers in \<open>Pipeline_Report\<close>; the byte layout of \<open>MemoryPool\<close>'s blocks and cache-line alignment; destructors
  of the elements. A task's execution is one step of the pools. Of \<open>app/pipeline_demo.cpp\<close> the text
  that \<open>printf\<close> makes of the reported values and the banner that repeats the arguments; the rounding of its floating-point
  arithmetic is a parameter (\<open>ieee_rounding\<close> is what IEEE 754 promises of it). The benchmarks and the
  tests, which use the library: they measure and check it and have no logic of their own.
\<close>

end
